(* ===== verification/Prelude.thy ===== *)
theory Prelude
  imports Main "HOL-Library.Word" "HOL-Library.AList" "HOL-Library.Monad_Syntax"
begin

text \<open>
  Shared vocabulary of the development: the machine integers of the Rust sources, saturating and
  checked arithmetic, big- and little-endian byte strings, two-element arrays indexed by a
  direction, and the hash-map operations (\<^verbatim>\<open>DashMap\<close>, \<^verbatim>\<open>HashMap\<close>, \<^verbatim>\<open>OrderedHashMap\<close>) that
  the components use.

  \<^item> A map that the code only looks up, inserts into and filters is a partial function;
    \<open>map_retain\<close> is \<^verbatim>\<open>retain\<close>.
  \<^item> A map that the code iterates over or counts is an association list with distinct keys; the
    position in the list is the (unspecified) iteration order. The laws its clients rely on are
    the locale \<open>kv_map\<close>, interpreted here on the association lists.
  \<^item> \<^verbatim>\<open>usize\<close> is 64 bits wide; a \<^verbatim>\<open>usize\<close> that only counts or indexes is a \<^typ>\<open>nat\<close>.
\<close>

unbundle bit_operations_syntax

named_theorems codec \<open>rules that evaluate the fixed-width codecs\<close>
named_theorems kv \<open>lookups after an update of a map\<close>

section \<open>Machine integers\<close>

type_synonym u8 = "8 word"
type_synonym u16 = "16 word"
type_synonym u32 = "32 word"
type_synonym u64 = "64 word"
type_synonym bytes = "u8 list"
type_synonym peer_id = u32
type_synonym version = u32

text \<open>A duration in seconds, in nanoseconds.\<close>

definition secs :: "nat \<Rightarrow> nat" where
  "secs n = n * 1000000000"

text \<open>\<^verbatim>\<open>saturating_add\<close>, \<^verbatim>\<open>saturating_sub\<close> and \<^verbatim>\<open>as\<close> casts of the Rust standard library.\<close>

definition sat_add :: "'a::len word \<Rightarrow> 'a word \<Rightarrow> 'a word" where
  "sat_add a b = (if unat a + unat b < 2 ^ LENGTH('a) then a + b else - 1)"

definition sat_sub :: "'a::len word \<Rightarrow> 'a word \<Rightarrow> 'a word" where
  "sat_sub a b = (if b \<le> a then a - b else 0)"

lemma unat_bound: "unat (x :: 'a::len word) < 2 ^ LENGTH('a)"
  by (rule unsigned_less)

lemma unat_sat_sub: "unat (sat_sub a b) = unat a - unat b"
  by (auto simp: sat_sub_def unat_sub word_le_nat_alt)

lemma unat_sat_add:
  "unat (sat_add a (b :: 'a::len word)) = min (unat a + unat b) (2 ^ LENGTH('a) - 1)"
proof (cases "unat a + unat b < 2 ^ LENGTH('a)")
  case True
  then show ?thesis by (simp add: sat_add_def unat_word_ariths)
next
  case False
  then have "2 ^ LENGTH('a) - 1 \<le> unat a + unat b" by linarith
  with False show ?thesis
    by (simp add: sat_add_def unsigned_minus_1_eq_mask mask_eq_exp_minus_1)
qed

lemma le_sat_add: "a \<le> sat_add a b"
proof -
  have "unat a \<le> 2 ^ LENGTH('a) - 1"
    using unat_bound [of a] by (simp add: less_eq_Suc_le)
  then show ?thesis by (simp add: word_le_nat_alt unat_sat_add)
qed

section \<open>Byte strings\<close>

text \<open>\<^verbatim>\<open>to_be_bytes\<close> and \<^verbatim>\<open>from_be_bytes\<close>; \<^verbatim>\<open>zerocopy\<close>'s little-endian \<^verbatim>\<open>U16\<close> and \<^verbatim>\<open>U32\<close>.\<close>

fun nat_to_le :: "nat \<Rightarrow> nat \<Rightarrow> bytes" where
  "nat_to_le 0 x = []"
| "nat_to_le (Suc n) x = word_of_nat (x mod 256) # nat_to_le n (x div 256)"

fun nat_of_le :: "bytes \<Rightarrow> nat" where
  "nat_of_le [] = 0"
| "nat_of_le (b # bs) = unat b + 256 * nat_of_le bs"

definition nat_to_be :: "nat \<Rightarrow> nat \<Rightarrow> bytes" where
  "nat_to_be n x = rev (nat_to_le n x)"

definition nat_of_be :: "bytes \<Rightarrow> nat" where
  "nat_of_be bs = nat_of_le (rev bs)"

lemma length_nat_to_le [simp]: "length (nat_to_le n x) = n"
  by (induction n arbitrary: x) auto

lemma length_nat_to_be [simp]: "length (nat_to_be n x) = n"
  by (simp add: nat_to_be_def)

lemma unat_word8_mod [simp]: "unat (word_of_nat (x mod 256) :: u8) = x mod 256"
  by (simp add: unsigned_of_nat take_bit_eq_mod)

lemma nat_of_to_le: "nat_of_le (nat_to_le n x) = x mod 256 ^ n"
proof (induction n arbitrary: x)
  case 0
  then show ?case by simp
next
  case (Suc n)
  have "x mod (256 * 256 ^ n) = 256 * (x div 256 mod 256 ^ n) + x mod 256"
    by (rule mod_mult2_eq)
  then show ?case using Suc by simp
qed

lemma nat_of_le_less: "nat_of_le bs < 256 ^ length bs"
proof (induction bs)
  case Nil
  then show ?case by simp
next
  case (Cons b bs)
  have "unat b < 256" using unat_bound [of b] by simp
  with Cons show ?case by simp
qed

lemma nat_to_of_le: "nat_to_le (length bs) (nat_of_le bs) = bs"
proof (induction bs)
  case Nil
  then show ?case by simp
next
  case (Cons b bs)
  have "unat b < 256" using unat_bound [of b] by simp
  with Cons show ?case by simp
qed

lemma nat_of_to_be [codec]: "x < 256 ^ n \<Longrightarrow> nat_of_be (nat_to_be n x) = x"
  by (simp add: nat_of_be_def nat_to_be_def nat_of_to_le)

lemma nat_to_of_be: "length bs = n \<Longrightarrow> nat_to_be n (nat_of_be bs) = bs"
  using nat_to_of_le [of "rev bs"] by (simp add: nat_of_be_def nat_to_be_def)

definition u16_le :: "u16 \<Rightarrow> bytes" where "u16_le x = nat_to_le 2 (unat x)"
definition u32_le :: "u32 \<Rightarrow> bytes" where "u32_le x = nat_to_le 4 (unat x)"
definition u16_of_le :: "bytes \<Rightarrow> u16" where "u16_of_le bs = word_of_nat (nat_of_le bs)"
definition u32_of_le :: "bytes \<Rightarrow> u32" where "u32_of_le bs = word_of_nat (nat_of_le bs)"
definition u16_of_be :: "bytes \<Rightarrow> u16" where "u16_of_be bs = word_of_nat (nat_of_be bs)"
definition u32_be :: "u32 \<Rightarrow> bytes" where "u32_be x = nat_to_be 4 (unat x)"
definition u64_be :: "u64 \<Rightarrow> bytes" where "u64_be x = nat_to_be 8 (unat x)"
definition u32_of_be :: "bytes \<Rightarrow> u32" where "u32_of_be bs = word_of_nat (nat_of_be bs)"
definition u64_of_be :: "bytes \<Rightarrow> u64" where "u64_of_be bs = word_of_nat (nat_of_be bs)"

lemma length_codecs [simp]:
  "length (u16_le a) = 2" "length (u32_le b) = 4" "length (u32_be b) = 4" "length (u64_be c) = 8"
  by (simp_all add: u16_le_def u32_le_def u32_be_def u64_be_def)

lemma u16_le_roundtrip [codec, simp]: "u16_of_le (u16_le x) = x"
  using unat_bound [of x] by (simp add: u16_of_le_def u16_le_def nat_of_to_le)

lemma unat_u32_of_le: "length bs = 4 \<Longrightarrow> unat (u32_of_le bs) = nat_of_le bs"
  using nat_of_le_less [of bs] by (simp add: u32_of_le_def unsigned_of_nat take_bit_eq_mod)

lemma u32_le_of_le [codec, simp]: "length bs = 4 \<Longrightarrow> u32_le (u32_of_le bs) = bs"
  using nat_to_of_le [of bs] by (simp add: u32_le_def unat_u32_of_le)

lemma u32_le_roundtrip [codec, simp]: "u32_of_le (u32_le x) = x"
  using unat_bound [of x] by (simp add: u32_of_le_def u32_le_def nat_of_to_le)

lemma u32_be_roundtrip [codec, simp]: "u32_of_be (u32_be x) = x"
  using unat_bound [of x] by (simp add: u32_of_be_def u32_be_def nat_of_to_be)

lemma u64_be_roundtrip [codec, simp]: "u64_of_be (u64_be x) = x"
  using unat_bound [of x] by (simp add: u64_of_be_def u64_be_def nat_of_to_be)

lemma u32_be_shape: "\<exists>a b c d. u32_be x = [a, b, c, d]"
proof -
  have "length xs = 4 \<Longrightarrow> \<exists>a b c d. xs = [a, b, c, d]" for xs :: bytes
    by (auto simp: length_Suc_conv numeral_eq_Suc)
  then show ?thesis by simp
qed

section \<open>Maps\<close>

text \<open>\<^verbatim>\<open>retain\<close> on a map that is only looked up.\<close>

definition map_retain :: "('k \<Rightarrow> 'v \<Rightarrow> bool) \<Rightarrow> ('k \<rightharpoonup> 'v) \<Rightarrow> ('k \<rightharpoonup> 'v)" where
  "map_retain P m = (\<lambda>k. case m k of None \<Rightarrow> None | Some v \<Rightarrow> if P k v then Some v else None)"

lemma map_retain_Some [kv]: "map_retain P m k = Some v \<longleftrightarrow> m k = Some v \<and> P k v"
  by (auto simp: map_retain_def split: option.splits)

lemma map_retain_None [kv]: "map_retain P m k = None \<longleftrightarrow> (\<forall>v. m k = Some v \<longrightarrow> \<not> P k v)"
  by (auto simp: map_retain_def split: option.splits)

text \<open>A map that is iterated over or counted: an association list with distinct keys.\<close>

type_synonym ('k, 'v) kvs = "('k \<times> 'v) list"

definition kv_get :: "('k, 'v) kvs \<Rightarrow> 'k \<Rightarrow> 'v option" where
  "kv_get m k = map_of m k"

definition kv_put :: "'k \<Rightarrow> 'v \<Rightarrow> ('k, 'v) kvs \<Rightarrow> ('k, 'v) kvs" where
  "kv_put k v m = AList.update k v m"

definition kv_remove :: "'k \<Rightarrow> ('k, 'v) kvs \<Rightarrow> ('k, 'v) kvs" where
  "kv_remove k m = filter (\<lambda>e. fst e \<noteq> k) m"

definition kv_retain :: "('k \<Rightarrow> 'v \<Rightarrow> bool) \<Rightarrow> ('k, 'v) kvs \<Rightarrow> ('k, 'v) kvs" where
  "kv_retain P m = filter (\<lambda>e. P (fst e) (snd e)) m"

definition kv_keys :: "('k, 'v) kvs \<Rightarrow> 'k set" where
  "kv_keys m = set (map fst m)"

definition kv_ok :: "('k, 'v) kvs \<Rightarrow> bool" where
  "kv_ok m = distinct (map fst m)"

text \<open>
  The contract of such a map towards its clients: what a lookup returns after every update, and
  that every update keeps the representation well formed.
\<close>

locale kv_map =
  fixes empty :: "'m"
    and get :: "'m \<Rightarrow> 'k \<Rightarrow> 'v option"
    and put :: "'k \<Rightarrow> 'v \<Rightarrow> 'm \<Rightarrow> 'm"
    and remove :: "'k \<Rightarrow> 'm \<Rightarrow> 'm"
    and retain :: "('k \<Rightarrow> 'v \<Rightarrow> bool) \<Rightarrow> 'm \<Rightarrow> 'm"
    and ok :: "'m \<Rightarrow> bool"
  assumes get_empty: "get empty k = None"
    and get_put: "get (put k v m) k' = (if k' = k then Some v else get m k')"
    and get_remove: "get (remove k m) k' = (if k' = k then None else get m k')"
    and get_retain: "ok m \<Longrightarrow> get (retain P m) k = Some v \<longleftrightarrow> get m k = Some v \<and> P k v"
    and ok_empty: "ok empty"
    and ok_put: "ok m \<Longrightarrow> ok (put k v m)"
    and ok_remove: "ok m \<Longrightarrow> ok (remove k m)"
    and ok_retain: "ok m \<Longrightarrow> ok (retain P m)"
begin

lemma get_put_same: "get (put k v m) k = Some v"
  by (simp add: get_put)

lemma get_put_other: "k' \<noteq> k \<Longrightarrow> get (put k v m) k' = get m k'"
  by (simp add: get_put)

lemma get_retain_eq:
  "ok m \<Longrightarrow> get (retain P m) k =
    (case get m k of None \<Rightarrow> None | Some v \<Rightarrow> if P k v then Some v else None)"
proof -
  assume "ok m"
  then have "get (retain P m) k = Some v \<longleftrightarrow> get m k = Some v \<and> P k v" for v
    by (rule get_retain)
  from this [of "the (get m k)"] this [of "the (get (retain P m) k)"] show ?thesis
    by (cases "get (retain P m) k"; cases "get m k") simp_all
qed

lemma get_retain_None: "ok m \<Longrightarrow> get m k = None \<Longrightarrow> get (retain P m) k = None"
  by (simp add: get_retain_eq)

text \<open>Inserting a whole list of entries, in order: the last entry of a key wins.\<close>

lemma ok_fold_put: "ok m \<Longrightarrow> ok (fold (\<lambda>e. put (f e) (g e)) es m)"
  by (induction es arbitrary: m) (auto simp: ok_put)

lemma get_fold_put_notin: "k \<notin> f ` set es \<Longrightarrow> get (fold (\<lambda>e. put (f e) (g e)) es m) k = get m k"
  by (induction es arbitrary: m) (auto simp: get_put)

end

lemma map_of_filter_Some:
  "distinct (map fst m) \<Longrightarrow>
    map_of (filter Q m) k = Some v \<longleftrightarrow> map_of m k = Some v \<and> Q (k, v)"
  by (simp add: map_of_eq_Some_iff distinct_map_filter)

interpretation kvm: kv_map "[]" kv_get kv_put kv_remove kv_retain kv_ok
proof
  fix k k' :: 'a and v :: 'b and m :: "('a, 'b) kvs" and P
  show "kv_get [] k = None" by (simp add: kv_get_def)
  show "kv_get (kv_put k v m) k' = (if k' = k then Some v else kv_get m k')"
    by (simp add: kv_get_def kv_put_def update_conv)
  show "kv_get (kv_remove k m) k' = (if k' = k then None else kv_get m k')"
    by (induction m) (auto simp: kv_get_def kv_remove_def)
  show "kv_ok m \<Longrightarrow> kv_get (kv_retain P m) k = Some v \<longleftrightarrow> kv_get m k = Some v \<and> P k v"
    by (simp add: kv_ok_def kv_get_def kv_retain_def map_of_filter_Some)
  show "kv_ok []" by (simp add: kv_ok_def)
  show "kv_ok m \<Longrightarrow> kv_ok (kv_put k v m)"
    by (simp add: kv_ok_def kv_put_def distinct_update)
  show "kv_ok m \<Longrightarrow> kv_ok (kv_remove k m)"
    by (simp add: kv_ok_def kv_remove_def distinct_map_filter)
  show "kv_ok m \<Longrightarrow> kv_ok (kv_retain P m)"
    by (simp add: kv_ok_def kv_retain_def distinct_map_filter)
qed

lemmas kv_laws [kv, simp] = kvm.get_empty kvm.get_put kvm.get_remove
lemmas kv_ok_laws [intro] = kvm.ok_empty kvm.ok_put kvm.ok_remove kvm.ok_retain

lemma kv_keys_get: "k \<in> kv_keys m \<longleftrightarrow> kv_get m k \<noteq> None"
  by (induction m) (auto simp: kv_keys_def kv_get_def)

section \<open>Slices, addresses and strings of the standard library\<close>

text \<open>
  Checked slicing: \<^const>\<open>None\<close> is \<^verbatim>\<open>get\<close> returning \<^verbatim>\<open>None\<close>, or the panic of the indexing form.
\<close>

definition slice_from :: "nat \<Rightarrow> 'a list \<Rightarrow> 'a list option" where
  "slice_from a xs = (if a \<le> length xs then Some (drop a xs) else None)"

definition slice :: "nat \<Rightarrow> nat \<Rightarrow> 'a list \<Rightarrow> 'a list option" where
  "slice a b xs = (if a \<le> b \<and> b \<le> length xs then Some (take (b - a) (drop a xs)) else None)"

text \<open>\<^verbatim>\<open>xs[a..b].copy_from_slice(ys)\<close>, which panics when the range is bad or the lengths differ.\<close>

definition slice_copy :: "nat \<Rightarrow> nat \<Rightarrow> 'a list \<Rightarrow> 'a list \<Rightarrow> 'a list option" where
  "slice_copy a b ys xs =
     (if a \<le> b \<and> b \<le> length xs \<and> length ys = b - a then Some (take a xs @ ys @ drop b xs) else None)"

lemma slice_from_append [simp]: "slice_from (length xs) (xs @ ys) = Some ys"
  by (simp add: slice_from_def)

lemma length_slice_copy: "slice_copy a b ys xs = Some zs \<Longrightarrow> length zs = length xs"
  by (auto simp: slice_copy_def split: if_splits)

lemma slice_copy_append:
  "length xs = a \<Longrightarrow> length mid = b - a \<Longrightarrow> length ys = b - a \<Longrightarrow> a \<le> b
   \<Longrightarrow> slice_copy a b ys (xs @ mid @ zs) = Some (xs @ ys @ zs)"
  by (simp add: slice_copy_def)

definition nth_opt :: "'a list \<Rightarrow> nat \<Rightarrow> 'a option" where
  "nth_opt xs i = (if i < length xs then Some (xs ! i) else None)"

lemma nth_opt_Some: "nth_opt xs i = Some x \<longleftrightarrow> i < length xs \<and> xs ! i = x"
  by (auto simp: nth_opt_def)

datatype ip_addr = V4 u32 | V6 "128 word"

text \<open>\<^verbatim>\<open>IpCidr\<close> of the \<^verbatim>\<open>cidr\<close> crate over an unspecified type of networks.\<close>

datatype 'c ip_cidr = Cidr_V4 'c | Cidr_V6 'c

record socket_addr =
  sa_ip :: ip_addr
  sa_port :: u16

text \<open>\<^verbatim>\<open>std::str::from_utf8\<close> succeeds exactly on the well-formed sequences of the Unicode standard.\<close>

definition in_range :: "u8 \<Rightarrow> u8 \<Rightarrow> u8 \<Rightarrow> bool" where
  "in_range lo hi b \<longleftrightarrow> lo \<le> b \<and> b \<le> hi"

definition utf8_second_ok :: "u8 \<Rightarrow> u8 \<Rightarrow> bool" where
  "utf8_second_ok b c \<longleftrightarrow>
     in_range (if b = 0xE0 then 0xA0 else if b = 0xF0 then 0x90 else 0x80)
              (if b = 0xED then 0x9F else if b = 0xF4 then 0x8F else 0xBF) c"

fun utf8_valid :: "bytes \<Rightarrow> bool" where
  "utf8_valid [] = True"
| "utf8_valid (b # bs) =
     (if b < 0x80 then utf8_valid bs
      else (case bs of
        [] \<Rightarrow> False
      | c # cs \<Rightarrow>
         if in_range 0xC2 0xDF b then in_range 0x80 0xBF c \<and> utf8_valid cs
         else (case cs of
           [] \<Rightarrow> False
         | d # ds \<Rightarrow>
            if in_range 0xE0 0xEF b then
              utf8_second_ok b c \<and> in_range 0x80 0xBF d \<and> utf8_valid ds
            else (case ds of
              [] \<Rightarrow> False
            | e # es \<Rightarrow>
               in_range 0xF0 0xF4 b \<and> utf8_second_ok b c \<and> in_range 0x80 0xBF d
               \<and> in_range 0x80 0xBF e \<and> utf8_valid es))))"

end
