(* ===== verification/ReplayWindow.thy ===== *)
theory ReplayWindow
  imports Prelude
begin

text \<open>
  The 256-entry replay window of \<^verbatim>\<open>easytier-core/src/tunnel/secure_datagram.rs\<close>
  (\<^verbatim>\<open>ReplayWindow256\<close>): its operations on the 32-byte bitmap, byte loops included, the abstract
  specification (the set of sequence numbers accepted so far) and the refinement between them.
\<close>

section \<open>The window\<close>

record replay_window =
  max_seq :: u64
  bitmap :: bytes
  rw_valid :: bool

definition window_default :: replay_window where
  "window_default = \<lparr>max_seq = 0, bitmap = replicate 32 0, rw_valid = False\<rparr>"

definition window_clear :: "replay_window \<Rightarrow> replay_window" where
  "window_clear w = w\<lparr>max_seq := 0, bitmap := map (\<lambda>_. 0) (bitmap w), rw_valid := False\<rparr>"

definition window_test_bit :: "replay_window \<Rightarrow> nat \<Rightarrow> bool" where
  "window_test_bit w idx = (drop_bit (idx mod 8) (bitmap w ! (idx div 8)) AND 1 = 1)"

definition window_set_bit :: "nat \<Rightarrow> replay_window \<Rightarrow> replay_window" where
  "window_set_bit idx w =
     w\<lparr>bitmap := (bitmap w)[idx div 8 := bitmap w ! (idx div 8) OR push_bit (idx mod 8) 1]\<rparr>"

text \<open>The loop that moves whole bytes runs over the indices downwards and updates in place.\<close>

definition shift_bytes :: "nat \<Rightarrow> bytes \<Rightarrow> bytes" where
  "shift_bytes byte_shift bm =
     fold (\<lambda>i b. b[i := if byte_shift \<le> i then b ! (i - byte_shift) else 0])
       (rev [0..<length bm]) bm"

fun shift_bits :: "nat \<Rightarrow> u8 \<Rightarrow> bytes \<Rightarrow> bytes" where
  "shift_bits bit_shift carry [] = []"
| "shift_bits bit_shift carry (b # bs) =
     (push_bit bit_shift b OR carry) # shift_bits bit_shift (drop_bit (8 - bit_shift) b) bs"

definition shift_right :: "nat \<Rightarrow> replay_window \<Rightarrow> replay_window" where
  "shift_right shift w =
     (if shift = 0 then w
      else if 256 \<le> shift then w\<lparr>bitmap := map (\<lambda>_. 0) (bitmap w)\<rparr>
      else
        let byte_shift = shift div 8; bit_shift = shift mod 8;
            bm = (if 0 < byte_shift then shift_bytes byte_shift (bitmap w) else bitmap w)
        in w\<lparr>bitmap := (if 0 < bit_shift then shift_bits bit_shift 0 bm else bm)\<rparr>)"

definition accept :: "replay_window \<Rightarrow> u64 \<Rightarrow> bool \<times> replay_window" where
  "accept w seq =
     (if \<not> rw_valid w then (True, window_set_bit 0 (w\<lparr>rw_valid := True, max_seq := seq\<rparr>))
      else if max_seq w < seq then
        (True, window_set_bit 0 ((shift_right (unat (seq - max_seq w)) w)\<lparr>max_seq := seq\<rparr>))
      else
        let delta = unat (max_seq w - seq) in
        if 256 \<le> delta then (False, w)
        else if window_test_bit w delta then (False, w)
        else (True, window_set_bit delta w))"

definition can_accept :: "replay_window \<Rightarrow> u64 \<Rightarrow> bool" where
  "can_accept w seq =
     (if \<not> rw_valid w \<or> max_seq w < seq then True
      else let delta = unat (max_seq w - seq) in delta < 256 \<and> \<not> window_test_bit w delta)"

lemma can_accept_eq_accept: "can_accept w seq = fst (accept w seq)"
  by (auto simp: can_accept_def accept_def Let_def)

declare Max_less_iff [simp del] Max_ge_iff [simp del]

section \<open>Bits of the bitmap\<close>

definition bm_bit :: "bytes \<Rightarrow> nat \<Rightarrow> bool" where
  "bm_bit bm i = bit (bm ! (i div 8)) (i mod 8)"

lemma and_1_eq_1: "(x AND 1 = (1 :: 'a::len word)) = bit x 0"
  by (simp add: and_one_eq odd_iff_mod_2_eq_one [symmetric] bit_0)

lemma window_test_bit_bm: "window_test_bit w i = bm_bit (bitmap w) i"
  by (simp add: window_test_bit_def bm_bit_def and_1_eq_1 bit_drop_bit_eq)

lemma bm_bit_set:
  assumes "length bm = 32" "i < 256" "j < 256"
  shows "bm_bit (bm[i div 8 := bm ! (i div 8) OR push_bit (i mod 8) 1]) j = (j = i \<or> bm_bit bm j)"
proof -
  have "j = i \<longleftrightarrow> j div 8 = i div 8 \<and> j mod 8 = i mod 8"
    by (metis div_mult_mod_eq)
  then show ?thesis
    using assms by (auto simp: bm_bit_def nth_list_update bit_or_iff bit_push_bit_iff bit_1_iff bit_exp_iff)
qed

lemma length_shift_bits [simp]: "length (shift_bits s c bm) = length bm"
  by (induction bm arbitrary: c) auto

lemma nth_shift_bits:
  "i < length bm \<Longrightarrow> shift_bits s c bm ! i =
    (push_bit s (bm ! i) OR (if i = 0 then c else drop_bit (8 - s) (bm ! (i - 1))))"
  by (induction bm arbitrary: c i) (auto simp: nth_Cons split: nat.splits)

lemma shift_bytes_partial:
  assumes "n \<le> length bm" "0 < s"
  shows "fold (\<lambda>i b. b[i := if s \<le> i then b ! (i - s) else 0]) (rev [n..<length bm]) bm =
    map (\<lambda>i. if i < n then bm ! i else if s \<le> i then bm ! (i - s) else 0) [0..<length bm]"
  using assms
proof (induction "length bm - n" arbitrary: n)
  case 0
  then show ?case by (auto intro: nth_equalityI)
next
  case (Suc k)
  let ?f = "\<lambda>i b. b[i := if s \<le> i then b ! (i - s) else 0]"
  let ?g = "\<lambda>n i. if i < n then bm ! i else if s \<le> i then bm ! (i - s) else 0"
  from Suc.hyps(2) Suc.prems have n: "n < length bm" "k = length bm - Suc n" by auto
  then have up: "[n..<length bm] = n # [Suc n..<length bm]" by (simp add: upt_rec)
  have "fold ?f (rev [n..<length bm]) bm = ?f n (fold ?f (rev [Suc n..<length bm]) bm)"
    by (simp add: up)
  also have "\<dots> = ?f n (map (?g (Suc n)) [0..<length bm])"
    using Suc.hyps(1) [of "Suc n"] n Suc.prems by simp
  also have "\<dots> = map (?g n) [0..<length bm]"
    using n \<open>0 < s\<close> by (intro nth_equalityI) (auto simp: nth_list_update)
  finally show ?case .
qed

lemma shift_bytes_eq:
  "0 < s \<Longrightarrow> shift_bytes s bm = map (\<lambda>i. if s \<le> i then bm ! (i - s) else 0) [0..<length bm]"
  using shift_bytes_partial [of 0 bm s] by (simp add: shift_bytes_def cong: if_cong)

lemma length_shift_bytes [simp]: "length (shift_bytes s bm) = length bm"
proof -
  have "length (fold (\<lambda>i b. b[i := f i b]) xs bm) = length bm" for f :: "nat \<Rightarrow> bytes \<Rightarrow> u8" and xs
    by (induction xs arbitrary: bm) auto
  then show ?thesis by (simp add: shift_bytes_def)
qed

lemma bm_bit_shift_bytes:
  assumes "length bm = 32" "0 < s" "i < 256"
  shows "bm_bit (shift_bytes s bm) i = (8 * s \<le> i \<and> bm_bit bm (i - 8 * s))"
proof -
  have div: "(i - 8 * s) div 8 = i div 8 - s" if "8 * s \<le> i"
    using that by (simp add: div_le_mono)
  have mod: "(i - 8 * s) mod 8 = i mod 8" if "8 * s \<le> i"
    using that by (auto dest!: le_Suc_ex)
  have "s \<le> i div 8 \<longleftrightarrow> 8 * s \<le> i" by auto
  then show ?thesis
    using assms by (auto simp: bm_bit_def shift_bytes_eq div mod)
qed

lemma bm_bit_shift_bits:
  assumes "length bm = 32" "0 < s" "s < 8" "i < 256"
  shows "bm_bit (shift_bits s 0 bm) i = (s \<le> i \<and> bm_bit bm (i - s))"
proof -
  let ?k = "i div 8" and ?j = "i mod 8"
  have k: "?k < length bm" using assms by auto
  have bits: "bm_bit (shift_bits s 0 bm) i =
      (s \<le> ?j \<and> bit (bm ! ?k) (?j - s) \<or> ?k \<noteq> 0 \<and> bit (bm ! (?k - 1)) (?j + (8 - s)))"
    using k by (auto simp: bm_bit_def nth_shift_bits bit_or_iff bit_push_bit_iff bit_drop_bit_eq
        add.commute split: if_splits)
  have big: "\<not> bit (x :: u8) n" if "8 \<le> n" for x n
    using that bit_imp_le_length [of x n] by auto
  obtain k j where kj: "i = 8 * k + j" "j < 8"
    using that [of ?k ?j] by simp
  then have kj': "?k = k" "?j = j" by simp_all
  show ?thesis
  proof (cases "s \<le> j")
    case True
    then have "i - s = 8 * k + (j - s)" using kj by simp
    then have "bm_bit bm (i - s) = bit (bm ! k) (j - s)" using kj by (simp add: bm_bit_def)
    moreover have "s \<le> i" using True kj by simp
    ultimately show ?thesis unfolding bits kj' using True by (simp add: big)
  next
    case False
    show ?thesis
    proof (cases k)
      case 0
      moreover have "\<not> s \<le> i" using 0 False kj by simp
      ultimately show ?thesis unfolding bits kj' using False by simp
    next
      case (Suc k')
      with False kj have "i - s = 8 * k' + (j + (8 - s))" "j + (8 - s) < 8" "s \<le> i"
        using assms by simp_all
      then have "bm_bit bm (i - s) = bit (bm ! k') (j + (8 - s))" by (simp add: bm_bit_def)
      with False Suc \<open>s \<le> i\<close> show ?thesis unfolding bits kj' by simp
    qed
  qed
qed

lemma length_shift_right [simp]: "length (bitmap (shift_right n w)) = length (bitmap w)"
  by (simp add: shift_right_def Let_def)

lemma bm_bit_zero: "i < 256 \<Longrightarrow> length bm = 32 \<Longrightarrow> \<not> bm_bit (map (\<lambda>_. 0) bm) i"
  by (simp add: bm_bit_def)

lemma bm_bit_shift_right:
  assumes len: "length (bitmap w) = 32" and i: "i < 256"
  shows "bm_bit (bitmap (shift_right n w)) i = (n \<le> i \<and> bm_bit (bitmap w) (i - n))"
proof -
  consider "n = 0" | "256 \<le> n" | "0 < n" "n < 256" by linarith
  then show ?thesis
  proof cases
    case 3
    let ?bm = "if 0 < n div 8 then shift_bytes (n div 8) (bitmap w) else bitmap w"
    have bm: "bm_bit ?bm j = (8 * (n div 8) \<le> j \<and> bm_bit (bitmap w) (j - 8 * (n div 8)))" if "j < 256" for j
      using that len by (simp add: bm_bit_shift_bytes)
    have n: "n = 8 * (n div 8) + n mod 8" by simp
    have sub: "i - n mod 8 - 8 * (n div 8) = i - n" using n by linarith
    have le: "n mod 8 \<le> i \<and> 8 * (n div 8) \<le> i - n mod 8 \<longleftrightarrow> n \<le> i" using n by linarith
    have "bm_bit (bitmap (shift_right n w)) i =
        (n mod 8 \<le> i \<and> bm_bit ?bm (i - n mod 8))"
      using 3 len i by (simp add: shift_right_def Let_def bm_bit_shift_bits)
    also have "\<dots> = (n \<le> i \<and> bm_bit (bitmap w) (i - n))"
      using i le sub by (subst bm) auto
    finally show ?thesis .
  qed (use assms in \<open>auto simp: shift_right_def bm_bit_zero\<close>)
qed

section \<open>Specification and refinement\<close>

text \<open>
  The abstract window is the set of accepted sequence numbers. A number is accepted if it is new
  and not 256 or more behind the greatest one.
\<close>

definition spec_accepts :: "nat set \<Rightarrow> nat \<Rightarrow> bool" where
  "spec_accepts S s = (S = {} \<or> Max S < s \<or> (s \<notin> S \<and> Max S - s < 256))"

definition window_refines :: "replay_window \<Rightarrow> nat set \<Rightarrow> bool" where
  "window_refines w S = (finite S \<and> length (bitmap w) = 32 \<and> rw_valid w = (S \<noteq> {}) \<and>
     (S = {} \<longrightarrow> (\<forall>i<256. \<not> bm_bit (bitmap w) i)) \<and>
     (S \<noteq> {} \<longrightarrow> unat (max_seq w) = Max S \<and>
        (\<forall>i<256. bm_bit (bitmap w) i = (i \<le> Max S \<and> Max S - i \<in> S))))"

lemma window_refines_default: "window_refines window_default {}"
  by (simp add: window_refines_def window_default_def bm_bit_def)

lemma window_refines_clear: "window_refines w S \<Longrightarrow> window_refines (window_clear w) {}"
  by (simp add: window_refines_def window_clear_def bm_bit_zero)

lemma accept_spec:
  assumes "window_refines w S"
  shows "fst (accept w seq) = spec_accepts S (unat seq)"
proof (cases "S = {} \<or> Max S < unat seq")
  case True
  with assms show ?thesis
    by (auto simp: window_refines_def accept_def spec_accepts_def Let_def word_less_nat_alt)
next
  case False
  with assms have w: "rw_valid w" "unat (max_seq w) = Max S" "unat seq \<le> Max S"
      "\<And>i. i < 256 \<Longrightarrow> bm_bit (bitmap w) i = (i \<le> Max S \<and> Max S - i \<in> S)"
    by (auto simp: window_refines_def not_less)
  then have "unat (max_seq w - seq) = Max S - unat seq" and "\<not> max_seq w < seq"
    by (simp_all add: unat_sub word_le_nat_alt word_less_nat_alt)
  with w False show ?thesis
    by (simp add: accept_def spec_accepts_def Let_def window_test_bit_bm)
qed

lemma length_window_set_bit [simp]: "length (bitmap (window_set_bit i w)) = length (bitmap w)"
  by (simp add: window_set_bit_def)

lemma bm_bit_window_set_bit:
  "length (bitmap w) = 32 \<Longrightarrow> i < 256 \<Longrightarrow> j < 256 \<Longrightarrow>
    bm_bit (bitmap (window_set_bit i w)) j = (j = i \<or> bm_bit (bitmap w) j)"
  using bm_bit_set [of "bitmap w" i j] by (simp add: window_set_bit_def)

lemma window_set_bit_sel [simp]:
  "max_seq (window_set_bit i w) = max_seq w" "rw_valid (window_set_bit i w) = rw_valid w"
  by (simp_all add: window_set_bit_def)

lemma shift_right_sel [simp]:
  "max_seq (shift_right n w) = max_seq w" "rw_valid (shift_right n w) = rw_valid w"
  by (simp_all add: shift_right_def Let_def)

lemma accept_true_refines:
  assumes R: "window_refines w S" and acc: "accept w seq = (True, w')"
  shows "window_refines w' (insert (unat seq) S)"
proof -
  let ?s = "unat seq" and ?S = "insert (unat seq) S"
  from R have fin: "finite S" and len: "length (bitmap w) = 32" by (auto simp: window_refines_def)
  consider (first) "S = {}" | (newer) "S \<noteq> {}" "Max S < ?s" | (older) "S \<noteq> {}" "?s \<le> Max S"
    by linarith
  then show ?thesis
  proof cases
    case first
    with R acc have w': "w' = window_set_bit 0 (w\<lparr>rw_valid := True, max_seq := seq\<rparr>)"
      by (simp add: window_refines_def accept_def)
    from first R len have "bm_bit (bitmap w') i = (i = 0)" if "i < 256" for i
      using that by (simp add: w' bm_bit_window_set_bit window_refines_def)
    with first len show ?thesis by (auto simp: window_refines_def w')
  next
    case newer
    then have Max: "Max ?S = ?s" using fin by (simp add: max_def)
    from newer R have m: "unat (max_seq w) = Max S" "rw_valid w" by (auto simp: window_refines_def)
    then have lt: "max_seq w < seq" using newer by (simp add: word_less_nat_alt)
    then have d: "unat (seq - max_seq w) = ?s - Max S" using m by (simp add: unat_sub)
    from acc lt m have w': "w' = window_set_bit 0 ((shift_right (?s - Max S) w)\<lparr>max_seq := seq\<rparr>)"
      by (simp add: accept_def d)
    have bit: "bm_bit (bitmap w') i = (i = 0 \<or> ?s - Max S \<le> i \<and> bm_bit (bitmap w) (i - (?s - Max S)))"
      if "i < 256" for i
      using that len by (simp add: w' bm_bit_window_set_bit bm_bit_shift_right)
    have old: "bm_bit (bitmap w) i = (i \<le> Max S \<and> Max S - i \<in> S)" if "i < 256" for i
      using that R newer by (auto simp: window_refines_def)
    have "bm_bit (bitmap w') i = (i \<le> ?s \<and> ?s - i \<in> ?S)" if i: "i < 256" for i
    proof (cases "?s - Max S \<le> i")
      case True
      then have "Max S - (i - (?s - Max S)) = ?s - i" using newer by linarith
      with True i show ?thesis using newer by (auto simp: bit old)
    next
      case False
      then have "?s - i \<notin> S"
        using Max_ge [OF fin, of "?s - i"] by linarith
      with False i show ?thesis by (auto simp: bit)
    qed
    with fin len m Max show ?thesis by (simp add: window_refines_def w')
  next
    case older
    then have Max: "Max ?S = Max S" using fin by (simp add: max_def)
    from older R have m: "unat (max_seq w) = Max S" "rw_valid w"
        and old: "\<And>i. i < 256 \<Longrightarrow> bm_bit (bitmap w) i = (i \<le> Max S \<and> Max S - i \<in> S)"
      by (auto simp: window_refines_def)
    then have "\<not> max_seq w < seq" and d: "unat (max_seq w - seq) = Max S - ?s"
      using older by (simp_all add: word_less_nat_alt word_le_nat_alt unat_sub)
    with acc m have w': "w' = window_set_bit (Max S - ?s) w" and lt: "Max S - ?s < 256"
      by (auto simp: accept_def Let_def split: if_splits)
    have "bm_bit (bitmap w') i = (i \<le> Max S \<and> Max S - i \<in> ?S)" if "i < 256" for i
      using that lt older len by (auto simp: w' bm_bit_window_set_bit old)
    with fin len m Max older show ?thesis by (simp add: window_refines_def w')
  qed
qed

lemma accept_false_same: "accept w seq = (False, w') \<Longrightarrow> w' = w"
  by (auto simp: accept_def Let_def split: if_splits)

lemma spec_accepts_fresh: "window_refines w S \<Longrightarrow> spec_accepts S n \<Longrightarrow> n \<notin> S"
  by (auto simp: spec_accepts_def window_refines_def dest: Max_ge)

section \<open>The interface of a replay guard\<close>

text \<open>
  A run presents sequence numbers to a guard one after the other and collects those it accepts;
  \<open>spec_run\<close> is the same for the set specification.
\<close>

fun guard_run :: "('w \<Rightarrow> u64 \<Rightarrow> bool \<times> 'w) \<Rightarrow> 'w \<Rightarrow> u64 list \<Rightarrow> u64 list \<times> 'w" where
  "guard_run acc w [] = ([], w)"
| "guard_run acc w (s # ss) =
     (let (ok, w') = acc w s; (taken, w'') = guard_run acc w' ss
      in (if ok then s # taken else taken, w''))"

fun spec_run :: "(nat set \<Rightarrow> nat \<Rightarrow> bool) \<Rightarrow> nat set \<Rightarrow> nat list \<Rightarrow> nat list" where
  "spec_run spec S [] = []"
| "spec_run spec S (n # ns) = (if spec S n then n # spec_run spec (insert n S) ns else spec_run spec S ns)"

locale replay_guard =
  fixes init :: 'w
    and acc :: "'w \<Rightarrow> u64 \<Rightarrow> bool \<times> 'w"
    and refines :: "'w \<Rightarrow> nat set \<Rightarrow> bool"
    and spec :: "nat set \<Rightarrow> nat \<Rightarrow> bool"
  assumes init_refines: "refines init {}"
    and acc_spec: "refines w S \<Longrightarrow> fst (acc w s) = spec S (unat s)"
    and acc_true: "refines w S \<Longrightarrow> acc w s = (True, w') \<Longrightarrow> refines w' (insert (unat s) S)"
    and acc_false: "acc w s = (False, w') \<Longrightarrow> w' = w"
    and spec_fresh: "refines w S \<Longrightarrow> spec S n \<Longrightarrow> n \<notin> S"
begin

lemma acc_step:
  assumes R: "refines w S" and st: "acc w s = (ok, w')"
  shows "ok = spec S (unat s)" and "refines w' (if ok then insert (unat s) S else S)"
    and "ok \<Longrightarrow> unat s \<notin> S"
proof -
  show ok: "ok = spec S (unat s)" using acc_spec [OF R, of s] st by simp
  show "refines w' (if ok then insert (unat s) S else S)"
  proof (cases ok)
    case True
    with acc_true [OF R, of s w'] st show ?thesis by simp
  next
    case False
    with acc_false [of w s w'] st R show ?thesis by simp
  qed
  show "unat s \<notin> S" if ok using spec_fresh [OF R] that \<open>ok = spec S (unat s)\<close> by simp
qed

lemma run_refines:
  assumes "refines w S" "guard_run acc w ss = (taken, w')"
  shows "map unat taken = spec_run spec S (map unat ss) \<and> refines w' (S \<union> unat ` set taken)
    \<and> distinct taken \<and> unat ` set taken \<inter> S = {}"
  using assms
proof (induction ss arbitrary: w S taken)
  case Nil
  then show ?case by simp
next
  case (Cons s ss)
  obtain ok w1 tk where st: "acc w s = (ok, w1)" "guard_run acc w1 ss = (tk, w')"
      "taken = (if ok then s # tk else tk)"
    using Cons.prems(2) by (auto split: prod.splits)
  note step = acc_step [OF Cons.prems(1) st(1)]
  show ?case using Cons.IH [OF step(2) st(2)] step st(3) by (cases ok) auto
qed

end

interpretation window: replay_guard window_default accept window_refines spec_accepts
  by unfold_locales
    (rule window_refines_default accept_spec accept_true_refines accept_false_same
      spec_accepts_fresh | assumption)+

text \<open>
  C35: On every sequence of datagram numbers the 256-entry bitmap window takes exactly the decisions of
  the set specification, which accepts a number when it is above all accepted ones, or is less than
  256 below the largest and was not accepted before. Hence no number is accepted twice.
\<close>

theorem replay_window_run:
  "map unat (fst (guard_run accept window_default ss)) = spec_run spec_accepts {} (map unat ss)
   \<and> distinct (fst (guard_run accept window_default ss))"
  using window.run_refines [OF window.init_refines, of ss] by (cases "guard_run accept window_default ss") auto

end
