(* ===== verification/Packet.thy ===== *)
theory Packet
  imports Prelude
begin

text \<open>
  The packet layout of \<^verbatim>\<open>easytier-core/src/packet/mod.rs\<close>: the fixed-width headers and their
  byte images (\<^verbatim>\<open>zerocopy\<close>, little endian, packed), the flag accessors, the offsets of the five
  packet types, and the operations of \<^verbatim>\<open>ZCPacket\<close>. An out-of-range slice, \<^verbatim>\<open>unwrap\<close> of
  \<^verbatim>\<open>None\<close>, failed \<^verbatim>\<open>assert!\<close> or \<^verbatim>\<open>unreachable!\<close> of the code is \<^const>\<open>None\<close> in the model. Memory that
  the code leaves uninitialised (\<^verbatim>\<open>set_len\<close> after \<^verbatim>\<open>reserve\<close>) is the argument \<open>junk\<close>.
\<close>

section \<open>Header sizes and enumerations\<close>

definition max_size :: "nat \<Rightarrow> nat \<Rightarrow> nat" where
  "max_size a b = [a, b] ! (if a < b then 1 else 0)"

definition TCP_TUNNEL_HEADER_SIZE :: nat where "TCP_TUNNEL_HEADER_SIZE = 4"
definition UDP_TUNNEL_HEADER_SIZE :: nat where "UDP_TUNNEL_HEADER_SIZE = 4 + 1 + 1 + 2"
definition WG_TUNNEL_HEADER_SIZE :: nat where "WG_TUNNEL_HEADER_SIZE = 20"
definition PEER_MANAGER_HEADER_SIZE :: nat where
  "PEER_MANAGER_HEADER_SIZE = 4 + 4 + 1 + 1 + 1 + 1 + 4"
definition FOREIGN_HEADER_SIZE :: nat where "FOREIGN_HEADER_SIZE = 2 + 4 + 2 + 2"
definition AEAD_TAG_SIZE :: nat where "AEAD_TAG_SIZE = 16"
definition AEAD_NONCE_SIZE :: nat where "AEAD_NONCE_SIZE = 12"
definition AEAD_TAIL_SIZE :: nat where "AEAD_TAIL_SIZE = AEAD_TAG_SIZE + AEAD_NONCE_SIZE"
definition COMPRESSOR_TAIL_SIZE :: nat where "COMPRESSOR_TAIL_SIZE = 1"
definition TAIL_RESERVED_SIZE :: nat where
  "TAIL_RESERVED_SIZE = max_size AEAD_TAIL_SIZE COMPRESSOR_TAIL_SIZE"

lemmas size_defs = TCP_TUNNEL_HEADER_SIZE_def UDP_TUNNEL_HEADER_SIZE_def WG_TUNNEL_HEADER_SIZE_def
  PEER_MANAGER_HEADER_SIZE_def FOREIGN_HEADER_SIZE_def max_size_def AEAD_TAG_SIZE_def
  AEAD_NONCE_SIZE_def AEAD_TAIL_SIZE_def

datatype udp_packet_type =
  Udp_Invalid | Udp_Syn | Udp_Sack | Udp_Data | Udp_Fin | Udp_HolePunch | Udp_V4HolePunch
| Udp_V6HolePunch

fun udp_packet_type_u8 :: "udp_packet_type \<Rightarrow> u8" where
  "udp_packet_type_u8 Udp_Invalid = 0"
| "udp_packet_type_u8 Udp_Syn = 1"
| "udp_packet_type_u8 Udp_Sack = 2"
| "udp_packet_type_u8 Udp_Data = 3"
| "udp_packet_type_u8 Udp_Fin = 4"
| "udp_packet_type_u8 Udp_HolePunch = 5"
| "udp_packet_type_u8 Udp_V4HolePunch = 6"
| "udp_packet_type_u8 Udp_V6HolePunch = 7"

datatype packet_kind =
  Pkt_Invalid | Pkt_Data | Pkt_HandShake | Pkt_RoutePacket | Pkt_Ping | Pkt_Pong | Pkt_TaRpc
| Pkt_Route | Pkt_RpcReq | Pkt_RpcResp | Pkt_ForeignNetworkPacket | Pkt_KcpSrc | Pkt_KcpDst
| Pkt_QuicSrc | Pkt_QuicDst | Pkt_NoiseHandshakeMsg1 | Pkt_NoiseHandshakeMsg2
| Pkt_NoiseHandshakeMsg3 | Pkt_RelayHandshake | Pkt_RelayHandshakeAck
| Pkt_DataWithKcpSrcModified | Pkt_DataWithQuicSrcModified

fun packet_kind_u8 :: "packet_kind \<Rightarrow> u8" where
  "packet_kind_u8 Pkt_Invalid = 0"
| "packet_kind_u8 Pkt_Data = 1"
| "packet_kind_u8 Pkt_HandShake = 2"
| "packet_kind_u8 Pkt_RoutePacket = 3"
| "packet_kind_u8 Pkt_Ping = 4"
| "packet_kind_u8 Pkt_Pong = 5"
| "packet_kind_u8 Pkt_TaRpc = 6"
| "packet_kind_u8 Pkt_Route = 7"
| "packet_kind_u8 Pkt_RpcReq = 8"
| "packet_kind_u8 Pkt_RpcResp = 9"
| "packet_kind_u8 Pkt_ForeignNetworkPacket = 10"
| "packet_kind_u8 Pkt_KcpSrc = 11"
| "packet_kind_u8 Pkt_KcpDst = 12"
| "packet_kind_u8 Pkt_QuicSrc = 16"
| "packet_kind_u8 Pkt_QuicDst = 17"
| "packet_kind_u8 Pkt_NoiseHandshakeMsg1 = 13"
| "packet_kind_u8 Pkt_NoiseHandshakeMsg2 = 14"
| "packet_kind_u8 Pkt_NoiseHandshakeMsg3 = 15"
| "packet_kind_u8 Pkt_RelayHandshake = 20"
| "packet_kind_u8 Pkt_RelayHandshakeAck = 21"
| "packet_kind_u8 Pkt_DataWithKcpSrcModified = 18"
| "packet_kind_u8 Pkt_DataWithQuicSrcModified = 19"

section \<open>The peer manager header\<close>

record pm_header =
  from_peer_id :: u32
  to_peer_id :: u32
  packet_type :: u8
  flags :: u8
  forward_counter :: u8
  reserved :: u8
  pm_len :: u32

definition ENCRYPTED :: u8 where "ENCRYPTED = 0b00000001"
definition LATENCY_FIRST :: u8 where "LATENCY_FIRST = 0b00000010"
definition EXIT_NODE :: u8 where "EXIT_NODE = 0b00000100"
definition NO_PROXY :: u8 where "NO_PROXY = 0b00001000"
definition COMPRESSED :: u8 where "COMPRESSED = 0b00010000"
definition LIVENESS_PROBE :: u8 where "LIVENESS_PROBE = 0b00100000"
definition NOT_SEND_TO_TUN :: u8 where "NOT_SEND_TO_TUN = 0b01000000"
definition LIVENESS_ECHO :: u8 where "LIVENESS_ECHO = 0b10000000"

lemmas flag_defs = ENCRYPTED_def LATENCY_FIRST_def EXIT_NODE_def NO_PROXY_def COMPRESSED_def
  LIVENESS_PROBE_def NOT_SEND_TO_TUN_def LIVENESS_ECHO_def

text \<open>
  \<^verbatim>\<open>bitflags\<close>: every bit pattern is a valid flag set (\<^verbatim>\<open>const _ = !0\<close>), so \<^verbatim>\<open>from_bits\<close> never fails.
\<close>

definition flag_contains :: "u8 \<Rightarrow> u8 \<Rightarrow> bool" where
  "flag_contains fs f = (fs AND f = f)"

definition flag_put :: "u8 \<Rightarrow> bool \<Rightarrow> u8 \<Rightarrow> u8" where
  "flag_put f b fs = (if b then fs OR f else fs AND NOT f)"

definition is_encrypted :: "pm_header \<Rightarrow> bool" where
  "is_encrypted h = flag_contains (flags h) ENCRYPTED"
definition set_encrypted :: "bool \<Rightarrow> pm_header \<Rightarrow> pm_header" where
  "set_encrypted b h = h\<lparr>flags := flag_put ENCRYPTED b (flags h)\<rparr>"
definition is_latency_first :: "pm_header \<Rightarrow> bool" where
  "is_latency_first h = flag_contains (flags h) LATENCY_FIRST"
definition is_exit_node :: "pm_header \<Rightarrow> bool" where
  "is_exit_node h = flag_contains (flags h) EXIT_NODE"
definition is_no_proxy :: "pm_header \<Rightarrow> bool" where
  "is_no_proxy h = flag_contains (flags h) NO_PROXY"
definition is_compressed :: "pm_header \<Rightarrow> bool" where
  "is_compressed h = flag_contains (flags h) COMPRESSED"
definition set_latency_first :: "bool \<Rightarrow> pm_header \<Rightarrow> pm_header" where
  "set_latency_first b h = h\<lparr>flags := flag_put LATENCY_FIRST b (flags h)\<rparr>"
definition set_exit_node :: "bool \<Rightarrow> pm_header \<Rightarrow> pm_header" where
  "set_exit_node b h = h\<lparr>flags := flag_put EXIT_NODE b (flags h)\<rparr>"
definition set_no_proxy :: "bool \<Rightarrow> pm_header \<Rightarrow> pm_header" where
  "set_no_proxy b h = h\<lparr>flags := flag_put NO_PROXY b (flags h)\<rparr>"
definition set_compressed :: "bool \<Rightarrow> pm_header \<Rightarrow> pm_header" where
  "set_compressed b h = h\<lparr>flags := flag_put COMPRESSED b (flags h)\<rparr>"

definition liveness_probe_token :: "pm_header \<Rightarrow> u8 option" where
  "liveness_probe_token h =
     (if flag_contains (flags h) LIVENESS_PROBE then Some (reserved h) else None)"
definition liveness_echo_token :: "pm_header \<Rightarrow> u8 option" where
  "liveness_echo_token h =
     (if flag_contains (flags h) LIVENESS_ECHO then Some (reserved h) else None)"
definition clear_liveness_marker :: "pm_header \<Rightarrow> pm_header" where
  "clear_liveness_marker h =
     h\<lparr>flags := flag_put (LIVENESS_PROBE OR LIVENESS_ECHO) False (flags h), reserved := 0\<rparr>"
definition set_liveness_marker :: "u8 \<Rightarrow> u8 \<Rightarrow> pm_header \<Rightarrow> pm_header" where
  "set_liveness_marker marker token h =
     (let h' = clear_liveness_marker h
      in h'\<lparr>flags := flag_put marker True (flags h'), reserved := token\<rparr>)"
definition set_liveness_probe :: "u8 \<Rightarrow> pm_header \<Rightarrow> pm_header" where
  "set_liveness_probe token h = set_liveness_marker LIVENESS_PROBE token h"
definition set_liveness_echo :: "u8 \<Rightarrow> pm_header \<Rightarrow> pm_header" where
  "set_liveness_echo token h = set_liveness_marker LIVENESS_ECHO token h"

definition mark_kcp_src_modified :: "pm_header \<Rightarrow> pm_header option" where
  "mark_kcp_src_modified h =
     (if packet_type h = packet_kind_u8 Pkt_Data
      then Some (h\<lparr>packet_type := packet_kind_u8 Pkt_DataWithKcpSrcModified\<rparr>) else None)"
definition mark_quic_src_modified :: "pm_header \<Rightarrow> pm_header option" where
  "mark_quic_src_modified h =
     (if packet_type h = packet_kind_u8 Pkt_Data
      then Some (h\<lparr>packet_type := packet_kind_u8 Pkt_DataWithQuicSrcModified\<rparr>) else None)"
definition set_not_send_to_tun :: "bool \<Rightarrow> pm_header \<Rightarrow> pm_header" where
  "set_not_send_to_tun b h = h\<lparr>flags := flag_put NOT_SEND_TO_TUN b (flags h)\<rparr>"
definition is_not_send_to_tun :: "pm_header \<Rightarrow> bool" where
  "is_not_send_to_tun h = flag_contains (flags h) NOT_SEND_TO_TUN"

text \<open>The byte image: \<^verbatim>\<open>as_bytes\<close> and \<^verbatim>\<open>ref_from_prefix\<close>.\<close>

definition pm_header_bytes :: "pm_header \<Rightarrow> bytes" where
  "pm_header_bytes h = u32_le (from_peer_id h) @ u32_le (to_peer_id h) @
     [packet_type h, flags h, forward_counter h, reserved h] @ u32_le (pm_len h)"

definition pm_header_of_prefix :: "bytes \<Rightarrow> pm_header option" where
  "pm_header_of_prefix bs =
     (if length bs < PEER_MANAGER_HEADER_SIZE then None
      else Some \<lparr>from_peer_id = u32_of_le (take 4 bs), to_peer_id = u32_of_le (take 4 (drop 4 bs)),
        packet_type = bs ! 8, flags = bs ! 9, forward_counter = bs ! 10, reserved = bs ! 11,
        pm_len = u32_of_le (take 4 (drop 12 bs))\<rparr>)"

lemma length_pm_header_bytes [simp]: "length (pm_header_bytes h) = PEER_MANAGER_HEADER_SIZE"
  by (simp add: pm_header_bytes_def PEER_MANAGER_HEADER_SIZE_def)

lemma pm_header_of_prefix_bytes [simp]: "pm_header_of_prefix (pm_header_bytes h @ rest) = Some h"
  by (simp add: pm_header_of_prefix_def pm_header_bytes_def PEER_MANAGER_HEADER_SIZE_def nth_append)

lemma pm_header_bytes_of_prefix:
  assumes "pm_header_of_prefix bs = Some h"
  shows "bs = pm_header_bytes h @ drop PEER_MANAGER_HEADER_SIZE bs"
proof -
  have len: "16 \<le> length bs"
    using assms by (auto simp: pm_header_of_prefix_def PEER_MANAGER_HEADER_SIZE_def split: if_splits)
  have four: "[bs ! 8, bs ! 9, bs ! 10, bs ! 11] = take 4 (drop 8 bs)"
    using len by (intro nth_equalityI) (auto simp: less_Suc_eq numeral_nat)
  have h: "pm_header_bytes h = take 4 bs @ take 4 (drop 4 bs) @ [bs ! 8, bs ! 9, bs ! 10, bs ! 11]
      @ take 4 (drop 12 bs)"
    using assms len by (auto simp: pm_header_of_prefix_def pm_header_bytes_def
        PEER_MANAGER_HEADER_SIZE_def split: if_splits)
  have "take 4 bs @ take 4 (drop 4 bs) @ take 4 (drop 8 bs) @ take 4 (drop 12 bs) = take 16 bs"
    by (simp flip: take_add append_assoc)
  with h four have "pm_header_bytes h = take 16 bs" by simp
  then show ?thesis by (simp add: PEER_MANAGER_HEADER_SIZE_def)
qed

section \<open>The UDP tunnel header and the foreign network header\<close>

record udp_header =
  conn_id :: u32
  msg_type :: u8
  padding :: u8
  udp_len :: u16

definition udp_header_bytes :: "udp_header \<Rightarrow> bytes" where
  "udp_header_bytes h = u32_le (conn_id h) @ [msg_type h, padding h] @ u16_le (udp_len h)"

definition udp_header_of_prefix :: "bytes \<Rightarrow> udp_header option" where
  "udp_header_of_prefix bs =
     (if length bs < UDP_TUNNEL_HEADER_SIZE then None
      else Some \<lparr>conn_id = u32_of_le (take 4 bs), msg_type = bs ! 4, padding = bs ! 5,
        udp_len = u16_of_le (take 2 (drop 6 bs))\<rparr>)"

lemma length_udp_header_bytes [simp]: "length (udp_header_bytes h) = UDP_TUNNEL_HEADER_SIZE"
  by (simp add: udp_header_bytes_def UDP_TUNNEL_HEADER_SIZE_def)

lemma udp_header_of_prefix_bytes [simp]: "udp_header_of_prefix (udp_header_bytes h @ rest) = Some h"
  by (simp add: udp_header_of_prefix_def udp_header_bytes_def UDP_TUNNEL_HEADER_SIZE_def nth_append)

record foreign_network_packet_header =
  header_len :: u16
  dst_peer_id :: u32
  network_name_offset :: u16
  network_name_len :: u16

definition foreign_header_new :: "u32 \<Rightarrow> bytes \<Rightarrow> foreign_network_packet_header" where
  "foreign_header_new dst name =
     (let name_off = word_of_nat FOREIGN_HEADER_SIZE; name_len = word_of_nat (length name)
      in \<lparr>header_len = name_off + name_len, dst_peer_id = dst, network_name_offset = name_off,
          network_name_len = name_len\<rparr>)"

definition get_network_name :: "foreign_network_packet_header \<Rightarrow> bytes \<Rightarrow> bytes option" where
  "get_network_name h pl =
     (let off = unat (network_name_offset h); n = unat (network_name_len h) in do {
        name \<leftarrow> slice off (off + n) pl;
        if utf8_valid name then Some name else None })"

definition get_dst_peer_id_foreign :: "foreign_network_packet_header \<Rightarrow> u32" where
  "get_dst_peer_id_foreign h = dst_peer_id h"

definition get_header_len :: "foreign_network_packet_header \<Rightarrow> nat" where
  "get_header_len h = unat (header_len h)"

definition foreign_header_bytes :: "foreign_network_packet_header \<Rightarrow> bytes" where
  "foreign_header_bytes h = u16_le (header_len h) @ u32_le (dst_peer_id h) @
     u16_le (network_name_offset h) @ u16_le (network_name_len h)"

definition foreign_header_of_prefix :: "bytes \<Rightarrow> foreign_network_packet_header option" where
  "foreign_header_of_prefix bs =
     (if length bs < FOREIGN_HEADER_SIZE then None
      else Some \<lparr>header_len = u16_of_le (take 2 bs), dst_peer_id = u32_of_le (take 4 (drop 2 bs)),
        network_name_offset = u16_of_le (take 2 (drop 6 bs)),
        network_name_len = u16_of_le (take 2 (drop 8 bs))\<rparr>)"

lemma length_foreign_header_bytes [simp]: "length (foreign_header_bytes h) = FOREIGN_HEADER_SIZE"
  by (simp add: foreign_header_bytes_def FOREIGN_HEADER_SIZE_def)

lemma foreign_header_of_prefix_bytes [simp]:
  "foreign_header_of_prefix (foreign_header_bytes h @ rest) = Some h"
  by (simp add: foreign_header_of_prefix_def foreign_header_bytes_def FOREIGN_HEADER_SIZE_def)

section \<open>Packet types and offsets\<close>

record flow_key =
  fk_src :: socket_addr
  fk_dst :: socket_addr
  fk_protocol :: u8

datatype zc_packet_type = TCP | UDP | WG | NIC | DummyTunnel

record zc_packet_offsets =
  payload_off :: nat
  peer_manager_header_off :: nat
  tcp_tunnel_header_off :: nat
  udp_tunnel_header_off :: nat
  wg_tunnel_header_off :: nat
  dummy_tunnel_header_off :: nat

definition PAYLOAD_OFFSET_FOR_NIC_PACKET :: nat where
  "PAYLOAD_OFFSET_FOR_NIC_PACKET =
     max_size (max_size TCP_TUNNEL_HEADER_SIZE UDP_TUNNEL_HEADER_SIZE) WG_TUNNEL_HEADER_SIZE
     + PEER_MANAGER_HEADER_SIZE"

definition INVALID_OFFSET :: nat where "INVALID_OFFSET = 2 ^ 64 - 1"

definition get_converted_offset :: "nat \<Rightarrow> nat \<Rightarrow> nat" where
  "get_converted_offset old_hdr_size new_hdr_size =
     (if old_hdr_size < new_hdr_size then INVALID_OFFSET else old_hdr_size - new_hdr_size)"

fun get_packet_offsets :: "zc_packet_type \<Rightarrow> zc_packet_offsets" where
  "get_packet_offsets TCP =
     \<lparr>payload_off = TCP_TUNNEL_HEADER_SIZE + PEER_MANAGER_HEADER_SIZE,
      peer_manager_header_off = TCP_TUNNEL_HEADER_SIZE,
      tcp_tunnel_header_off = 0,
      udp_tunnel_header_off = get_converted_offset TCP_TUNNEL_HEADER_SIZE UDP_TUNNEL_HEADER_SIZE,
      wg_tunnel_header_off = get_converted_offset TCP_TUNNEL_HEADER_SIZE WG_TUNNEL_HEADER_SIZE,
      dummy_tunnel_header_off = get_converted_offset TCP_TUNNEL_HEADER_SIZE 0\<rparr>"
| "get_packet_offsets UDP =
     \<lparr>payload_off = UDP_TUNNEL_HEADER_SIZE + PEER_MANAGER_HEADER_SIZE,
      peer_manager_header_off = UDP_TUNNEL_HEADER_SIZE,
      tcp_tunnel_header_off = get_converted_offset UDP_TUNNEL_HEADER_SIZE TCP_TUNNEL_HEADER_SIZE,
      udp_tunnel_header_off = 0,
      wg_tunnel_header_off = get_converted_offset UDP_TUNNEL_HEADER_SIZE WG_TUNNEL_HEADER_SIZE,
      dummy_tunnel_header_off = get_converted_offset UDP_TUNNEL_HEADER_SIZE 0\<rparr>"
| "get_packet_offsets WG =
     \<lparr>payload_off = WG_TUNNEL_HEADER_SIZE + PEER_MANAGER_HEADER_SIZE,
      peer_manager_header_off = WG_TUNNEL_HEADER_SIZE,
      tcp_tunnel_header_off = get_converted_offset WG_TUNNEL_HEADER_SIZE TCP_TUNNEL_HEADER_SIZE,
      udp_tunnel_header_off = get_converted_offset WG_TUNNEL_HEADER_SIZE UDP_TUNNEL_HEADER_SIZE,
      wg_tunnel_header_off = 0,
      dummy_tunnel_header_off = get_converted_offset WG_TUNNEL_HEADER_SIZE 0\<rparr>"
| "get_packet_offsets NIC =
     \<lparr>payload_off = PAYLOAD_OFFSET_FOR_NIC_PACKET,
      peer_manager_header_off = PAYLOAD_OFFSET_FOR_NIC_PACKET - PEER_MANAGER_HEADER_SIZE,
      tcp_tunnel_header_off =
        PAYLOAD_OFFSET_FOR_NIC_PACKET - PEER_MANAGER_HEADER_SIZE - TCP_TUNNEL_HEADER_SIZE,
      udp_tunnel_header_off =
        PAYLOAD_OFFSET_FOR_NIC_PACKET - PEER_MANAGER_HEADER_SIZE - UDP_TUNNEL_HEADER_SIZE,
      wg_tunnel_header_off =
        PAYLOAD_OFFSET_FOR_NIC_PACKET - PEER_MANAGER_HEADER_SIZE - WG_TUNNEL_HEADER_SIZE,
      dummy_tunnel_header_off = PAYLOAD_OFFSET_FOR_NIC_PACKET - PEER_MANAGER_HEADER_SIZE\<rparr>"
| "get_packet_offsets DummyTunnel =
     \<lparr>payload_off = PEER_MANAGER_HEADER_SIZE,
      peer_manager_header_off = 0,
      tcp_tunnel_header_off = get_converted_offset 0 TCP_TUNNEL_HEADER_SIZE,
      udp_tunnel_header_off = get_converted_offset 0 UDP_TUNNEL_HEADER_SIZE,
      wg_tunnel_header_off = get_converted_offset 0 WG_TUNNEL_HEADER_SIZE,
      dummy_tunnel_header_off = 0\<rparr>"

lemmas offset_defs = size_defs PAYLOAD_OFFSET_FOR_NIC_PACKET_def get_converted_offset_def
  INVALID_OFFSET_def

section \<open>ZCPacket\<close>

record zc_packet =
  inner :: bytes
  zc_type :: zc_packet_type
  zc_flow_key :: "flow_key option"

abbreviation offsets_of :: "zc_packet \<Rightarrow> zc_packet_offsets" where
  "offsets_of p \<equiv> get_packet_offsets (zc_type p)"

definition bytes_from_offset :: "nat \<Rightarrow> zc_packet \<Rightarrow> bytes option" where
  "bytes_from_offset off p = slice_from off (inner p)"

definition new_nic_packet :: zc_packet where
  "new_nic_packet = \<lparr>inner = [], zc_type = NIC, zc_flow_key = None\<rparr>"

definition new_from_buf :: "bytes \<Rightarrow> zc_packet_type \<Rightarrow> zc_packet" where
  "new_from_buf buf t = \<lparr>inner = buf, zc_type = t, zc_flow_key = None\<rparr>"

text \<open>\<^verbatim>\<open>reserve(n)\<close>, then \<^verbatim>\<open>set_len(n)\<close>, on an empty buffer: \<open>n\<close> bytes of unspecified contents.\<close>

definition set_len :: "(nat \<Rightarrow> u8) \<Rightarrow> nat \<Rightarrow> bytes" where
  "set_len junk n = map junk [0..<n]"

definition payload_offset :: "zc_packet \<Rightarrow> nat" where
  "payload_offset p = payload_off (offsets_of p)"

definition payload :: "zc_packet \<Rightarrow> bytes option" where
  "payload p = slice_from (payload_offset p) (inner p)"

text \<open>\<^verbatim>\<open>mut_payload()[a..b].copy_from_slice(src)\<close>.\<close>

definition copy_to_payload :: "nat \<Rightarrow> nat \<Rightarrow> bytes \<Rightarrow> zc_packet \<Rightarrow> zc_packet option" where
  "copy_to_payload a b src p = do {
     pl \<leftarrow> payload p;
     pl' \<leftarrow> slice_copy a b src pl;
     Some (p\<lparr>inner := take (payload_offset p) (inner p) @ pl'\<rparr>) }"

definition payload_bytes :: "zc_packet \<Rightarrow> bytes option" where
  "payload_bytes p = slice_from (payload_offset p) (inner p)"

definition payload_len :: "zc_packet \<Rightarrow> u64" where
  "payload_len p = word_of_nat (length (inner p)) - word_of_nat (payload_offset p)"

definition buf_len :: "zc_packet \<Rightarrow> nat" where
  "buf_len p = length (inner p)"

definition peer_manager_header :: "zc_packet \<Rightarrow> pm_header option" where
  "peer_manager_header p = do {
     bs \<leftarrow> bytes_from_offset (peer_manager_header_off (offsets_of p)) p;
     pm_header_of_prefix bs }"

text \<open>
  \<^verbatim>\<open>mut_peer_manager_header\<close> hands out a reference into the buffer: here the caller's change \<open>f\<close> is
  applied to the header and written back.
\<close>

definition mut_peer_manager_header ::
  "(pm_header \<Rightarrow> pm_header) \<Rightarrow> zc_packet \<Rightarrow> zc_packet option" where
  "mut_peer_manager_header f p = (let off = peer_manager_header_off (offsets_of p) in do {
     bs \<leftarrow> bytes_from_offset off p;
     h \<leftarrow> pm_header_of_prefix bs;
     buf \<leftarrow> slice_copy off (off + PEER_MANAGER_HEADER_SIZE) (pm_header_bytes (f h)) (inner p);
     Some (p\<lparr>inner := buf\<rparr>) })"

definition mut_tcp_tunnel_header :: "(u32 \<Rightarrow> u32) \<Rightarrow> zc_packet \<Rightarrow> zc_packet option" where
  "mut_tcp_tunnel_header f p = (let off = tcp_tunnel_header_off (offsets_of p) in do {
     bs \<leftarrow> bytes_from_offset off p;
     if length bs < TCP_TUNNEL_HEADER_SIZE then None
     else do {
       buf \<leftarrow> slice_copy off (off + TCP_TUNNEL_HEADER_SIZE)
                (u32_le (f (u32_of_le (take 4 bs)))) (inner p);
       Some (p\<lparr>inner := buf\<rparr>) } })"

definition mut_udp_tunnel_header ::
  "(udp_header \<Rightarrow> udp_header) \<Rightarrow> zc_packet \<Rightarrow> zc_packet option" where
  "mut_udp_tunnel_header f p = (let off = udp_tunnel_header_off (offsets_of p) in do {
     bs \<leftarrow> bytes_from_offset off p;
     h \<leftarrow> udp_header_of_prefix bs;
     buf \<leftarrow> slice_copy off (off + UDP_TUNNEL_HEADER_SIZE) (udp_header_bytes (f h)) (inner p);
     Some (p\<lparr>inner := buf\<rparr>) })"

definition udp_tunnel_header :: "zc_packet \<Rightarrow> udp_header option" where
  "udp_tunnel_header p = do {
     bs \<leftarrow> bytes_from_offset (udp_tunnel_header_off (offsets_of p)) p;
     udp_header_of_prefix bs }"

definition udp_payload :: "zc_packet \<Rightarrow> bytes option" where
  "udp_payload p =
     slice_from ((udp_tunnel_header_off (offsets_of p) + UDP_TUNNEL_HEADER_SIZE) mod 2 ^ 64) (inner p)"

definition fill_peer_manager_hdr :: "u32 \<Rightarrow> u32 \<Rightarrow> u8 \<Rightarrow> zc_packet \<Rightarrow> zc_packet option" where
  "fill_peer_manager_hdr from to ty p =
     mut_peer_manager_header (\<lambda>h. \<lparr>from_peer_id = from, to_peer_id = to, packet_type = ty, flags = 0,
       forward_counter = 1, reserved = 0, pm_len = ucast (payload_len p)\<rparr>) p"

definition tunnel_payload :: "zc_packet \<Rightarrow> bytes option" where
  "tunnel_payload p = slice_from (peer_manager_header_off (offsets_of p)) (inner p)"

definition new_with_payload :: "(nat \<Rightarrow> u8) \<Rightarrow> bytes \<Rightarrow> zc_packet option" where
  "new_with_payload junk pl =
     (let ret = new_nic_packet; total_len = payload_offset ret + length pl
      in copy_to_payload 0 (length pl) pl (ret\<lparr>inner := set_len junk total_len\<rparr>))"

text \<open>
  \<^verbatim>\<open>payload_offset - packet_info_len\<close> underflows when the packet information is longer than the
  header room, and \<^verbatim>\<open>set_len\<close> requires the length to fit the capacity: outside that contract the model
  has no packet.
\<close>

definition new_for_tun :: "(nat \<Rightarrow> u8) \<Rightarrow> nat \<Rightarrow> nat \<Rightarrow> zc_packet option" where
  "new_for_tun junk cap packet_info_len =
     (let ret = new_nic_packet
      in if packet_info_len \<le> payload_offset ret \<and> payload_offset ret - packet_info_len \<le> cap
         then Some (ret\<lparr>inner := set_len junk (payload_offset ret - packet_info_len)\<rparr>) else None)"

definition new_for_foreign_network ::
  "(nat \<Rightarrow> u8) \<Rightarrow> bytes \<Rightarrow> u32 \<Rightarrow> zc_packet \<Rightarrow> zc_packet option" where
  "new_for_foreign_network junk name dst foreign =
     (let hdr = foreign_header_new dst name in do {
        tp \<leftarrow> tunnel_payload foreign;
        let total = get_header_len hdr + length tp;
        let ret = new_nic_packet;
        let ret = ret\<lparr>inner := set_len junk (payload_offset ret + total)\<rparr>;
        ret \<leftarrow> copy_to_payload 0 FOREIGN_HEADER_SIZE (foreign_header_bytes hdr) ret;
        let name_off = unat (network_name_offset hdr);
        let name_len = unat (network_name_len hdr);
        ret \<leftarrow> copy_to_payload name_off (name_off + name_len) name ret;
        ret \<leftarrow> copy_to_payload (get_header_len hdr) total tp ret;
        ret \<leftarrow> fill_peer_manager_hdr 0 0 (packet_kind_u8 Pkt_ForeignNetworkPacket) ret;
        Some (ret\<lparr>zc_flow_key := zc_flow_key foreign\<rparr>) })"

fun converted_offset :: "zc_packet_type \<Rightarrow> zc_packet_offsets \<Rightarrow> nat option" where
  "converted_offset TCP o' = Some (tcp_tunnel_header_off o')"
| "converted_offset UDP o' = Some (udp_tunnel_header_off o')"
| "converted_offset WG o' = Some (wg_tunnel_header_off o')"
| "converted_offset DummyTunnel o' = Some (dummy_tunnel_header_off o')"
| "converted_offset NIC o' = None"

definition convert_type :: "(nat \<Rightarrow> u8) \<Rightarrow> zc_packet_type \<Rightarrow> zc_packet \<Rightarrow> zc_packet option" where
  "convert_type junk target p =
     (if target = zc_type p then Some p
      else do {
        new_offset \<leftarrow> converted_offset target (offsets_of p);
        if new_offset = INVALID_OFFSET then do {
          tp \<leftarrow> tunnel_payload p;
          let new_pm_offset = peer_manager_header_off (get_packet_offsets target);
          Some ((new_from_buf (set_len junk new_pm_offset @ tp) target)\<lparr>zc_flow_key := zc_flow_key p\<rparr>) }
        else do {
          buf \<leftarrow> slice_from new_offset (inner p);
          Some (p\<lparr>inner := buf, zc_type := target\<rparr>) } })"

definition is_lossy :: "zc_packet \<Rightarrow> bool" where
  "is_lossy p = (case peer_manager_header p of
     Some hdr \<Rightarrow> packet_type hdr = packet_kind_u8 Pkt_Data | None \<Rightarrow> False)"

text \<open>The outer option is the panic of \<^verbatim>\<open>unwrap\<close> or of the slice in \<^verbatim>\<open>payload\<close>.\<close>

definition foreign_network_hdr :: "zc_packet \<Rightarrow> foreign_network_packet_header option option" where
  "foreign_network_hdr p = do {
     hdr \<leftarrow> peer_manager_header p;
     if packet_type hdr = packet_kind_u8 Pkt_ForeignNetworkPacket
     then do { pl \<leftarrow> payload p; Some (foreign_header_of_prefix pl) }
     else Some None }"

definition foreign_network_inner_packet_info ::
  "zc_packet \<Rightarrow> (pm_header \<times> nat) option" where
  "foreign_network_inner_packet_info p = do {
     hdr \<leftarrow> peer_manager_header p;
     if packet_type hdr \<noteq> packet_kind_u8 Pkt_ForeignNetworkPacket then None
     else do {
       pl \<leftarrow> payload p;
       fh \<leftarrow> foreign_header_of_prefix pl;
       inner_packet \<leftarrow> slice_from (get_header_len fh) pl;
       ih \<leftarrow> pm_header_of_prefix inner_packet;
       Some (ih, length inner_packet - PEER_MANAGER_HEADER_SIZE) } }"

definition foreign_network_inner_packet_type :: "zc_packet \<Rightarrow> u8 option" where
  "foreign_network_inner_packet_type p =
     map_option (\<lambda>(hdr, _). packet_type hdr) (foreign_network_inner_packet_info p)"

definition foreign_network_packet :: "zc_packet \<Rightarrow> zc_packet option" where
  "foreign_network_packet p = do {
     fh \<leftarrow> foreign_network_hdr p;
     hdr \<leftarrow> fh;
     buf \<leftarrow> slice_from (get_header_len hdr + payload_offset p) (inner p);
     Some ((new_from_buf buf DummyTunnel)\<lparr>zc_flow_key := zc_flow_key p\<rparr>) }"

definition get_src_peer_id :: "zc_packet \<Rightarrow> u32 option" where
  "get_src_peer_id p = map_option from_peer_id (peer_manager_header p)"

definition get_dst_peer_id :: "zc_packet \<Rightarrow> u32 option" where
  "get_dst_peer_id p = map_option to_peer_id (peer_manager_header p)"

section \<open>Flags\<close>

lemma flag_contains_exp:
  assumes "k < 8"
  shows "flag_contains fs (2 ^ k) = bit fs k"
proof
  assume "flag_contains fs (2 ^ k)"
  then have "bit (fs AND 2 ^ k) k = bit (2 ^ k :: u8) k" by (simp add: flag_contains_def)
  with assms show "bit fs k" by (simp add: bit_and_iff bit_exp_iff)
next
  assume "bit fs k"
  then show "flag_contains fs (2 ^ k)"
    unfolding flag_contains_def by (intro bit_eqI) (auto simp: bit_and_iff bit_exp_iff)
qed

lemma flag_exps:
  "ENCRYPTED = 2 ^ 0" "LATENCY_FIRST = 2 ^ 1" "EXIT_NODE = 2 ^ 2" "NO_PROXY = 2 ^ 3"
  "COMPRESSED = 2 ^ 4" "LIVENESS_PROBE = 2 ^ 5" "NOT_SEND_TO_TUN = 2 ^ 6" "LIVENESS_ECHO = 2 ^ 7"
  by (simp_all add: flag_defs)

lemma flag_put_bit: "k < 8 \<Longrightarrow> j < 8 \<Longrightarrow> bit (flag_put (2 ^ k) b fs) j = (if j = k then b else bit fs j)"
  by (auto simp: flag_put_def bit_simps)

lemma flag_contains_put:
  "k < 8 \<Longrightarrow> j < 8
   \<Longrightarrow> flag_contains (flag_put (2 ^ k) b fs) (2 ^ j) = (if j = k then b else flag_contains fs (2 ^ j))"
  by (simp add: flag_contains_exp flag_put_bit)

lemma flag_clear_two:
  "j < 8 \<Longrightarrow> flag_contains (flag_put (2 ^ a OR 2 ^ b) False fs) (2 ^ j) =
     (j \<noteq> a \<and> j \<noteq> b \<and> flag_contains fs (2 ^ j))"
  unfolding flag_contains_exp
  by (auto simp: flag_put_def bit_or_iff bit_and_iff bit_not_iff bit_exp_iff)

lemma flag_put_idem [simp]: "flag_put f b (flag_put f b fs) = flag_put f b fs"
  by (auto simp: flag_put_def bit_eq_iff bit_simps)

lemma flag_put_remove_insert:
  "\<not> flag_contains fs (2 ^ k) \<Longrightarrow> k < 8 \<Longrightarrow> flag_put (2 ^ k) False (flag_put (2 ^ k) True fs) = fs"
  by (rule bit_eqI) (auto simp: flag_put_bit flag_contains_exp)

section \<open>The layout of a packet\<close>

text \<open>
  A packet with a header is a prefix of tunnel bytes, the sixteen header bytes and the payload. Every
  accessor is described on this form.
\<close>

definition packet_layout :: "zc_packet \<Rightarrow> bytes \<Rightarrow> pm_header \<Rightarrow> bytes \<Rightarrow> bool" where
  "packet_layout p pre h pl \<longleftrightarrow>
     inner p = pre @ pm_header_bytes h @ pl \<and> length pre = peer_manager_header_off (offsets_of p)"

lemma payload_off_eq:
  "payload_off (get_packet_offsets t) =
     peer_manager_header_off (get_packet_offsets t) + PEER_MANAGER_HEADER_SIZE"
  by (cases t) (simp_all add: offset_defs)

lemma peer_manager_header_layout:
  "peer_manager_header p = Some h \<longleftrightarrow> (\<exists>pre pl. packet_layout p pre h pl)"
proof
  assume "peer_manager_header p = Some h"
  then obtain off where off: "off = peer_manager_header_off (offsets_of p)" "off \<le> length (inner p)"
    and h: "pm_header_of_prefix (drop off (inner p)) = Some h"
    by (auto simp: peer_manager_header_def bytes_from_offset_def slice_from_def
        split: if_splits bind_splits)
  have "inner p = take off (inner p) @ pm_header_bytes h
      @ drop PEER_MANAGER_HEADER_SIZE (drop off (inner p))"
    using pm_header_bytes_of_prefix [OF h] by (metis append_take_drop_id)
  then show "\<exists>pre pl. packet_layout p pre h pl"
    unfolding packet_layout_def using off by (metis length_take min.absorb2)
next
  assume "\<exists>pre pl. packet_layout p pre h pl"
  then show "peer_manager_header p = Some h"
    by (auto simp: packet_layout_def peer_manager_header_def bytes_from_offset_def slice_from_def)
qed

lemma layout_header: "packet_layout p pre h pl \<Longrightarrow> peer_manager_header p = Some h"
  using peer_manager_header_layout by blast

lemma layout_payload: "packet_layout p pre h pl \<Longrightarrow> payload p = Some pl"
  by (auto simp: packet_layout_def payload_def payload_offset_def payload_off_eq slice_from_def)

lemma layout_tunnel_payload:
  "packet_layout p pre h pl \<Longrightarrow> tunnel_payload p = Some (pm_header_bytes h @ pl)"
  by (auto simp: packet_layout_def tunnel_payload_def slice_from_def)

lemma layout_mut_header:
  "packet_layout p pre h pl \<Longrightarrow> mut_peer_manager_header f p = Some (p\<lparr>inner := pre @ pm_header_bytes (f h) @ pl\<rparr>)"
  by (auto simp: packet_layout_def mut_peer_manager_header_def bytes_from_offset_def slice_from_def
      slice_copy_def Let_def)

lemma layout_mut_layout:
  "packet_layout p pre h pl \<Longrightarrow> packet_layout (p\<lparr>inner := pre @ pm_header_bytes h' @ pl'\<rparr>) pre h' pl'"
  by (simp add: packet_layout_def)

lemmas layout_accessors = layout_header layout_payload layout_tunnel_payload layout_mut_header

text \<open>A packet that has a header also has a (possibly empty) payload: slicing it cannot panic.\<close>

lemma header_payload: "peer_manager_header p = Some h \<Longrightarrow> \<exists>pl. payload p = Some pl"
  using peer_manager_header_layout layout_payload by blast

lemma length_set_len [simp]: "length (set_len junk n) = n"
  by (simp add: set_len_def)

lemma length_split: "length xs = a + b \<Longrightarrow> \<exists>ys zs. xs = ys @ zs \<and> length ys = a \<and> length zs = b"
  by (intro exI [of _ "take a xs"] exI [of _ "drop a xs"]) simp

lemma copy_to_payload_shape:
  assumes "inner p = pre @ a @ m @ c" "length pre = payload_offset p" "length m = length src"
    and "i = length a" "j = length a + length src"
  shows "copy_to_payload i j src p = Some (p\<lparr>inner := pre @ a @ src @ c\<rparr>)"
  using assms by (simp add: copy_to_payload_def payload_def slice_from_def slice_copy_def)

text \<open>Any sixteen bytes at the header position are a header: the layout exists once there is room.\<close>

lemma layout_of_room:
  assumes "length pre = peer_manager_header_off (offsets_of p)" "length hb = PEER_MANAGER_HEADER_SIZE"
    and "inner p = pre @ hb @ pl"
  shows "\<exists>h. packet_layout p pre h pl"
proof -
  obtain h where h: "pm_header_of_prefix (hb @ []) = Some h"
    using assms(2) by (simp add: pm_header_of_prefix_def)
  with pm_header_bytes_of_prefix [OF h] assms show ?thesis
    by (auto simp: packet_layout_def intro!: exI [of _ h])
qed

definition filled_header :: "u32 \<Rightarrow> u32 \<Rightarrow> u8 \<Rightarrow> nat \<Rightarrow> pm_header" where
  "filled_header from to ty n = \<lparr>from_peer_id = from, to_peer_id = to, packet_type = ty, flags = 0,
     forward_counter = 1, reserved = 0, pm_len = word_of_nat n\<rparr>"

lemma layout_payload_len: "packet_layout p pre h pl \<Longrightarrow> payload_len p = word_of_nat (length pl)"
  by (simp add: packet_layout_def payload_len_def payload_offset_def payload_off_eq)

lemma ucast_of_nat_u64: "(ucast (word_of_nat n :: u64) :: u32) = word_of_nat n"
  by (rule bit_eqI) (simp add: bit_simps)

lemma fill_layout:
  assumes "packet_layout p pre h pl"
  shows "fill_peer_manager_hdr from to ty p =
    Some (p\<lparr>inner := pre @ pm_header_bytes (filled_header from to ty (length pl)) @ pl\<rparr>)"
  using layout_mut_header [OF assms] layout_payload_len [OF assms]
  by (simp add: fill_peer_manager_hdr_def filled_header_def ucast_of_nat_u64)

lemma new_with_payload_eq:
  "new_with_payload junk pl = Some \<lparr>inner = set_len junk PAYLOAD_OFFSET_FOR_NIC_PACKET @ pl,
     zc_type = NIC, zc_flow_key = None\<rparr>"
proof -
  let ?o = PAYLOAD_OFFSET_FOR_NIC_PACKET
  define p where "p = new_nic_packet\<lparr>inner := set_len junk (?o + length pl)\<rparr>"
  define m where "m = map junk [?o..<?o + length pl]"
  have m: "inner p = set_len junk ?o @ [] @ m @ []" and len: "length m = length pl"
    using upt_add_eq_append [of 0 ?o "length pl"] by (simp_all add: p_def m_def set_len_def)
  have "copy_to_payload 0 (length pl) pl p =
      Some (p\<lparr>inner := set_len junk PAYLOAD_OFFSET_FOR_NIC_PACKET @ [] @ pl @ []\<rparr>)"
    using m len by (intro copy_to_payload_shape [where m = m])
      (simp_all add: p_def payload_offset_def new_nic_packet_def)
  then show ?thesis
    by (simp add: new_with_payload_def p_def payload_offset_def new_nic_packet_def Let_def)
qed

lemma foreign_header_new_fields:
  assumes "length name + FOREIGN_HEADER_SIZE < 2 ^ 16"
  shows "unat (network_name_len (foreign_header_new dst name)) = length name"
    and "unat (network_name_offset (foreign_header_new dst name)) = FOREIGN_HEADER_SIZE"
    and "get_header_len (foreign_header_new dst name) = FOREIGN_HEADER_SIZE + length name"
    and "get_dst_peer_id_foreign (foreign_header_new dst name) = dst"
  using assms by (simp_all add: foreign_header_new_def get_header_len_def Let_def
      get_dst_peer_id_foreign_def FOREIGN_HEADER_SIZE_def unat_word_ariths unsigned_of_nat
      take_bit_eq_mod)

lemma new_for_foreign_network_eq:
  fixes dst :: u32
  assumes lay: "packet_layout p pre h pl" and len: "length name + FOREIGN_HEADER_SIZE < 2 ^ 16"
  defines "fh \<equiv> foreign_header_new dst name"
  defines "body \<equiv> foreign_header_bytes fh @ name @ pm_header_bytes h @ pl"
  shows "\<exists>pre'. length pre' = peer_manager_header_off (get_packet_offsets NIC) \<and>
    new_for_foreign_network junk name dst p = Some \<lparr>inner = pre' @
      pm_header_bytes (filled_header 0 0 (packet_kind_u8 Pkt_ForeignNetworkPacket) (length body)) @ body,
      zc_type = NIC, zc_flow_key = zc_flow_key p\<rparr>"
proof -
  let ?tp = "pm_header_bytes h @ pl" and ?ro = "peer_manager_header_off (get_packet_offsets NIC)"
  note fields = foreign_header_new_fields [OF len, of dst, folded fh_def]
  note hlen = fields(3)
  let ?n = "get_header_len fh + length ?tp"
  define q where "q = new_nic_packet\<lparr>inner := set_len junk (payload_offset new_nic_packet + ?n)\<rparr>"
  have q_eq: "new_nic_packet\<lparr>inner := set_len junk (payload_offset new_nic_packet +
      (FOREIGN_HEADER_SIZE + length name + (PEER_MANAGER_HEADER_SIZE + length pl)))\<rparr> = q"
    using hlen by (simp add: q_def)
  have po: "payload_offset q = ?ro + PEER_MANAGER_HEADER_SIZE"
    by (simp add: q_def payload_offset_def payload_off_eq new_nic_packet_def del: get_packet_offsets.simps)
  have "length (inner q) = (?ro + PEER_MANAGER_HEADER_SIZE) + (FOREIGN_HEADER_SIZE + (length name + length ?tp))"
    using hlen by (simp add: q_def payload_offset_def payload_off_eq new_nic_packet_def del: get_packet_offsets.simps)
  then obtain r b a m c where q: "inner q = (r @ b) @ a @ m @ c" "length r = ?ro"
    "length b = PEER_MANAGER_HEADER_SIZE" "length a = FOREIGN_HEADER_SIZE" "length m = length name"
    "length c = length ?tp"
    by (metis length_split)
  let ?q1 = "q\<lparr>inner := (r @ b) @ [] @ foreign_header_bytes fh @ m @ c\<rparr>"
  let ?q2 = "q\<lparr>inner := (r @ b) @ foreign_header_bytes fh @ name @ c\<rparr>"
  let ?q3 = "q\<lparr>inner := (r @ b) @ (foreign_header_bytes fh @ name) @ ?tp @ []\<rparr>"
  have c1: "copy_to_payload 0 FOREIGN_HEADER_SIZE (foreign_header_bytes fh) q = Some ?q1"
    using q po by (intro copy_to_payload_shape [where m = a]) simp_all
  have "copy_to_payload FOREIGN_HEADER_SIZE (FOREIGN_HEADER_SIZE + length name) name ?q1 =
      Some (?q1\<lparr>inner := (r @ b) @ foreign_header_bytes fh @ name @ c\<rparr>)"
    using q po by (intro copy_to_payload_shape [where m = m]) (simp_all add: payload_offset_def)
  then have c2: "copy_to_payload FOREIGN_HEADER_SIZE (FOREIGN_HEADER_SIZE + length name) name ?q1 = Some ?q2"
    by simp
  have "copy_to_payload (get_header_len fh) ?n ?tp ?q2 =
      Some (?q2\<lparr>inner := (r @ b) @ (foreign_header_bytes fh @ name) @ ?tp @ []\<rparr>)"
    using q po hlen by (intro copy_to_payload_shape [where m = c]) (simp_all add: payload_offset_def)
  then have c3: "copy_to_payload (get_header_len fh) ?n ?tp ?q2 = Some ?q3" by simp
  obtain h' where "packet_layout ?q3 r h' body"
    using layout_of_room [of r ?q3 b body] q
    by (auto simp: q_def new_nic_packet_def body_def simp del: get_packet_offsets.simps)
  note c4 = fill_layout [OF this, of 0 0 "packet_kind_u8 Pkt_ForeignNetworkPacket"]
  have "new_for_foreign_network junk name dst p = Some (?q3\<lparr>inner := r @
      pm_header_bytes (filled_header 0 0 (packet_kind_u8 Pkt_ForeignNetworkPacket) (length body)) @ body,
      zc_flow_key := zc_flow_key p\<rparr>)"
    using c1 c2 c3 c4 layout_tunnel_payload [OF lay] fields
    by (simp add: new_for_foreign_network_def fh_def [symmetric] q_eq Let_def)
  then show ?thesis using q by (auto simp: q_def new_nic_packet_def)
qed

section \<open>Properties\<close>

lemma converted_offset_cases:
  assumes "target \<noteq> NIC" "target \<noteq> t" "converted_offset target (get_packet_offsets t) = Some off"
  shows "(off = INVALID_OFFSET \<or>
     off + peer_manager_header_off (get_packet_offsets target) = peer_manager_header_off (get_packet_offsets t))"
  using assms by (cases target; cases t) (simp_all add: offset_defs)

lemma convert_type_layout:
  assumes lay: "packet_layout p pre h pl" and t: "target \<noteq> NIC"
  shows "\<exists>q pre'. convert_type junk target p = Some q \<and> packet_layout q pre' h pl \<and> zc_type q = target
    \<and> zc_flow_key q = zc_flow_key p"
proof (cases "target = zc_type p")
  case True
  with lay show ?thesis by (auto simp: convert_type_def)
next
  case False
  obtain off where off: "converted_offset target (offsets_of p) = Some off"
    using t by (cases target) auto
  show ?thesis
  proof (cases "off = INVALID_OFFSET")
    case True
    with off False layout_tunnel_payload [OF lay] show ?thesis
      by (auto simp: convert_type_def packet_layout_def new_from_buf_def Let_def)
  next
    case fits: False
    with converted_offset_cases [OF t False off] have
      eq: "off + peer_manager_header_off (get_packet_offsets target) = length pre"
      using lay by (simp add: packet_layout_def)
    then have "off \<le> length pre" by simp
    with off False fits lay eq show ?thesis
      by (auto simp: convert_type_def packet_layout_def slice_from_def)
  qed
qed

text \<open>
  Converting a packet to any tunnel type keeps the peer manager header, the payload and the flow
  key, whether the header room is reused or the packet is copied to a new buffer, and never panics on
  a packet that has a header. What the uninitialised header room holds does not matter.
\<close>

theorem convert_type_preserves:
  assumes "peer_manager_header p = Some h" "payload p = Some pl" "target \<noteq> NIC"
  shows "\<exists>q. convert_type junk target p = Some q \<and> zc_type q = target
    \<and> peer_manager_header q = Some h \<and> payload q = Some pl
    \<and> tunnel_payload q = tunnel_payload p \<and> zc_flow_key q = zc_flow_key p"
proof -
  obtain pre pl' where lay: "packet_layout p pre h pl'"
    using assms(1) peer_manager_header_layout by blast
  with assms(2) have "pl' = pl" using layout_payload by force
  with convert_type_layout [OF lay assms(3), of junk] lay show ?thesis
    by (metis layout_header layout_payload layout_tunnel_payload)
qed

definition sample_header :: pm_header where
  "sample_header = filled_header 1 2 (packet_kind_u8 Pkt_Data) 3"

definition sample_packet :: zc_packet where
  "sample_packet = new_from_buf (pm_header_bytes sample_header @ [7, 8, 9]) DummyTunnel"

lemma sample_layout: "packet_layout sample_packet [] sample_header [7, 8, 9]"
  by (simp add: packet_layout_def sample_packet_def new_from_buf_def)

theorem convert_type_preserves_witness:
  "\<exists>q. convert_type (\<lambda>_. 0) UDP sample_packet = Some q \<and> zc_type q = UDP
    \<and> peer_manager_header q = Some sample_header \<and> payload q = Some [7, 8, 9]
    \<and> tunnel_payload q = tunnel_payload sample_packet \<and> zc_flow_key q = zc_flow_key sample_packet"
  by (rule convert_type_preserves)
    (simp_all add: layout_header [OF sample_layout] layout_payload [OF sample_layout])

text \<open>
  Encapsulating a packet for a foreign network and unpacking it gives back the encapsulated
  packet: the receiver reads the destination peer, the network name and the inner header from the
  outer packet, and the unpacked packet has the header, payload and flow key of the original one. The
  name and the fixed header must fit the 16-bit header length.
\<close>

theorem foreign_network_roundtrip:
  assumes p: "peer_manager_header p = Some h" "payload p = Some pl"
    and len: "length name + FOREIGN_HEADER_SIZE < 2 ^ 16" and utf8: "utf8_valid name"
  shows "\<exists>q fh body r. new_for_foreign_network junk name dst p = Some q
    \<and> foreign_network_hdr q = Some (Some fh) \<and> get_dst_peer_id_foreign fh = dst
    \<and> payload q = Some body \<and> get_network_name fh body = Some name
    \<and> foreign_network_inner_packet_info q = Some (h, length pl)
    \<and> foreign_network_packet q = Some r \<and> zc_flow_key r = zc_flow_key p
    \<and> peer_manager_header r = Some h \<and> payload r = Some pl \<and> tunnel_payload r = tunnel_payload p"
proof -
  obtain pre where lay: "packet_layout p pre h pl"
    using p peer_manager_header_layout layout_payload by (metis option.inject)
  let ?fh = "foreign_header_new dst name"
  let ?body = "foreign_header_bytes ?fh @ name @ pm_header_bytes h @ pl"
  let ?oh = "filled_header 0 0 (packet_kind_u8 Pkt_ForeignNetworkPacket) (length ?body)"
  obtain pre' q where q: "new_for_foreign_network junk name dst p = Some q"
    and qeq: "q = \<lparr>inner = pre' @ pm_header_bytes ?oh @ ?body, zc_type = NIC, zc_flow_key = zc_flow_key p\<rparr>"
    and lenp: "length pre' = peer_manager_header_off (get_packet_offsets NIC)"
    using new_for_foreign_network_eq [OF lay len, of junk dst] by blast
  have ql: "packet_layout q pre' ?oh ?body"
    using lenp by (simp add: qeq packet_layout_def del: get_packet_offsets.simps)
  note fields = foreign_header_new_fields [OF len, of dst]
  have fhdr: "foreign_network_hdr q = Some (Some ?fh)"
    using layout_header [OF ql] layout_payload [OF ql]
    by (simp add: foreign_network_hdr_def filled_header_def)
  have name: "get_network_name ?fh ?body = Some name"
    using fields utf8 by (simp add: get_network_name_def slice_def Let_def)
  have info: "foreign_network_inner_packet_info q = Some (h, length pl)"
    using layout_header [OF ql] layout_payload [OF ql] fields
    by (simp add: foreign_network_inner_packet_info_def filled_header_def slice_from_def)
  have po: "payload_offset q = length pre' + PEER_MANAGER_HEADER_SIZE"
    using lenp by (simp add: qeq payload_offset_def payload_off_eq del: get_packet_offsets.simps)
  let ?r = "(new_from_buf (pm_header_bytes h @ pl) DummyTunnel)\<lparr>zc_flow_key := zc_flow_key p\<rparr>"
  have r: "foreign_network_packet q = Some ?r"
    using fhdr po fields by (simp add: foreign_network_packet_def slice_from_def qeq)
  have "packet_layout ?r [] h pl" by (simp add: packet_layout_def new_from_buf_def)
  with q fhdr name info r fields layout_payload [OF ql] layout_tunnel_payload [OF lay] show ?thesis
    by (intro exI [of _ q] exI [of _ ?fh] exI [of _ ?body] exI [of _ ?r])
      (simp add: layout_header layout_payload layout_tunnel_payload new_from_buf_def)
qed

theorem foreign_network_roundtrip_witness:
  "\<exists>q fh body r. new_for_foreign_network (\<lambda>_. 0) [110, 101, 116] 5 sample_packet = Some q
    \<and> foreign_network_hdr q = Some (Some fh) \<and> get_dst_peer_id_foreign fh = 5
    \<and> payload q = Some body \<and> get_network_name fh body = Some [110, 101, 116]
    \<and> foreign_network_inner_packet_info q = Some (sample_header, length [7, 8, 9 :: u8])
    \<and> foreign_network_packet q = Some r \<and> zc_flow_key r = zc_flow_key sample_packet
    \<and> peer_manager_header r = Some sample_header \<and> payload r = Some [7, 8, 9]
    \<and> tunnel_payload r = tunnel_payload sample_packet"
  by (rule foreign_network_roundtrip)
    (simp_all add: layout_header [OF sample_layout] layout_payload [OF sample_layout]
      FOREIGN_HEADER_SIZE_def)

text \<open>
  A packet built from a payload and then given its header reads back that header and payload, with
  clear flags, hop counter one and the payload length recorded, whatever the fresh buffer held.
\<close>

theorem new_with_payload_fill:
  "\<exists>p q. new_with_payload junk pl = Some p \<and> fill_peer_manager_hdr from to ty p = Some q
    \<and> payload q = Some pl
    \<and> peer_manager_header q = Some \<lparr>from_peer_id = from, to_peer_id = to, packet_type = ty,
        flags = 0, forward_counter = 1, reserved = 0, pm_len = word_of_nat (length pl)\<rparr>
    \<and> get_src_peer_id q = Some from \<and> get_dst_peer_id q = Some to"
proof -
  let ?ro = "peer_manager_header_off (get_packet_offsets NIC)"
  define p where "p = \<lparr>inner = set_len junk PAYLOAD_OFFSET_FOR_NIC_PACKET @ pl, zc_type = NIC,
     zc_flow_key = None\<rparr>"
  have p: "new_with_payload junk pl = Some p" by (simp add: new_with_payload_eq p_def)
  have "length (set_len junk PAYLOAD_OFFSET_FOR_NIC_PACKET) = ?ro + PEER_MANAGER_HEADER_SIZE"
    by (simp add: offset_defs)
  then obtain r b where "set_len junk PAYLOAD_OFFSET_FOR_NIC_PACKET = r @ b" "length r = ?ro"
    "length b = PEER_MANAGER_HEADER_SIZE"
    by (metis length_split)
  then obtain h where "packet_layout p r h pl"
    using layout_of_room [of r p b pl] by (auto simp: p_def)
  then have q: "fill_peer_manager_hdr from to ty p =
      Some (p\<lparr>inner := r @ pm_header_bytes (filled_header from to ty (length pl)) @ pl\<rparr>)"
    and ql: "packet_layout (p\<lparr>inner := r @ pm_header_bytes (filled_header from to ty (length pl)) @ pl\<rparr>)
      r (filled_header from to ty (length pl)) pl"
    by (rule fill_layout, rule layout_mut_layout)
  show ?thesis
    using p q layout_header [OF ql] layout_payload [OF ql]
    by (auto simp: filled_header_def get_src_peer_id_def get_dst_peer_id_def)
qed

text \<open>
  The liveness markers exclude each other and leave the rest of the header alone: after setting a
  probe token the header carries that probe token and no echo token, after setting an echo token the
  reverse, after clearing neither, and the encryption, latency, exit-node, no-proxy, compression and
  not-to-TUN flags are as before.
\<close>

theorem liveness_markers_exclusive:
  "liveness_probe_token (set_liveness_probe t h) = Some t \<and> liveness_echo_token (set_liveness_probe t h) = None
   \<and> liveness_echo_token (set_liveness_echo t h) = Some t \<and> liveness_probe_token (set_liveness_echo t h) = None
   \<and> liveness_probe_token (clear_liveness_marker h) = None \<and> liveness_echo_token (clear_liveness_marker h) = None
   \<and> (let others = (\<lambda>h. (is_encrypted h, is_latency_first h, is_exit_node h, is_no_proxy h,
          is_compressed h, is_not_send_to_tun h))
      in others (set_liveness_probe t h) = others h \<and> others (set_liveness_echo t h) = others h
         \<and> others (clear_liveness_marker h) = others h)"
  unfolding liveness_probe_token_def liveness_echo_token_def set_liveness_probe_def set_liveness_echo_def
    set_liveness_marker_def clear_liveness_marker_def is_encrypted_def is_latency_first_def
    is_exit_node_def is_no_proxy_def is_compressed_def is_not_send_to_tun_def Let_def flag_exps
  by (simp add: flag_contains_put flag_clear_two del: power_0 power_one_right power_numeral One_nat_def)

end
