(* ===== verification/IpPacket.thy ===== *)
theory IpPacket
  imports Packet
begin

text \<open>
  IP and transport header parsing: \<^verbatim>\<open>easytier-core/src/packet/ip.rs\<close> and the flow key of
  \<^verbatim>\<open>packet/flow.rs\<close>. Indexing of the IPv6 walk is checked: an index out of range is the outer
  \<^const>\<open>None\<close>, which the parser is shown never to return.
\<close>

section \<open>Parsing\<close>

definition IP_PROTO_ICMP :: u8 where "IP_PROTO_ICMP = 1"
definition IP_PROTO_TCP :: u8 where "IP_PROTO_TCP = 6"
definition IP_PROTO_UDP :: u8 where "IP_PROTO_UDP = 17"
definition IP_PROTO_ICMPV6 :: u8 where "IP_PROTO_ICMPV6 = 58"
definition IP_PROTO_UNSPECIFIED :: u8 where "IP_PROTO_UNSPECIFIED = 255"
definition IPV6_HOP_BY_HOP :: u8 where "IPV6_HOP_BY_HOP = 0"
definition IPV6_ROUTING :: u8 where "IPV6_ROUTING = 43"
definition IPV6_FRAGMENT :: u8 where "IPV6_FRAGMENT = 44"
definition IPV6_AUTHENTICATION :: u8 where "IPV6_AUTHENTICATION = 51"
definition IPV6_DESTINATION_OPTIONS :: u8 where "IPV6_DESTINATION_OPTIONS = 60"

lemmas ip_proto_defs = IP_PROTO_ICMP_def IP_PROTO_TCP_def IP_PROTO_UDP_def IP_PROTO_ICMPV6_def
  IP_PROTO_UNSPECIFIED_def IPV6_HOP_BY_HOP_def IPV6_ROUTING_def IPV6_FRAGMENT_def
  IPV6_AUTHENTICATION_def IPV6_DESTINATION_OPTIONS_def

record parsed_ip_packet =
  src_ip :: ip_addr
  dst_ip :: ip_addr
  ip_protocol :: u8
  transport_payload :: bytes
  is_non_initial_fragment :: bool
  is_fragment :: bool
  has_valid_length :: bool

definition u16_at :: "bytes \<Rightarrow> nat \<Rightarrow> u16" where
  "u16_at bs i = u16_of_be [bs ! i, bs ! Suc i]"

definition parse_ipv4_packet :: "bytes \<Rightarrow> parsed_ip_packet option" where
  "parse_ipv4_packet pl =
     (if length pl < 20 then None
      else
        let hdr_len = unat (pl ! 0 AND 0x0f) * 4;
            options_len = hdr_len - 20;
            payload_start = min (20 + options_len) (length pl);
            total_length = unat (u16_at pl 2);
            payload_end = min (payload_start + (total_length - hdr_len)) (length pl);
            frag = u16_at pl 6
        in do {
          tp \<leftarrow> slice payload_start payload_end pl;
          Some \<lparr>src_ip = V4 (u32_of_be (take 4 (drop 12 pl))), dst_ip = V4 (u32_of_be (take 4 (drop 16 pl))),
            ip_protocol = pl ! 9, transport_payload = tp,
            is_non_initial_fragment = (frag AND 0x1fff \<noteq> 0), is_fragment = (frag AND 0x3fff \<noteq> 0),
            has_valid_length = (20 \<le> hdr_len \<and> hdr_len \<le> total_length \<and> total_length \<le> length pl)\<rparr> })"

definition parse_transport_ports :: "u8 \<Rightarrow> bytes \<Rightarrow> (u16 option \<times> u16 option) option" where
  "parse_transport_ports protocol pl =
     (if protocol = IP_PROTO_TCP \<or> protocol = IP_PROTO_UDP then
        (if length pl < (if protocol = IP_PROTO_TCP then 20 else 8) then None
         else Some (Some (u16_at pl 0), Some (u16_at pl 2)))
      else Some (None, None))"

text \<open>
  The walk over the IPv6 extension headers: a panic, the early \<^verbatim>\<open>return Some(parsed)\<close>, or the
  protocol, offset and fragment flags at the \<^verbatim>\<open>break\<close>.
\<close>

datatype ipv6_walk = Walk_Panic | Walk_Parsed | Walk_Break u8 nat bool bool

definition ipv6_ext_len :: "u8 \<Rightarrow> u8 \<Rightarrow> nat" where
  "ipv6_ext_len protocol hl =
     (if protocol = IPV6_AUTHENTICATION then (unat hl + 2) * 4 else (unat hl + 1) * 8)"

function ipv6_walk_loop :: "bytes \<Rightarrow> nat \<Rightarrow> u8 \<Rightarrow> nat \<Rightarrow> bool \<Rightarrow> bool \<Rightarrow> bool \<Rightarrow> ipv6_walk" where
  "ipv6_walk_loop pl payload_end protocol off non_initial frag saw =
     (if protocol \<in> {IPV6_HOP_BY_HOP, IPV6_ROUTING, IPV6_DESTINATION_OPTIONS, IPV6_AUTHENTICATION} then
        case slice off payload_end pl of
          None \<Rightarrow> Walk_Panic
        | Some header \<Rightarrow>
            (case nth_opt header 1 of
               None \<Rightarrow> Walk_Parsed
             | Some hl \<Rightarrow>
                 let extension_end = off + ipv6_ext_len protocol hl
                 in if payload_end < extension_end then Walk_Parsed
                    else ipv6_walk_loop pl payload_end (header ! 0) extension_end non_initial frag saw)
      else if protocol = IPV6_FRAGMENT then
        if saw then Walk_Parsed
        else if payload_end < off + 8 then Walk_Parsed
        else case slice off (off + 8) pl of
          None \<Rightarrow> Walk_Panic
        | Some header \<Rightarrow>
            let fragment_field = u16_at header 2;
                non_initial' = (fragment_field AND 0xfff8 \<noteq> 0);
                frag' = (fragment_field AND 0xfff9 \<noteq> 0)
            in if non_initial' then
                 Walk_Break (if header ! 0 \<noteq> IP_PROTO_ICMPV6 then IP_PROTO_UNSPECIFIED else header ! 0)
                   (off + 8) non_initial' frag'
               else ipv6_walk_loop pl payload_end (header ! 0) (off + 8) non_initial' frag' True
      else Walk_Break protocol off non_initial frag)"
  by pat_completeness auto

lemma ipv6_ext_len_pos: "0 < ipv6_ext_len protocol hl"
  by (simp add: ipv6_ext_len_def)

termination ipv6_walk_loop
proof (relation "measure (\<lambda>(pl, e, _, off, _). e - off)", goal_cases)
  case 1
  then show ?case by simp
next
  case (2 pl e protocol off ni fr saw header hl x)
  then show ?case using ipv6_ext_len_pos [of protocol hl]
    by (auto simp: slice_def nth_opt_def split: if_splits)
next
  case (3 pl e protocol off ni fr saw header)
  then show ?case by auto
qed

declare ipv6_walk_loop.simps [simp del]

definition parse_ipv6_packet :: "bytes \<Rightarrow> parsed_ip_packet option option" where
  "parse_ipv6_packet pl =
     (if length pl < 40 then Some None
      else
        let plen = unat (u16_at pl 4);
            parsed = \<lparr>src_ip = V6 (word_of_nat (nat_of_be (take 16 (drop 8 pl)))),
              dst_ip = V6 (word_of_nat (nat_of_be (take 16 (drop 24 pl)))),
              ip_protocol = IP_PROTO_UNSPECIFIED, transport_payload = [],
              is_non_initial_fragment = False, is_fragment = False,
              has_valid_length = (40 + plen \<le> length pl)\<rparr>;
            payload_end = min (40 + plen) (length pl)
        in case ipv6_walk_loop pl payload_end (pl ! 6) 40 False False False of
             Walk_Panic \<Rightarrow> None
           | Walk_Parsed \<Rightarrow> Some (Some parsed)
           | Walk_Break protocol off non_initial frag \<Rightarrow>
               (case slice off payload_end pl of
                  None \<Rightarrow> None
                | Some tp \<Rightarrow>
                    if off \<noteq> 40 \<and> parse_transport_ports protocol tp = None then Some (Some parsed)
                    else Some (Some (parsed\<lparr>ip_protocol := protocol, transport_payload := tp,
                           is_non_initial_fragment := non_initial, is_fragment := frag\<rparr>))))"

definition parse_ip_packet :: "bytes \<Rightarrow> parsed_ip_packet option option" where
  "parse_ip_packet pl =
     (case pl of [] \<Rightarrow> Some None
      | b # _ \<Rightarrow>
          let version = drop_bit 4 b
          in if version = 4 then Some (parse_ipv4_packet pl)
             else if version = 6 then parse_ipv6_packet pl else Some None)"

definition parse_flow_key :: "zc_packet \<Rightarrow> flow_key option option" where
  "parse_flow_key p = do {
     pl \<leftarrow> payload p;
     r \<leftarrow> parse_ip_packet pl;
     Some (do {
       parsed \<leftarrow> r;
       if is_fragment parsed \<or> \<not> has_valid_length parsed then None
       else do {
         (src_port, dst_port) \<leftarrow> parse_transport_ports (ip_protocol parsed) (transport_payload parsed);
         sp \<leftarrow> src_port;
         dp \<leftarrow> dst_port;
         Some \<lparr>fk_src = \<lparr>sa_ip = src_ip parsed, sa_port = sp\<rparr>,
           fk_dst = \<lparr>sa_ip = dst_ip parsed, sa_port = dp\<rparr>, fk_protocol = ip_protocol parsed\<rparr> } }) }"

section \<open>The walk stays inside the packet\<close>

lemma ipv6_walk_inside:
  assumes "off \<le> e" "e \<le> length pl"
  shows "case ipv6_walk_loop pl e protocol off ni fr saw of
      Walk_Panic \<Rightarrow> False | Walk_Parsed \<Rightarrow> True | Walk_Break _ off' _ _ \<Rightarrow> off \<le> off' \<and> off' \<le> e"
  using assms
proof (induction pl e protocol off ni fr saw rule: ipv6_walk_loop.induct)
  case (1 pl e protocol off ni fr saw)
  consider (ext) "protocol \<in> {IPV6_HOP_BY_HOP, IPV6_ROUTING, IPV6_DESTINATION_OPTIONS, IPV6_AUTHENTICATION}"
    | (frag) "protocol = IPV6_FRAGMENT"
    | (other) "protocol \<notin> {IPV6_HOP_BY_HOP, IPV6_ROUTING, IPV6_DESTINATION_OPTIONS, IPV6_AUTHENTICATION,
        IPV6_FRAGMENT}"
    by blast
  then show ?case
  proof cases
    case ext
    obtain header where h: "slice off e pl = Some header" using 1(3,4) by (simp add: slice_def)
    show ?thesis
    proof (cases "nth_opt header 1")
      case None
      with ext h show ?thesis by (subst ipv6_walk_loop.simps) simp
    next
      case (Some hl)
      let ?e = "off + ipv6_ext_len protocol hl"
      show ?thesis
      proof (cases "e < ?e")
        case True
        with ext h Some show ?thesis by (subst ipv6_walk_loop.simps) (simp add: Let_def)
      next
        case False
        with 1(1) [OF ext h Some refl False] 1(4) ext h Some show ?thesis
          by (subst ipv6_walk_loop.simps) (auto simp: Let_def split: ipv6_walk.splits)
      qed
    qed
  next
    case frag
    then have ne: "protocol \<notin> {IPV6_HOP_BY_HOP, IPV6_ROUTING, IPV6_DESTINATION_OPTIONS, IPV6_AUTHENTICATION}"
      by (simp add: ip_proto_defs)
    show ?thesis
    proof (cases "saw \<or> e < off + 8")
      case True
      with frag ne show ?thesis by (subst ipv6_walk_loop.simps) auto
    next
      case False
      then obtain header where h: "slice off (off + 8) pl = Some header"
        using 1(4) by (simp add: slice_def)
      show ?thesis
      proof (cases "u16_at header 2 AND 0xfff8 \<noteq> 0")
        case True
        with False frag ne h show ?thesis by (subst ipv6_walk_loop.simps) (simp add: Let_def)
      next
        case nofrag: False
        with 1(2) [OF ne frag _ _ h refl refl refl] False 1(4) frag ne h show ?thesis
          by (subst ipv6_walk_loop.simps) (auto simp: Let_def split: ipv6_walk.splits)
      qed
    qed
  next
    case other
    with 1(3) show ?thesis by (subst ipv6_walk_loop.simps) simp
  qed
qed

lemma slice_infix: "slice a b xs = Some ys \<Longrightarrow> \<exists>pre post. xs = pre @ ys @ post"
  by (metis append_take_drop_id option.distinct(1) option.inject slice_def)

lemma infix_Nil [simp]: "\<exists>pre post. xs = pre @ post"
  by auto

lemma parse_ip_packet_inside:
  "\<exists>r. parse_ip_packet pl = Some r \<and>
     (case r of None \<Rightarrow> True | Some x \<Rightarrow> \<exists>pre post. pl = pre @ transport_payload x @ post)"
proof -
  have v4: "case parse_ipv4_packet pl of None \<Rightarrow> True | Some x \<Rightarrow> \<exists>pre post. pl = pre @ transport_payload x @ post"
    by (auto simp: parse_ipv4_packet_def Let_def split: option.splits bind_splits dest!: slice_infix)
  have "\<exists>r. parse_ipv6_packet pl = Some r \<and>
     (case r of None \<Rightarrow> True | Some x \<Rightarrow> \<exists>pre post. pl = pre @ transport_payload x @ post)"
  proof (cases "length pl < 40")
    case True
    then show ?thesis by (simp add: parse_ipv6_packet_def)
  next
    case False
    define e where "e = min (40 + unat (u16_at pl 4)) (length pl)"
    with False have "40 \<le> e" "e \<le> length pl" by auto
    note inside = ipv6_walk_inside [OF this, of "pl ! 6" False False False]
    show ?thesis
    proof (cases "ipv6_walk_loop pl e (pl ! 6) 40 False False False")
      case Walk_Panic
      with inside show ?thesis by simp
    next
      case Walk_Parsed
      with False show ?thesis by (simp add: parse_ipv6_packet_def Let_def e_def [symmetric])
    next
      case (Walk_Break protocol off ni fr)
      with inside \<open>e \<le> length pl\<close> obtain tp where tp: "slice off e pl = Some tp"
        by (simp add: slice_def)
      from slice_infix [OF tp] Walk_Break False tp show ?thesis
        by (simp add: parse_ipv6_packet_def Let_def e_def [symmetric])
    qed
  qed
  with v4 show ?thesis
    by (auto simp: parse_ip_packet_def Let_def split: list.splits)
qed


section \<open>Well-formed IPv4 packets\<close>

text \<open>
  The wire form of an IPv4 packet, written from its fields: \<open>ihl\<close> words of header with options,
  a total length that covers header and body, and the fragment word.
\<close>

definition ipv4_bytes :: "nat \<Rightarrow> u8 \<Rightarrow> u16 \<Rightarrow> u16 \<Rightarrow> u8 \<Rightarrow> u8 \<Rightarrow> u16 \<Rightarrow> u32 \<Rightarrow> u32 \<Rightarrow> bytes \<Rightarrow> bytes \<Rightarrow> bytes"
  where
  "ipv4_bytes ihl tos ident frag ttl protocol csum src dst opts body =
     [word_of_nat (64 + ihl), tos] @ nat_to_be 2 (ihl * 4 + length body) @ nat_to_be 2 (unat ident)
     @ nat_to_be 2 (unat frag) @ [ttl, protocol] @ nat_to_be 2 (unat csum) @ u32_be src @ u32_be dst
     @ opts @ body"

lemma nat_to_be_2: "nat_to_be 2 x = [word_of_nat (x div 256 mod 256), word_of_nat (x mod 256)]"
  by (simp add: nat_to_be_def numeral_2_eq_2)

lemma u16_of_be_pair:
  "x < 65536 \<Longrightarrow> u16_of_be [word_of_nat (x div 256), word_of_nat (x mod 256)] = word_of_nat x"
  using nat_of_to_be [of x 2] unfolding nat_to_be_2 by (simp add: u16_of_be_def)

lemma ipv4_version_ihl:
  assumes "5 \<le> ihl" "ihl \<le> 15"
  shows "drop_bit 4 (word_of_nat (64 + ihl) :: u8) = 4" "unat ((word_of_nat (64 + ihl) :: u8) AND 0x0f) = ihl"
proof -
  have "ihl \<in> {5, 6, 7, 8, 9, 10, 11, 12, 13, 14, 15}" using assms by simp arith
  then show "drop_bit 4 (word_of_nat (64 + ihl) :: u8) = 4" "unat ((word_of_nat (64 + ihl) :: u8) AND 0x0f) = ihl"
    by auto
qed

text \<open>
  Parsing a well-formed IPv4 packet, with or without options and whatever bytes follow it, returns
  its addresses, protocol and body, a valid length, and the fragment flags of its fragment word.
\<close>

theorem parse_ipv4_roundtrip:
  assumes ihl: "5 \<le> ihl" "ihl \<le> 15" and opts: "length opts = (ihl - 5) * 4"
    and len: "ihl * 4 + length body < 65536"
  shows "parse_ip_packet (ipv4_bytes ihl tos ident frag ttl protocol csum src dst opts body @ pad) =
    Some (Some \<lparr>src_ip = V4 src, dst_ip = V4 dst, ip_protocol = protocol, transport_payload = body,
      is_non_initial_fragment = (frag AND 0x1fff \<noteq> 0), is_fragment = (frag AND 0x3fff \<noteq> 0),
      has_valid_length = True\<rparr>)"
proof -
  define P where "P = ipv4_bytes ihl tos ident frag ttl protocol csum src dst opts body @ pad"
  obtain s0 s1 s2 s3 where s: "u32_be src = [s0, s1, s2, s3]"
    using u32_be_shape by blast
  obtain d0 d1 d2 d3 where d: "u32_be dst = [d0, d1, d2, d3]"
    using u32_be_shape by blast
  have rt: "u32_of_be [s0, s1, s2, s3] = src" "u32_of_be [d0, d1, d2, d3] = dst"
    using u32_be_roundtrip [of src] u32_be_roundtrip [of dst] by (simp_all add: s d)
  have lenp: "length P = 20 + length opts + length body + length pad"
    by (simp add: P_def ipv4_bytes_def s d nat_to_be_2)
  have nth: "P ! 0 = word_of_nat (64 + ihl)" "P ! 9 = protocol" "u16_at P 2 = word_of_nat (ihl * 4 + length body)"
      "u16_at P 6 = frag"
    using len unat_bound [of frag] by (simp_all add: P_def ipv4_bytes_def nat_to_be_2 u16_at_def u16_of_be_pair)
  have addr: "take 4 (drop 12 P) = [s0, s1, s2, s3]" "take 4 (drop 16 P) = [d0, d1, d2, d3]"
    by (simp_all add: P_def ipv4_bytes_def nat_to_be_2 s d)
  have body: "take (length body) (drop (ihl * 4) P) = body"
  proof -
    have "drop 20 P = opts @ body @ pad" by (simp add: P_def ipv4_bytes_def nat_to_be_2 s d)
    moreover have "ihl * 4 = length opts + 20" using ihl opts by simp
    moreover have "drop (length opts + 20) P = drop (length opts) (drop 20 P)" by simp
    ultimately show ?thesis by simp
  qed
  have total: "unat (word_of_nat (ihl * 4 + length body) :: u16) = ihl * 4 + length body"
    using len by (simp add: unsigned_of_nat take_bit_eq_mod del: of_nat_add of_nat_mult)
  have hl: "unat (P ! 0 AND 0x0f) = ihl" and tl: "unat (u16_at P 2) = ihl * 4 + length body"
    unfolding nth by (rule ipv4_version_ihl(2) [OF ihl], rule total)
  have "20 + (ihl * 4 - 20) = ihl * 4" "ihl * 4 = 20 + length opts" using ihl opts by simp_all
  then have "parse_ipv4_packet P = Some \<lparr>src_ip = V4 src, dst_ip = V4 dst, ip_protocol = protocol,
      transport_payload = body, is_non_initial_fragment = (frag AND 0x1fff \<noteq> 0),
      is_fragment = (frag AND 0x3fff \<noteq> 0), has_valid_length = True\<rparr>"
    using lenp ihl body by (simp add: parse_ipv4_packet_def Let_def hl tl nth(2,4) addr rt slice_def)
  moreover have "parse_ip_packet P = Some (parse_ipv4_packet P)"
    using ipv4_version_ihl(1) [OF ihl] by (simp add: parse_ip_packet_def P_def ipv4_bytes_def)
  ultimately show ?thesis by (simp add: P_def)
qed

theorem parse_ipv4_roundtrip_witness:
  "parse_ip_packet (ipv4_bytes 6 0 1 0x4000 64 17 0 0x0A000001 0x0A000002 [1, 1, 1, 0] [1, 2, 3, 4, 0, 8, 0, 0] @ [0xFF]) =
    Some (Some \<lparr>src_ip = V4 0x0A000001, dst_ip = V4 0x0A000002, ip_protocol = 17,
      transport_payload = [1, 2, 3, 4, 0, 8, 0, 0],
      is_non_initial_fragment = ((0x4000 :: u16) AND 0x1fff \<noteq> 0), is_fragment = ((0x4000 :: u16) AND 0x3fff \<noteq> 0),
      has_valid_length = True\<rparr>)"
  by (rule parse_ipv4_roundtrip) simp_all

text \<open>
  The flow key of a packet is computed only from packets that are complete: it exists exactly when
  the parser succeeds with a valid length, the packet is no fragment (not even a first one), and the
  transport is TCP or UDP with a whole header; then it carries the addresses and protocol of the
  parsed packet and the first two 16-bit words of its transport payload.
\<close>

theorem parse_flow_key_iff:
  "parse_flow_key p = Some (Some k) \<longleftrightarrow>
    (\<exists>pl x. payload p = Some pl \<and> parse_ip_packet pl = Some (Some x)
      \<and> has_valid_length x \<and> \<not> is_fragment x
      \<and> (ip_protocol x = IP_PROTO_TCP \<and> 20 \<le> length (transport_payload x)
         \<or> ip_protocol x = IP_PROTO_UDP \<and> 8 \<le> length (transport_payload x))
      \<and> k = \<lparr>fk_src = \<lparr>sa_ip = src_ip x, sa_port = u16_at (transport_payload x) 0\<rparr>,
             fk_dst = \<lparr>sa_ip = dst_ip x, sa_port = u16_at (transport_payload x) 2\<rparr>,
             fk_protocol = ip_protocol x\<rparr>)"
  (is "_ = (\<exists>pl x. ?ok pl x)")
proof
  assume "parse_flow_key p = Some (Some k)"
  then obtain pl x where "payload p = Some pl" "parse_ip_packet pl = Some (Some x)"
    and "(if is_fragment x \<or> \<not> has_valid_length x then None
       else do {
         (src_port, dst_port) \<leftarrow> parse_transport_ports (ip_protocol x) (transport_payload x);
         sp \<leftarrow> src_port;
         dp \<leftarrow> dst_port;
         Some \<lparr>fk_src = \<lparr>sa_ip = src_ip x, sa_port = sp\<rparr>,
           fk_dst = \<lparr>sa_ip = dst_ip x, sa_port = dp\<rparr>, fk_protocol = ip_protocol x\<rparr> }) = Some k"
    by (auto simp: parse_flow_key_def split: bind_splits)
  then have "?ok pl x"
    by (auto simp: parse_transport_ports_def ip_proto_defs split: if_splits)
  then show "\<exists>pl x. ?ok pl x" by blast
next
  assume "\<exists>pl x. ?ok pl x"
  then show "parse_flow_key p = Some (Some k)"
    by (auto simp: parse_flow_key_def parse_transport_ports_def ip_proto_defs)
qed

end
