(* ===== verification/Compressor.thy ===== *)
theory Compressor
  imports Packet
begin

text \<open>
  Packet compression: \<^verbatim>\<open>CompressorAlgo\<close> and \<^verbatim>\<open>CompressorTail\<close> of \<^verbatim>\<open>packet/mod.rs\<close>, the
  \<^verbatim>\<open>DefaultCompressor\<close> of \<^verbatim>\<open>packet/compressor.rs\<close> and the retry loop of
  \<^verbatim>\<open>packet/compressor/zstd.rs\<close>. The zstd bulk functions are the arguments \<open>bc\<close> (compress) and
  \<open>bd\<close> (decompress into a buffer of a given capacity); the \<^verbatim>\<open>zstd\<close> build feature is the
  argument \<open>avail\<close>.
\<close>

section \<open>Algorithms\<close>

datatype compressor_algo = Algo_None | ZstdDefault

datatype compression_algo_pb = Pb_Invalid | Pb_None | Pb_Zstd

fun compressor_algo_u8 :: "compressor_algo \<Rightarrow> u8" where
  "compressor_algo_u8 Algo_None = 0"
| "compressor_algo_u8 ZstdDefault = 1"

fun is_available :: "bool \<Rightarrow> compressor_algo \<Rightarrow> bool" where
  "is_available avail Algo_None = True"
| "is_available avail ZstdDefault = avail"

definition ensure_available :: "bool \<Rightarrow> compressor_algo \<Rightarrow> compressor_algo + unit" where
  "ensure_available avail algo = (if is_available avail algo then Inr () else Inl algo)"

fun algo_of_pb :: "compression_algo_pb \<Rightarrow> compression_algo_pb + compressor_algo" where
  "algo_of_pb Pb_Zstd = Inr ZstdDefault"
| "algo_of_pb Pb_None = Inr Algo_None"
| "algo_of_pb Pb_Invalid = Inl Pb_Invalid"

fun pb_of_algo :: "compressor_algo \<Rightarrow> compression_algo_pb" where
  "pb_of_algo ZstdDefault = Pb_Zstd"
| "pb_of_algo Algo_None = Pb_None"

definition get_algo :: "u8 \<Rightarrow> compressor_algo option" where
  "get_algo tail = (if tail = 1 then Some ZstdDefault else None)"

section \<open>zstd\<close>

datatype bulk_result = Bulk_Ok bytes | Bulk_TooSmall | Bulk_Err

datatype compress_error =
  Compression_Unavailable compressor_algo | Compress_Failed | Decompress_Failed
| Decompress_Attempts_Exhausted | Packet_Too_Short nat | Unknown_Algo u8
| Length_Mismatch nat nat | Compress_Panic

definition zstd_compress ::
  "bool \<Rightarrow> (bytes \<Rightarrow> bytes option) \<Rightarrow> bytes \<Rightarrow> compressor_algo \<Rightarrow> compress_error + bytes" where
  "zstd_compress avail bc data algo =
     (if avail then (case bc data of Some c \<Rightarrow> Inr c | None \<Rightarrow> Inl Compress_Failed)
      else Inl (Compression_Unavailable algo))"

definition attempt_len :: "nat \<Rightarrow> nat \<Rightarrow> nat" where
  "attempt_len n i = (let len = n * 2 ^ i in if i = 5 \<and> len < 64 * 1024 then 64 * 1024 else len)"

fun zstd_attempts :: "(bytes \<Rightarrow> nat \<Rightarrow> bulk_result) \<Rightarrow> bytes \<Rightarrow> nat list \<Rightarrow> compress_error + bytes" where
  "zstd_attempts bd data [] = Inl Decompress_Attempts_Exhausted"
| "zstd_attempts bd data (i # is) =
     (case bd data (attempt_len (length data) i) of
        Bulk_Ok buf \<Rightarrow> Inr buf
      | Bulk_TooSmall \<Rightarrow> zstd_attempts bd data is
      | Bulk_Err \<Rightarrow> Inl Decompress_Failed)"

definition zstd_decompress ::
  "bool \<Rightarrow> (bytes \<Rightarrow> nat \<Rightarrow> bulk_result) \<Rightarrow> bytes \<Rightarrow> compressor_algo \<Rightarrow> compress_error + bytes" where
  "zstd_decompress avail bd data algo =
     (if avail then zstd_attempts bd data [1..<6] else Inl (Compression_Unavailable algo))"

section \<open>DefaultCompressor\<close>

definition compress_raw ::
  "bool \<Rightarrow> (bytes \<Rightarrow> bytes option) \<Rightarrow> bytes \<Rightarrow> compressor_algo \<Rightarrow> compress_error + bytes" where
  "compress_raw avail bc data algo =
     (case algo of ZstdDefault \<Rightarrow> zstd_compress avail bc data algo | Algo_None \<Rightarrow> Inr data)"

definition decompress_raw ::
  "bool \<Rightarrow> (bytes \<Rightarrow> nat \<Rightarrow> bulk_result) \<Rightarrow> bytes \<Rightarrow> compressor_algo \<Rightarrow> compress_error + bytes" where
  "decompress_raw avail bd data algo =
     (case algo of ZstdDefault \<Rightarrow> zstd_decompress avail bd data algo | Algo_None \<Rightarrow> Inr data)"

text \<open>\<^verbatim>\<open>mut_inner().truncate(payload_offset)\<close>, then \<^verbatim>\<open>extend_from_slice\<close>.\<close>

definition replace_payload :: "bytes \<Rightarrow> zc_packet \<Rightarrow> zc_packet" where
  "replace_payload bs p = p\<lparr>inner := take (payload_offset p) (inner p) @ bs\<rparr>"

definition zc_compress ::
  "bool \<Rightarrow> (bytes \<Rightarrow> bytes option) \<Rightarrow> compressor_algo \<Rightarrow> zc_packet \<Rightarrow> compress_error + zc_packet" where
  "zc_compress avail bc algo p =
     (if algo = Algo_None then Inr p
      else case peer_manager_header p of
        None \<Rightarrow> Inl Compress_Panic
      | Some pm_header \<Rightarrow>
          if is_compressed pm_header then Inr p
          else (case payload p of
            None \<Rightarrow> Inl Compress_Panic
          | Some pl \<Rightarrow>
              (case compress_raw avail bc pl algo of
                 Inl e \<Rightarrow> Inl e
               | Inr buf \<Rightarrow>
                   if length buf + COMPRESSOR_TAIL_SIZE > unat (pm_len pm_header) then Inr p
                   else (case mut_peer_manager_header (set_compressed True) p of
                      None \<Rightarrow> Inl Compress_Panic
                    | Some p' \<Rightarrow> Inr (replace_payload (buf @ [compressor_algo_u8 algo]) p')))))"

definition zc_decompress ::
  "bool \<Rightarrow> (bytes \<Rightarrow> nat \<Rightarrow> bulk_result) \<Rightarrow> zc_packet \<Rightarrow> compress_error + zc_packet" where
  "zc_decompress avail bd p =
     (case peer_manager_header p of
        None \<Rightarrow> Inl Compress_Panic
      | Some pm_header \<Rightarrow>
          if \<not> is_compressed pm_header then Inr p
          else (case payload p of
            None \<Rightarrow> Inl Compress_Panic
          | Some pl \<Rightarrow>
              if length pl < COMPRESSOR_TAIL_SIZE then Inl (Packet_Too_Short (length pl))
              else (let text_len = length pl - COMPRESSOR_TAIL_SIZE; tail = pl ! text_len in
                case get_algo tail of
                  None \<Rightarrow> Inl (Unknown_Algo tail)
                | Some algo \<Rightarrow>
                    (case decompress_raw avail bd (take text_len pl) algo of
                       Inl e \<Rightarrow> Inl e
                     | Inr buf \<Rightarrow>
                         if length buf \<noteq> unat (pm_len pm_header)
                         then Inl (Length_Mismatch (length buf) (unat (pm_len pm_header)))
                         else (case mut_peer_manager_header (set_compressed False) p of
                            None \<Rightarrow> Inl Compress_Panic
                          | Some p' \<Rightarrow> Inr (replace_payload buf p'))))))"

section \<open>The contract of the zstd library\<close>

text \<open>
  What the code relies on: decompressing the compressed form of \<open>d\<close> gives \<open>d\<close> when the buffer holds
  it and otherwise reports that the buffer is too small.
\<close>

definition bulk_law :: "(bytes \<Rightarrow> bytes option) \<Rightarrow> (bytes \<Rightarrow> nat \<Rightarrow> bulk_result) \<Rightarrow> bool" where
  "bulk_law bc bd \<longleftrightarrow>
     (\<forall>d c cap. bc d = Some c \<longrightarrow> bd c cap = (if length d \<le> cap then Bulk_Ok d else Bulk_TooSmall))"

lemma attempts_exact:
  assumes "bulk_law bc bd" "bc d = Some c"
  shows "zstd_attempts bd c is =
    (if \<exists>i \<in> set is. length d \<le> attempt_len (length c) i then Inr d else Inl Decompress_Attempts_Exhausted)"
proof (induction "is")
  case Nil
  then show ?case by simp
next
  case (Cons i "is")
  have "bd c (attempt_len (length c) i) =
      (if length d \<le> attempt_len (length c) i then Bulk_Ok d else Bulk_TooSmall)"
    using assms by (simp add: bulk_law_def)
  with Cons show ?case by auto
qed

lemma attempt_len_max:
  "(\<exists>i \<in> set [1..<6]. n \<le> attempt_len m i) \<longleftrightarrow> n \<le> max (32 * m) 65536"
proof
  assume "\<exists>i \<in> set [1..<6]. n \<le> attempt_len m i"
  then obtain i where i: "i < 6" "n \<le> attempt_len m i" by auto
  have "m * 2 ^ i \<le> m * 2 ^ 5" using i(1) by (intro mult_le_mono2 power_increasing) auto
  then have "m * 2 ^ i \<le> 32 * m" by (simp only: mult.commute) simp
  moreover have "attempt_len m i \<le> max (m * 2 ^ i) 65536" by (simp add: attempt_len_def Let_def)
  ultimately show "n \<le> max (32 * m) 65536" using i(2) by linarith
next
  assume "n \<le> max (32 * m) 65536"
  then have "n \<le> attempt_len m 5" by (auto simp: attempt_len_def max_def Let_def split: if_splits)
  then show "\<exists>i \<in> set [1..<6]. n \<le> attempt_len m i" by force
qed

lemma attempts_all:
  assumes "bulk_law bc bd" "bc d = Some c"
  shows "zstd_attempts bd c [1..<6] =
    (if length d \<le> max (32 * length c) 65536 then Inr d else Inl Decompress_Attempts_Exhausted)"
  unfolding attempts_exact [OF assms] attempt_len_max ..

text \<open>
  Decompressing what the zstd back end compressed gives the data back exactly when the data is no
  longer than the larger of 64 KiB and 32 times its compressed form; longer data, which the
  compressor accepts, ends in the error of exhausted attempts.
\<close>

lemma decompress_raw_exact:
  assumes "bulk_law bc bd" "compress_raw True bc d ZstdDefault = Inr c"
  shows "decompress_raw True bd c ZstdDefault =
    (if length d \<le> max (32 * length c) 65536 then Inr d else Inl Decompress_Attempts_Exhausted)"
proof -
  have "bc d = Some c"
    using assms(2) by (simp add: compress_raw_def zstd_compress_def split: option.splits)
  from attempts_all [OF assms(1) this] show ?thesis
    by (simp add: decompress_raw_def zstd_decompress_def del: One_nat_def)
qed

text \<open>A toy instance of the contract: one long run of zeros has a one-byte form.\<close>

definition run_compress :: "bytes \<Rightarrow> bytes option" where
  "run_compress d = Some (if d = replicate 40 0 then [1] else 0 # d)"

definition run_decompress :: "bytes \<Rightarrow> nat \<Rightarrow> bulk_result" where
  "run_decompress c cap = (case c of [] \<Rightarrow> Bulk_Err
     | x # xs \<Rightarrow> let d = (if x = 1 then replicate 40 0 else xs)
                in if length d \<le> cap then Bulk_Ok d else Bulk_TooSmall)"

lemma run_law: "bulk_law run_compress run_decompress"
  by (auto simp: bulk_law_def run_compress_def run_decompress_def Let_def)

lemma is_compressed_set [simp]: "is_compressed (set_compressed b h) = b"
  unfolding is_compressed_def set_compressed_def flag_exps by (simp add: flag_contains_put del: power_numeral)

lemma pm_len_set_compressed [simp]: "pm_len (set_compressed b h) = pm_len h"
  by (simp add: set_compressed_def)

lemma set_compressed_back: "\<not> is_compressed h \<Longrightarrow> set_compressed False (set_compressed True h) = h"
  using flag_put_remove_insert [of "flags h" 4]
  unfolding is_compressed_def set_compressed_def flag_exps by (simp del: power_numeral)

lemma replace_payload_layout:
  assumes "packet_layout p pre h pl"
  shows "replace_payload bs p = p\<lparr>inner := pre @ pm_header_bytes h @ bs\<rparr>"
    and "packet_layout (replace_payload bs p) pre h bs"
  using assms by (simp_all add: packet_layout_def replace_payload_def payload_offset_def payload_off_eq)

text \<open>
  Compressing a packet whose header records its payload length and decompressing the result gives
  the packet back bit for bit, and the compressed packet is never longer than the original one.
\<close>

theorem compress_roundtrip:
  assumes law: "bulk_law bc bd" and h: "peer_manager_header p = Some h" "\<not> is_compressed h"
    and pl: "payload p = Some pl" "unat (pm_len h) = length pl" "length pl \<le> 65536"
    and c: "zc_compress True bc algo p = Inr q"
  shows "zc_decompress True bd q = Inr p \<and> buf_len q \<le> buf_len p"
proof -
  obtain pre where lay: "packet_layout p pre h pl"
    using h pl peer_manager_header_layout layout_payload by (metis option.inject)
  show ?thesis
  proof (cases "q = p")
    case True
    with h show ?thesis by (simp add: zc_decompress_def)
  next
    case False
    let ?h = "set_compressed True h"
    let ?p1 = "p\<lparr>inner := pre @ pm_header_bytes ?h @ pl\<rparr>"
    have algo: "algo = ZstdDefault" using False c by (cases algo) (auto simp: zc_compress_def)
    obtain buf where buf: "bc pl = Some buf" "length buf + 1 \<le> length pl"
      and q: "q = replace_payload (buf @ [1]) ?p1"
      using False c h pl algo layout_mut_header [OF lay]
      by (auto simp: zc_compress_def compress_raw_def zstd_compress_def COMPRESSOR_TAIL_SIZE_def
          split: if_splits option.splits)
    have lay1: "packet_layout ?p1 pre ?h pl" using lay by (rule layout_mut_layout)
    note qlay = replace_payload_layout(2) [OF lay1, of "buf @ [1]", folded q]
    have dec: "zstd_attempts bd buf [1..<6] = Inr pl"
      using attempts_all [OF law buf(1)] pl(3) by (simp del: One_nat_def)
    have "zc_decompress True bd q = Inr (replace_payload pl (q\<lparr>inner := pre @ pm_header_bytes h @ buf @ [1]\<rparr>))"
      using layout_header [OF qlay] layout_payload [OF qlay] layout_mut_header [OF qlay] dec pl(2) h(2)
      by (simp add: zc_decompress_def COMPRESSOR_TAIL_SIZE_def get_algo_def decompress_raw_def
          zstd_decompress_def set_compressed_back Let_def nth_append del: One_nat_def)
    also have "\<dots> = Inr p"
      using replace_payload_layout(1) [OF layout_mut_layout [OF qlay, of h "buf @ [1]"], of pl]
        replace_payload_layout(1) [OF lay1, of "buf @ [1]"] lay
      by (simp add: q packet_layout_def)
    finally show ?thesis
      using buf(2) replace_payload_layout(1) [OF lay1, of "buf @ [1]"] lay
      by (simp add: q buf_len_def packet_layout_def)
  qed
qed

definition zeros_packet :: zc_packet where
  "zeros_packet = new_from_buf (pm_header_bytes (filled_header 1 2 (packet_kind_u8 Pkt_Data) 40) @ replicate 40 0) DummyTunnel"

lemma zeros_layout:
  "packet_layout zeros_packet [] (filled_header 1 2 (packet_kind_u8 Pkt_Data) 40) (replicate 40 0)"
  by (simp add: packet_layout_def zeros_packet_def new_from_buf_def)

lemma zeros_header: "\<not> is_compressed (filled_header 1 2 (packet_kind_u8 Pkt_Data) 40)"
  "unat (pm_len (filled_header 1 2 (packet_kind_u8 Pkt_Data) 40)) = 40"
  by (simp_all add: filled_header_def is_compressed_def flag_contains_def COMPRESSED_def)

theorem compress_roundtrip_witness:
  "\<exists>q. zc_compress True run_compress ZstdDefault zeros_packet = Inr q \<and> q \<noteq> zeros_packet
    \<and> zc_decompress True run_decompress q = Inr zeros_packet \<and> buf_len q \<le> buf_len zeros_packet"
proof -
  note acc = layout_header [OF zeros_layout] layout_payload [OF zeros_layout] layout_mut_header [OF zeros_layout]
  let ?p1 = "zeros_packet\<lparr>inner := [] @ pm_header_bytes (set_compressed True
      (filled_header 1 2 (packet_kind_u8 Pkt_Data) 40)) @ replicate 40 0\<rparr>"
  let ?q = "replace_payload ([1] @ [1]) ?p1"
  have c: "zc_compress True run_compress ZstdDefault zeros_packet = Inr ?q"
    using zeros_header
    by (simp add: zc_compress_def acc compress_raw_def zstd_compress_def run_compress_def
        COMPRESSOR_TAIL_SIZE_def)
  have "packet_layout ?q [] (set_compressed True (filled_header 1 2 (packet_kind_u8 Pkt_Data) 40)) [1, 1]"
    using replace_payload_layout(2) [OF layout_mut_layout [OF zeros_layout]] by simp
  then have "payload ?q = Some [1, 1]" by (rule layout_payload)
  moreover have "length [1, 1 :: u8] \<noteq> length (replicate 40 (0 :: u8))" by simp
  ultimately have "payload ?q \<noteq> payload zeros_packet" unfolding acc(2) by (metis option.inject)
  then have "?q \<noteq> zeros_packet" by metis
  moreover have "zc_decompress True run_decompress ?q = Inr zeros_packet \<and> buf_len ?q \<le> buf_len zeros_packet"
    using compress_roundtrip [OF run_law acc(1) zeros_header(1) acc(2) _ _ c] zeros_header(2) by simp
  ultimately show ?thesis using c by blast
qed

end
