(* ===== verification/RpcPacket.thy ===== *)
theory RpcPacket
  imports Compressor
begin

text \<open>
  RPC messages over packets, \<^verbatim>\<open>easytier-core/src/rpc/packet.rs\<close>: negotiated compression of the body,
  splitting of a body into pieces that fit a UDP datagram, and the \<^verbatim>\<open>PacketMerger\<close> that puts pieces
  together again. The protobuf encoding (\<^verbatim>\<open>prost\<close>) is a parameter: \<open>enc\<close> for \<^verbatim>\<open>encode\<close>, \<open>enc_len\<close> for
  \<^verbatim>\<open>encoded_len\<close>, \<open>ldl\<close> for \<^verbatim>\<open>length_delimiter_len\<close>. The service descriptor has the type \<open>'d\<close>.
\<close>

section \<open>Messages\<close>

record rpc_compression_info =
  ci_algo :: int
  ci_accepted_algo :: int

record 'd rpc_packet =
  rp_from_peer :: peer_id
  rp_to_peer :: peer_id
  rp_transaction_id :: int
  rp_descriptor :: "'d option"
  rp_body :: bytes
  rp_is_request :: bool
  rp_total_pieces :: u32
  rp_piece_idx :: u32
  rp_trace_id :: int
  rp_compression_info :: "rpc_compression_info option"

definition rpc_packet_default :: "'d rpc_packet" where
  "rpc_packet_default = \<lparr>rp_from_peer = 0, rp_to_peer = 0, rp_transaction_id = 0, rp_descriptor = None,
     rp_body = [], rp_is_request = False, rp_total_pieces = 0, rp_piece_idx = 0, rp_trace_id = 0,
     rp_compression_info = None\<rparr>"

fun pb_i32 :: "compression_algo_pb \<Rightarrow> int" where
  "pb_i32 Pb_Invalid = 0"
| "pb_i32 Pb_None = 1"
| "pb_i32 Pb_Zstd = 2"

section \<open>Compression of the body\<close>

definition accepted_compression_algo :: "bool \<Rightarrow> compression_algo_pb" where
  "accepted_compression_algo avail = (if is_available avail ZstdDefault then Pb_Zstd else Pb_None)"

definition usable_algo :: "bool \<Rightarrow> compression_algo_pb \<Rightarrow> compressor_algo" where
  "usable_algo avail pb =
     (case algo_of_pb pb of Inr algo \<Rightarrow> if is_available avail algo then algo else Algo_None | Inl _ \<Rightarrow> Algo_None)"

definition compress_packet ::
  "bool \<Rightarrow> (bytes \<Rightarrow> bytes option) \<Rightarrow> compression_algo_pb \<Rightarrow> bytes
   \<Rightarrow> compress_error + (bytes \<times> compression_algo_pb)" where
  "compress_packet avail bc accepted content =
     (let algo = usable_algo avail accepted in
      case compress_raw avail bc content algo of
        Inl e \<Rightarrow> Inl e
      | Inr compressed \<Rightarrow>
          if length content \<le> length compressed then Inr (content, Pb_None)
          else Inr (compressed, pb_of_algo algo))"

definition decompress_packet ::
  "bool \<Rightarrow> (bytes \<Rightarrow> nat \<Rightarrow> bulk_result) \<Rightarrow> compression_algo_pb \<Rightarrow> bytes
   \<Rightarrow> (compression_algo_pb + compress_error) + bytes" where
  "decompress_packet avail bd pb content =
     (case algo_of_pb pb of
        Inl e \<Rightarrow> Inl (Inl e)
      | Inr algo \<Rightarrow> (case decompress_raw avail bd content algo of Inl e \<Rightarrow> Inl (Inr e) | Inr d \<Rightarrow> Inr d))"

section \<open>Merging pieces\<close>

record 'd packet_merger =
  first_piece :: "'d rpc_packet option"
  pieces :: "'d rpc_packet list"
  last_updated :: nat

datatype rpc_error = Descriptor_Missing | Total_Pieces_Invalid u32 | Piece_Idx_Out_Of_Range

definition merger_new :: "nat \<Rightarrow> 'd packet_merger" where
  "merger_new now = \<lparr>first_piece = None, pieces = [], last_updated = now\<rparr>"

definition try_merge_pieces :: "'d packet_merger \<Rightarrow> 'd rpc_packet option" where
  "try_merge_pieces m =
     (if first_piece m = None \<or> pieces m = [] then None
      else if \<exists>p \<in> set (pieces m). rp_total_pieces p = 0 then None
      else Some ((pieces m ! 0)\<lparr>rp_total_pieces := 1, rp_piece_idx := 0,
             rp_body := concat (map rp_body (pieces m))\<rparr>))"

definition list_resize :: "nat \<Rightarrow> 'a \<Rightarrow> 'a list \<Rightarrow> 'a list" where
  "list_resize n d xs = take n xs @ replicate (n - length xs) d"

definition starts_transaction :: "'d packet_merger \<Rightarrow> 'd rpc_packet \<Rightarrow> bool" where
  "starts_transaction m p = (case first_piece m of
     None \<Rightarrow> True
   | Some f \<Rightarrow> rp_transaction_id f \<noteq> rp_transaction_id p \<or> rp_from_peer f \<noteq> rp_from_peer p)"

definition merger_feed ::
  "nat \<Rightarrow> 'd rpc_packet \<Rightarrow> 'd packet_merger \<Rightarrow> (rpc_error + 'd rpc_packet option) \<times> 'd packet_merger" where
  "merger_feed now p m =
     (let tot = rp_total_pieces p; idx = rp_piece_idx p in
      if tot = 0 \<and> idx = 0 then (Inr (Some p), m)
      else if idx = 0 \<and> rp_descriptor p = None then (Inl Descriptor_Missing, m)
      else if 32 * 1024 < tot \<or> tot = 0 then (Inl (Total_Pieces_Invalid tot), m)
      else if tot \<le> idx then (Inl Piece_Idx_Out_Of_Range, m)
      else
        let m1 = (if starts_transaction m p then m\<lparr>first_piece := Some p, pieces := []\<rparr> else m);
            m2 = m1\<lparr>pieces := (list_resize (unat tot) rpc_packet_default (pieces m1))[unat idx := p],
                    last_updated := now\<rparr>
        in (Inr (try_merge_pieces m2), m2))"

section \<open>Splitting a body\<close>

record 'd build_rpc_packet_args =
  ba_from_peer :: peer_id
  ba_to_peer :: peer_id
  ba_rpc_desc :: 'd
  ba_transaction_id :: int
  ba_is_req :: bool
  ba_content :: bytes
  ba_trace_id :: int
  ba_compression_info :: rpc_compression_info

definition udp_rpc_tunnel_overhead :: nat where
  "udp_rpc_tunnel_overhead = payload_off (get_packet_offsets UDP) + TAIL_RESERVED_SIZE"

definition max_rpc_packet_encoded_len_for_udp :: nat where
  "max_rpc_packet_encoded_len_for_udp = 1300 - udp_rpc_tunnel_overhead"

definition build_rpc_piece ::
  "'d build_rpc_packet_args \<Rightarrow> u32 \<Rightarrow> u32 \<Rightarrow> bytes \<Rightarrow> 'd rpc_packet" where
  "build_rpc_piece args tot idx body =
     \<lparr>rp_from_peer = ba_from_peer args, rp_to_peer = ba_to_peer args,
      rp_transaction_id = ba_transaction_id args,
      rp_descriptor = (if idx = 0 \<or> ci_algo (ba_compression_info args) = pb_i32 Pb_None
                       then Some (ba_rpc_desc args) else None),
      rp_body = body, rp_is_request = ba_is_req args, rp_total_pieces = tot, rp_piece_idx = idx,
      rp_trace_id = ba_trace_id args,
      rp_compression_info = (if idx = 0 then Some (ba_compression_info args) else None)\<rparr>"

definition pick_piece_len_for_budget :: "(nat \<Rightarrow> nat) \<Rightarrow> nat \<Rightarrow> nat \<Rightarrow> nat \<Rightarrow> nat" where
  "pick_piece_len_for_budget ldl base remaining max_len =
     (if remaining = 0 then 0
      else if max_len < base + 3 then 1
      else let budget = max_len - base; reserved_for_body = 1 + ldl budget
           in max (min remaining (budget - reserved_for_body)) 1)"

lemma pick_piece_len_bounds:
  "0 < remaining \<Longrightarrow> 0 < pick_piece_len_for_budget ldl base remaining max_len"
  "pick_piece_len_for_budget ldl base remaining max_len \<le> remaining"
  by (auto simp: pick_piece_len_for_budget_def Let_def)

function split_loop :: "(nat \<Rightarrow> nat) \<Rightarrow> nat \<Rightarrow> nat \<Rightarrow> nat \<Rightarrow> nat \<Rightarrow> (nat \<times> nat) list \<Rightarrow> nat \<Rightarrow> (nat \<times> nat) list" where
  "split_loop ldl max_len first_base other_base n ps off =
     (if off < n then
        let base = (if ps = [] then first_base else other_base);
            piece_len = pick_piece_len_for_budget ldl base (n - off) max_len
        in split_loop ldl max_len first_base other_base n (ps @ [(off, piece_len)]) (off + piece_len)
      else ps)"
  by pat_completeness auto
termination
  by (relation "measure (\<lambda>(_, _, _, _, n, _, off). n - off)")
    (auto simp: pick_piece_len_bounds intro!: diff_less_mono2)

declare split_loop.simps [simp del]

definition split_rpc_content_for_udp_budget ::
  "('d rpc_packet \<Rightarrow> nat) \<Rightarrow> (nat \<Rightarrow> nat) \<Rightarrow> 'd build_rpc_packet_args \<Rightarrow> (nat \<times> nat) list" where
  "split_rpc_content_for_udp_budget enc_len ldl args =
     (if ba_content args = [] then [(0, 0)]
      else split_loop ldl (max max_rpc_packet_encoded_len_for_udp 1)
        (enc_len (build_rpc_piece args (- 1) 0 [])) (enc_len (build_rpc_piece args (- 1) (- 1) []))
        (length (ba_content args)) [] 0)"

definition rpc_pieces ::
  "('d rpc_packet \<Rightarrow> nat) \<Rightarrow> (nat \<Rightarrow> nat) \<Rightarrow> 'd build_rpc_packet_args \<Rightarrow> 'd rpc_packet list" where
  "rpc_pieces enc_len ldl args =
     (let ps = split_rpc_content_for_udp_budget enc_len ldl args; tot = word_of_nat (length ps)
      in map (\<lambda>(i, off, len). build_rpc_piece args tot (word_of_nat i) (take len (drop off (ba_content args))))
           (enumerate 0 ps))"

definition build_rpc_packet ::
  "(nat \<Rightarrow> u8) \<Rightarrow> ('d rpc_packet \<Rightarrow> bytes) \<Rightarrow> ('d rpc_packet \<Rightarrow> nat) \<Rightarrow> (nat \<Rightarrow> nat)
   \<Rightarrow> 'd build_rpc_packet_args \<Rightarrow> zc_packet option list" where
  "build_rpc_packet junk enc enc_len ldl args =
     map (\<lambda>p. do {
        zc \<leftarrow> new_with_payload junk (enc p);
        fill_peer_manager_hdr (ba_from_peer args) (ba_to_peer args)
          (packet_kind_u8 (if ba_is_req args then Pkt_RpcReq else Pkt_RpcResp)) zc })
       (rpc_pieces enc_len ldl args)"

section \<open>The pieces cover the body\<close>

abbreviation piece_bytes :: "bytes \<Rightarrow> nat \<times> nat \<Rightarrow> bytes" where
  "piece_bytes xs \<equiv> (\<lambda>(off, len). take len (drop off xs))"

lemma split_loop_covers:
  "off \<le> length xs \<Longrightarrow> concat (map (piece_bytes xs) ps) = take off xs \<Longrightarrow>
   concat (map (piece_bytes xs) (split_loop ldl mx fb ob (length xs) ps off)) = xs"
proof (induction ldl mx fb ob "length xs" ps off rule: split_loop.induct)
  case (1 ldl mx fb ob ps off)
  show ?case
  proof (cases "off < length xs")
    case True
    define k where "k = pick_piece_len_for_budget ldl (if ps = [] then fb else ob) (length xs - off) mx"
    have "k \<le> length xs - off" by (simp add: k_def pick_piece_len_bounds)
    with True have le: "off + k \<le> length xs" by simp
    have cov: "concat (map (piece_bytes xs) (ps @ [(off, k)])) = take (off + k) xs"
      using 1(3) by (simp add: take_add)
    show ?thesis
      using 1(1) [OF True refl k_def le cov] True
      by (subst split_loop.simps) (simp add: Let_def k_def)
  next
    case False
    with 1(2,3) show ?thesis by (subst split_loop.simps) simp
  qed
qed

lemma split_loop_nonempty: "ps \<noteq> [] \<or> off < n \<Longrightarrow> split_loop ldl mx fb ob n ps off \<noteq> []"
proof (induction ldl mx fb ob n ps off rule: split_loop.induct)
  case (1 ldl mx fb ob n ps off)
  then show ?case by (cases "off < n"; subst split_loop.simps) (auto simp: Let_def)
qed

lemma split_covers:
  "concat (map (piece_bytes (ba_content args)) (split_rpc_content_for_udp_budget enc_len ldl args)) = ba_content args"
  using split_loop_covers [of 0 "ba_content args" "[]"]
  by (simp add: split_rpc_content_for_udp_budget_def)

lemma split_nonempty: "split_rpc_content_for_udp_budget enc_len ldl args \<noteq> []"
  by (simp add: split_rpc_content_for_udp_budget_def split_loop_nonempty)

section \<open>A complete set of pieces\<close>

text \<open>
  The pieces of one message: numbered, sharing the number of pieces, the transaction and the sender,
  with the descriptor in the first one.
\<close>

definition piece_family :: "'d rpc_packet list \<Rightarrow> bool" where
  "piece_family ps \<longleftrightarrow> ps \<noteq> [] \<and> length ps \<le> 32 * 1024 \<and> rp_descriptor (ps ! 0) \<noteq> None \<and>
     (\<forall>i < length ps. rp_total_pieces (ps ! i) = word_of_nat (length ps) \<and> rp_piece_idx (ps ! i) = word_of_nat i
        \<and> rp_transaction_id (ps ! i) = rp_transaction_id (ps ! 0) \<and> rp_from_peer (ps ! i) = rp_from_peer (ps ! 0))"

definition merged :: "'d rpc_packet list \<Rightarrow> 'd rpc_packet" where
  "merged ps = (ps ! 0)\<lparr>rp_total_pieces := 1, rp_piece_idx := 0, rp_body := concat (map rp_body ps)\<rparr>"

lemma length_rpc_pieces:
  "length (rpc_pieces enc_len ldl args) = length (split_rpc_content_for_udp_budget enc_len ldl args)"
  by (simp add: rpc_pieces_def Let_def)

lemma nth_rpc_pieces:
  assumes "i < length (rpc_pieces enc_len ldl args)"
  shows "rpc_pieces enc_len ldl args ! i =
    build_rpc_piece args (word_of_nat (length (rpc_pieces enc_len ldl args))) (word_of_nat i)
      (piece_bytes (ba_content args) (split_rpc_content_for_udp_budget enc_len ldl args ! i))"
  using assms by (auto simp: rpc_pieces_def Let_def nth_enumerate_eq split: prod.splits)

lemma rpc_pieces_family:
  assumes "length (rpc_pieces enc_len ldl args) \<le> 32 * 1024"
  shows "piece_family (rpc_pieces enc_len ldl args)"
proof -
  have "rpc_pieces enc_len ldl args \<noteq> []"
    using split_nonempty [of enc_len ldl args] length_rpc_pieces [of enc_len ldl args] by force
  with assms show ?thesis
    by (auto simp: piece_family_def nth_rpc_pieces build_rpc_piece_def)
qed

lemma rpc_pieces_body: "concat (map rp_body (rpc_pieces enc_len ldl args)) = ba_content args"
proof -
  have "map rp_body (rpc_pieces enc_len ldl args) =
      map (piece_bytes (ba_content args)) (split_rpc_content_for_udp_budget enc_len ldl args)"
    by (rule nth_equalityI) (auto simp: length_rpc_pieces nth_rpc_pieces build_rpc_piece_def)
  then show ?thesis by (simp add: split_covers)
qed

lemma family_index:
  assumes "piece_family ps" "i < length ps"
  shows "unat (rp_piece_idx (ps ! i)) = i" "unat (rp_total_pieces (ps ! i)) = length ps"
proof -
  have "length ps \<le> 32768" "i < 32768"
    using assms by (auto simp: piece_family_def)
  then have "length ps < 2 ^ 32" "i < 2 ^ 32" by auto
  with assms show "unat (rp_piece_idx (ps ! i)) = i" "unat (rp_total_pieces (ps ! i)) = length ps"
    by (simp_all add: piece_family_def unsigned_of_nat take_bit_eq_mod)
qed

section \<open>The merger on a family\<close>

definition seen_pieces :: "'d rpc_packet list \<Rightarrow> 'd rpc_packet set \<Rightarrow> 'd rpc_packet list" where
  "seen_pieces ps S = map (\<lambda>p. if p \<in> S then p else rpc_packet_default) ps"

definition merger_holds :: "'d rpc_packet list \<Rightarrow> 'd rpc_packet set \<Rightarrow> 'd packet_merger \<Rightarrow> bool" where
  "merger_holds ps S m \<longleftrightarrow>
     (if S = {} then first_piece m = None \<and> pieces m = []
      else pieces m = seen_pieces ps S \<and> (\<exists>f. first_piece m = Some f
        \<and> rp_transaction_id f = rp_transaction_id (ps ! 0) \<and> rp_from_peer f = rp_from_peer (ps ! 0)))"

lemma family_distinct: "piece_family ps \<Longrightarrow> i < length ps \<Longrightarrow> j < length ps \<Longrightarrow> ps ! i = ps ! j \<Longrightarrow> i = j"
  using family_index by metis

lemma try_merge_seen:
  assumes fam: "piece_family ps" and S: "S \<subseteq> set ps" and m: "pieces m = seen_pieces ps S" "first_piece m \<noteq> None"
  shows "try_merge_pieces m = (if S = set ps then Some (merged ps) else None)"
proof (cases "S = set ps")
  case True
  then have "pieces m = ps" using m by (simp add: seen_pieces_def map_idI)
  moreover have "rp_total_pieces p \<noteq> 0" if "p \<in> set ps" for p
  proof -
    from that obtain i where i: "i < length ps" "p = ps ! i" by (metis in_set_conv_nth)
    with family_index(2) [OF fam i(1)] show ?thesis by (cases "rp_total_pieces p = 0") auto
  qed
  ultimately show ?thesis using True m(2) fam by (auto simp: try_merge_pieces_def merged_def piece_family_def)
next
  case False
  then obtain p where "p \<in> set ps" "p \<notin> S" using S by blast
  then have "rpc_packet_default \<in> set (pieces m)" by (force simp: m seen_pieces_def)
  then have "\<exists>p \<in> set (pieces m). rp_total_pieces p = 0" by (force simp: rpc_packet_default_def)
  with False show ?thesis by (simp add: try_merge_pieces_def)
qed

lemma feed_family:
  assumes fam: "piece_family ps" and S: "S \<subseteq> set ps" and m: "merger_holds ps S m" and p: "p \<in> set ps"
  shows "\<exists>m'. merger_feed now p m = (Inr (if insert p S = set ps then Some (merged ps) else None), m')
    \<and> merger_holds ps (insert p S) m'"
proof -
  obtain i where i: "i < length ps" "p = ps ! i" using p by (metis in_set_conv_nth)
  note idx = family_index [OF fam i(1), folded i(2)]
  have len: "length ps \<le> 32768" "ps \<noteq> []" using fam by (auto simp: piece_family_def)
  have same: "rp_transaction_id p = rp_transaction_id (ps ! 0)" "rp_from_peer p = rp_from_peer (ps ! 0)"
    using fam i unfolding piece_family_def by blast+
  define m1 where "m1 = (if starts_transaction m p then m\<lparr>first_piece := Some p, pieces := []\<rparr> else m)"
  define m2 where "m2 = m1\<lparr>pieces := (list_resize (length ps) rpc_packet_default (pieces m1))[i := p],
      last_updated := now\<rparr>"
  have res: "list_resize (length ps) rpc_packet_default (pieces m1) = seen_pieces ps S"
    and first: "\<exists>f. first_piece m1 = Some f \<and> rp_transaction_id f = rp_transaction_id (ps ! 0)
      \<and> rp_from_peer f = rp_from_peer (ps ! 0)"
    using m same by (auto simp: m1_def merger_holds_def starts_transaction_def list_resize_def seen_pieces_def
        map_replicate_const split: if_splits)
  have "ps ! j = p \<longleftrightarrow> j = i" if "j < length ps" for j
    using family_distinct [OF fam that i(1)] i(2) by blast
  then have "(seen_pieces ps S)[i := p] = seen_pieces ps (insert p S)"
    using i(1) by (intro nth_equalityI; simp add: seen_pieces_def) (auto simp: nth_list_update)
  then have m2: "pieces m2 = seen_pieces ps (insert p S)" by (simp add: m2_def res)
  have "rp_total_pieces p \<noteq> 0" "\<not> 32 * 1024 < rp_total_pieces p" "\<not> rp_total_pieces p \<le> rp_piece_idx p"
    using idx len i(1) by (auto simp: word_less_nat_alt word_le_nat_alt)
  moreover have "\<not> (rp_piece_idx p = 0 \<and> rp_descriptor p = None)"
    using idx(1) i(2) fam unfolding piece_family_def by (metis unsigned_0)
  ultimately have "merger_feed now p m = (Inr (try_merge_pieces m2), m2)"
    by (simp add: merger_feed_def Let_def m1_def [symmetric] m2_def idx)
  moreover have "try_merge_pieces m2 = (if insert p S = set ps then Some (merged ps) else None)"
    using S p first by (intro try_merge_seen [OF fam _ m2]) (auto simp: m2_def)
  ultimately show ?thesis
    using m2 first by (auto simp: merger_holds_def m2_def)
qed

fun feed_run :: "nat \<Rightarrow> 'd rpc_packet list \<Rightarrow> 'd packet_merger \<Rightarrow> (rpc_error + 'd rpc_packet option) list" where
  "feed_run now [] m = []"
| "feed_run now (p # ps) m = (let (r, m') = merger_feed now p m in r # feed_run now ps m')"

lemma feed_run_family:
  assumes fam: "piece_family ps"
  shows "S \<subseteq> set ps \<Longrightarrow> merger_holds ps S m \<Longrightarrow> set xs \<subseteq> set ps \<Longrightarrow>
    feed_run now xs m = map (\<lambda>k. Inr (if S \<union> set (take (Suc k) xs) = set ps then Some (merged ps) else None))
      [0..<length xs]"
proof (induction xs arbitrary: S m)
  case Nil
  then show ?case by simp
next
  case (Cons p xs)
  have "p \<in> set ps" using Cons.prems(3) by simp
  from feed_family [OF fam Cons.prems(1,2) this, of now]
  obtain m' where m': "merger_feed now p m = (Inr (if insert p S = set ps then Some (merged ps) else None), m')"
      "merger_holds ps (insert p S) m'"
    by blast
  have "feed_run now xs m' = map (\<lambda>k. Inr (if insert p S \<union> set (take (Suc k) xs) = set ps
      then Some (merged ps) else None)) [0..<length xs]"
    using Cons.IH [OF _ m'(2)] Cons.prems by simp
  moreover have "[0..<length (p # xs)] = 0 # map Suc [0..<length xs]"
    by (simp add: map_Suc_upt upt_conv_Cons del: upt_Suc)
  ultimately show ?case by (simp add: m'(1) comp_def del: upt_Suc)
qed

text \<open>
  C36: Splitting an RPC body and merging the pieces gives the body back. The pieces may arrive in any
  order and any number of times: every arrival is accepted, the merger stays silent while a piece is
  missing, and from the arrival that completes the set on it returns the first piece's message with
  the whole body. The body must fit the 32768 pieces the merger admits.
\<close>

theorem rpc_split_merge:
  fixes args :: "'d build_rpc_packet_args"
  assumes ps_def: "ps = rpc_pieces enc_len ldl args"
    and n: "length ps \<le> 32 * 1024" and xs: "set xs \<subseteq> set ps"
  shows "feed_run now xs (merger_new t0) =
      map (\<lambda>k. Inr (if set (take (Suc k) xs) = set ps
                    then Some (build_rpc_piece args 1 0 (ba_content args)) else None)) [0..<length xs]"
proof -
  have fam: "piece_family ps" using n by (simp add: ps_def rpc_pieces_family)
  then have "0 < length ps" by (simp add: piece_family_def)
  then have "ps ! 0 = build_rpc_piece args (word_of_nat (length ps)) 0
      (piece_bytes (ba_content args) (split_rpc_content_for_udp_budget enc_len ldl args ! 0))"
    using nth_rpc_pieces [of 0 enc_len ldl args] by (simp add: ps_def)
  then have "merged ps = build_rpc_piece args 1 0 (ba_content args)"
    using rpc_pieces_body [of enc_len ldl args] by (simp add: merged_def ps_def build_rpc_piece_def)
  with feed_run_family [OF fam _ _ xs, of "{}" "merger_new t0" now] show ?thesis
    by (simp add: merger_holds_def merger_new_def)
qed

definition sample_args :: "nat build_rpc_packet_args" where
  "sample_args = \<lparr>ba_from_peer = 1, ba_to_peer = 2, ba_rpc_desc = 9, ba_transaction_id = 77, ba_is_req = True,
     ba_content = [10, 11, 12], ba_trace_id = 0, ba_compression_info = \<lparr>ci_algo = 2, ci_accepted_algo = 2\<rparr>\<rparr>"

text \<open>With an encoding whose fixed part leaves room for two bytes, three bytes make two pieces.\<close>

lemma sample_pieces:
  "rpc_pieces (\<lambda>p. 1244) (\<lambda>_. 1) sample_args =
     [build_rpc_piece sample_args 2 0 [10, 11], build_rpc_piece sample_args 2 1 [12]]"
  by (simp add: rpc_pieces_def split_rpc_content_for_udp_budget_def sample_args_def split_loop.simps
      pick_piece_len_for_budget_def max_rpc_packet_encoded_len_for_udp_def udp_rpc_tunnel_overhead_def
      TAIL_RESERVED_SIZE_def COMPRESSOR_TAIL_SIZE_def offset_defs Let_def)

theorem rpc_split_merge_witness:
  "feed_run 5 [build_rpc_piece sample_args 2 1 [12], build_rpc_piece sample_args 2 0 [10, 11]] (merger_new 0) =
     [Inr None, Inr (Some (build_rpc_piece sample_args 1 0 [10, 11, 12]))]"
proof -
  have "build_rpc_piece sample_args 2 1 [12] \<noteq> build_rpc_piece sample_args 2 0 [10, 11]"
    by (simp add: build_rpc_piece_def)
  then show ?thesis
    using rpc_split_merge [OF sample_pieces [symmetric], of
        "[build_rpc_piece sample_args 2 1 [12], build_rpc_piece sample_args 2 0 [10, 11]]" 5 0]
    by (simp add: sample_pieces insert_commute doubleton_eq_iff) (simp add: sample_args_def)
qed

text \<open>
  What the negotiated compression of an RPC body makes of it. The transmitted body is never longer
  than the original, and the receiver recovers the original unless it was compressed and is longer
  than both 64 KiB and 32 times the transmitted form: such a body is sent compressed, but the receiver
  gives up after its five buffer sizes.
\<close>

theorem rpc_compress_roundtrip:
  assumes law: "bulk_law bc bd" and c: "compress_packet True bc accepted content = Inr (c, pb)"
  shows "length c \<le> length content \<and> decompress_packet True bd pb c =
    (if pb = Pb_None \<or> length content \<le> max (32 * length c) 65536 then Inr content
     else Inl (Inr Decompress_Attempts_Exhausted))"
proof (cases "usable_algo True accepted")
  case Algo_None
  with c show ?thesis by (auto simp: compress_packet_def compress_raw_def decompress_packet_def decompress_raw_def)
next
  case ZstdDefault
  with c obtain z where z: "compress_raw True bc content ZstdDefault = Inr z"
    and cp: "(c, pb) = (if length content \<le> length z then (content, Pb_None) else (z, Pb_Zstd))"
    by (auto simp: compress_packet_def Let_def split: sum.splits if_splits)
  show ?thesis
  proof (cases "length content \<le> length z")
    case True
    with cp show ?thesis by (simp add: decompress_packet_def decompress_raw_def)
  next
    case False
    with cp decompress_raw_exact [OF law z] show ?thesis by (simp add: decompress_packet_def)
  qed
qed

theorem rpc_compress_roundtrip_witness:
  "compress_packet True run_compress Pb_Zstd (replicate 40 0) = Inr ([1], Pb_Zstd)
   \<and> length [1 :: u8] \<le> length (replicate 40 (0 :: u8))
   \<and> decompress_packet True run_decompress Pb_Zstd [1] = Inr (replicate 40 0)"
proof -
  have c: "compress_packet True run_compress Pb_Zstd (replicate 40 0) = Inr ([1], Pb_Zstd)"
    by (simp add: compress_packet_def usable_algo_def compress_raw_def zstd_compress_def run_compress_def)
  with rpc_compress_roundtrip [OF run_law c] show ?thesis by simp
qed

end
