(* ===== verification/Encrypt.thy ===== *)
theory Encrypt
  imports Packet
begin

text \<open>
  Packet encryption, \<^verbatim>\<open>easytier-core/src/tunnel/encrypt\<close>: the XOR, null and unsupported ciphers, the
  four AEAD back ends (\<^verbatim>\<open>aes_gcm.rs\<close>, \<^verbatim>\<open>chacha20.rs\<close>, \<^verbatim>\<open>ring.rs\<close>, \<^verbatim>\<open>openssl.rs\<close>) and the choice
  between them. The AEAD primitives are external: \<open>seal\<close> maps an algorithm, key, nonce and plain text
  to a cipher text and a tag, \<open>open\<close> inverts it and checks the tag; each may fail. The nonce that
  the operating system would draw is the argument \<open>rnd\<close>. Offloading to a WASI host is not modelled.
\<close>

section \<open>Algorithms\<close>

datatype encryption_algorithm = Xor | AesGcm | Aes256Gcm | ChaCha20

datatype enc_error =
  PacketTooShort nat | DecryptionFailed | EncryptionFailed | InvalidAlgorithm string
| AlgorithmUnavailable string | Enc_Panic

type_synonym seal = "encryption_algorithm \<Rightarrow> bytes \<Rightarrow> bytes \<Rightarrow> bytes \<Rightarrow> (bytes \<times> bytes) option"
type_synonym open_fn = "encryption_algorithm \<Rightarrow> bytes \<Rightarrow> bytes \<Rightarrow> bytes \<Rightarrow> bytes \<Rightarrow> bytes option"

definition ascii_lower :: "char \<Rightarrow> char" where
  "ascii_lower c =
     (let n = (of_char c :: nat) in if 65 \<le> n \<and> n \<le> 90 then char_of (n + 32) else c)"

definition parse_algorithm :: "string \<Rightarrow> encryption_algorithm option" where
  "parse_algorithm s =
     (let l = map ascii_lower s in
      if l = ''xor'' then Some Xor
      else if l = ''aes-gcm'' \<or> l = ''openssl-aes-gcm'' then Some AesGcm
      else if l = ''aes-256-gcm'' \<or> l = ''openssl-aes-256-gcm'' then Some Aes256Gcm
      else if l = ''chacha20'' \<or> l = ''chacha20-poly1305'' \<or> l = ''openssl-chacha20'' then Some ChaCha20
      else None)"

fun algorithm_name :: "encryption_algorithm \<Rightarrow> string" where
  "algorithm_name Xor = ''xor''"
| "algorithm_name AesGcm = ''aes-gcm''"
| "algorithm_name Aes256Gcm = ''aes-256-gcm''"
| "algorithm_name ChaCha20 = ''chacha20''"

text \<open>The cargo features that select a back end.\<close>

record crypto_features =
  openssl_crypto :: bool
  ring_crypto :: bool
  aes_gcm_feature :: bool
  chacha20_feature :: bool

fun algorithm_is_available :: "crypto_features \<Rightarrow> encryption_algorithm \<Rightarrow> bool" where
  "algorithm_is_available cf Xor = True"
| "algorithm_is_available cf AesGcm = (aes_gcm_feature cf \<or> openssl_crypto cf \<or> ring_crypto cf)"
| "algorithm_is_available cf Aes256Gcm = (aes_gcm_feature cf \<or> openssl_crypto cf \<or> ring_crypto cf)"
| "algorithm_is_available cf ChaCha20 = (chacha20_feature cf \<or> openssl_crypto cf \<or> ring_crypto cf)"

definition is_aead_algorithm :: "encryption_algorithm \<Rightarrow> bool" where
  "is_aead_algorithm a \<longleftrightarrow> a \<in> {AesGcm, Aes256Gcm, ChaCha20}"

datatype aead_backend = OpenSsl | Ring | RustCrypto

definition preferred_aead_backend :: "crypto_features \<Rightarrow> encryption_algorithm \<Rightarrow> aead_backend option" where
  "preferred_aead_backend cf a =
     (if openssl_crypto cf then (if is_aead_algorithm a then Some OpenSsl else None)
      else if ring_crypto cf then (if is_aead_algorithm a then Some Ring else None)
      else if aes_gcm_feature cf \<or> chacha20_feature cf
        then (if is_aead_algorithm a \<and> algorithm_is_available cf a then Some RustCrypto else None)
      else None)"

definition validate_algorithm :: "crypto_features \<Rightarrow> string \<Rightarrow> enc_error + unit" where
  "validate_algorithm cf s =
     (case parse_algorithm s of
        None \<Rightarrow> Inl (InvalidAlgorithm s)
      | Some a \<Rightarrow> if algorithm_is_available cf a then Inr () else Inl (AlgorithmUnavailable (algorithm_name a)))"

definition effective_algorithm_uses_xor :: "string \<Rightarrow> bool" where
  "effective_algorithm_uses_xor s = (parse_algorithm s = Some Xor)"

section \<open>Keys from a network secret\<close>

text \<open>The standard library's hasher is the argument \<open>h\<close>: the digest of the writes made so far.\<close>

definition derive_key_128 :: "(bytes list \<Rightarrow> u64) \<Rightarrow> bytes \<Rightarrow> bytes" where
  "derive_key_128 h secret =
     (let a = u64_be (h [secret]); b = u64_be (h [secret, a]) in a @ b)"

definition KEY_256_LABEL :: bytes where
  "KEY_256_LABEL = map of_char ''easytier-256bit-key''"

fun derive_chunks :: "(bytes list \<Rightarrow> u64) \<Rightarrow> bytes list \<Rightarrow> bytes \<Rightarrow> nat list \<Rightarrow> bytes" where
  "derive_chunks h writes key [] = key"
| "derive_chunks h writes key (i # is) =
     (let writes' = writes @ [take (i * 8) key, [word_of_nat i]]
      in derive_chunks h writes' (key @ u64_be (h writes')) is)"

definition derive_key_256 :: "(bytes list \<Rightarrow> u64) \<Rightarrow> bytes \<Rightarrow> bytes" where
  "derive_key_256 h secret = derive_chunks h [secret, KEY_256_LABEL] [] [0..<4]"

section \<open>XOR, null and unsupported ciphers\<close>

definition write_payload :: "bytes \<Rightarrow> zc_packet \<Rightarrow> zc_packet" where
  "write_payload pl p = p\<lparr>inner := take (payload_offset p) (inner p) @ pl\<rparr>"

definition xor_data :: "bytes \<Rightarrow> bytes \<Rightarrow> bytes" where
  "xor_data key data = map (\<lambda>(i, b). b XOR key ! (i mod length key)) (enumerate 0 data)"

definition xor_apply :: "bytes \<Rightarrow> bool \<Rightarrow> zc_packet \<Rightarrow> enc_error + zc_packet" where
  "xor_apply key b p =
     (case payload p of
        None \<Rightarrow> Inl Enc_Panic
      | Some pl \<Rightarrow>
          (case mut_peer_manager_header (set_encrypted b) (write_payload (xor_data key pl) p) of
             None \<Rightarrow> Inl Enc_Panic | Some q \<Rightarrow> Inr q))"

definition xor_decrypt :: "bytes \<Rightarrow> zc_packet \<Rightarrow> enc_error + zc_packet" where
  "xor_decrypt key p =
     (case peer_manager_header p of
        None \<Rightarrow> Inl Enc_Panic
      | Some h \<Rightarrow> if \<not> is_encrypted h then Inr p else xor_apply key False p)"

definition xor_encrypt :: "bytes \<Rightarrow> zc_packet \<Rightarrow> enc_error + zc_packet" where
  "xor_encrypt key p =
     (case peer_manager_header p of
        None \<Rightarrow> Inl Enc_Panic
      | Some h \<Rightarrow> if is_encrypted h then Inr p else xor_apply key True p)"

definition null_decrypt :: "zc_packet \<Rightarrow> enc_error + zc_packet" where
  "null_decrypt p =
     (case peer_manager_header p of
        None \<Rightarrow> Inl Enc_Panic
      | Some h \<Rightarrow> if is_encrypted h then Inl DecryptionFailed else Inr p)"

definition null_encrypt :: "zc_packet \<Rightarrow> enc_error + zc_packet" where
  "null_encrypt p = Inr p"

definition unsupported_error :: "string \<Rightarrow> bool \<Rightarrow> enc_error" where
  "unsupported_error a unavailable = (if unavailable then AlgorithmUnavailable a else InvalidAlgorithm a)"

section \<open>AEAD back ends\<close>

text \<open>\<^verbatim>\<open>StandardAeadTail::ref_from_suffix\<close>: sixteen bytes of tag, then twelve of nonce.\<close>

definition aead_tail :: "bytes \<Rightarrow> (bytes \<times> bytes) option" where
  "aead_tail pl =
     (if length pl < AEAD_TAIL_SIZE then None
      else let t = drop (length pl - AEAD_TAIL_SIZE) pl in Some (take AEAD_TAG_SIZE t, drop AEAD_TAG_SIZE t))"

text \<open>The nonce of an encryption: a given one must be twelve bytes long.\<close>

definition pick_nonce :: "bytes \<Rightarrow> bytes option \<Rightarrow> bytes option" where
  "pick_nonce rnd nonce = (case nonce of None \<Rightarrow> Some rnd | Some n \<Rightarrow> if length n = AEAD_NONCE_SIZE then Some n else None)"

definition finish_encrypt :: "bytes \<Rightarrow> bytes \<Rightarrow> bytes \<Rightarrow> zc_packet \<Rightarrow> enc_error + zc_packet" where
  "finish_encrypt ct tag nonce p =
     (case mut_peer_manager_header (set_encrypted True) (write_payload ct p) of
        None \<Rightarrow> Inl Enc_Panic
      | Some q \<Rightarrow> Inr (q\<lparr>inner := inner q @ tag @ nonce\<rparr>))"

definition finish_decrypt :: "nat \<Rightarrow> bytes \<Rightarrow> bytes \<Rightarrow> zc_packet \<Rightarrow> enc_error + zc_packet" where
  "finish_decrypt drop_len text rest p =
     (case mut_peer_manager_header (set_encrypted False) (write_payload (text @ rest) p) of
        None \<Rightarrow> Inl Enc_Panic
      | Some q \<Rightarrow> Inr (q\<lparr>inner := take (buf_len q - drop_len) (inner q)\<rparr>))"

definition aes_gcm_decrypt :: "open_fn \<Rightarrow> encryption_algorithm \<Rightarrow> bytes \<Rightarrow> zc_packet \<Rightarrow> enc_error + zc_packet" where
  "aes_gcm_decrypt open alg key p =
     (case peer_manager_header p of
        None \<Rightarrow> Inl Enc_Panic
      | Some h \<Rightarrow>
          if \<not> is_encrypted h then Inr p
          else (case payload p of
            None \<Rightarrow> Inl Enc_Panic
          | Some pl \<Rightarrow>
              if length pl < AEAD_TAIL_SIZE then Inl (PacketTooShort (length pl))
              else (let text_len = length pl - AEAD_TAIL_SIZE in
                case aead_tail pl of
                  None \<Rightarrow> Inl Enc_Panic
                | Some (tag, nonce) \<Rightarrow>
                    (case open alg key nonce (take text_len pl) tag of
                       None \<Rightarrow> Inl DecryptionFailed
                     | Some text \<Rightarrow> finish_decrypt AEAD_TAIL_SIZE text (drop text_len pl) p))))"

definition aes_gcm_encrypt ::
  "seal \<Rightarrow> bytes \<Rightarrow> encryption_algorithm \<Rightarrow> bytes \<Rightarrow> bytes option \<Rightarrow> zc_packet \<Rightarrow> enc_error + zc_packet" where
  "aes_gcm_encrypt seal rnd alg key nonce p =
     (case peer_manager_header p of
        None \<Rightarrow> Inl Enc_Panic
      | Some h \<Rightarrow>
          if is_encrypted h then Inr p
          else (case pick_nonce rnd nonce of
            None \<Rightarrow> Inl EncryptionFailed
          | Some n \<Rightarrow>
              (case payload p of
                 None \<Rightarrow> Inl Enc_Panic
               | Some pl \<Rightarrow>
                   (case seal alg key n pl of
                      None \<Rightarrow> Inl EncryptionFailed
                    | Some (ct, tag) \<Rightarrow> finish_encrypt ct tag n p))))"

definition chacha20_decrypt :: "open_fn \<Rightarrow> bytes \<Rightarrow> zc_packet \<Rightarrow> enc_error + zc_packet" where
  "chacha20_decrypt open key p =
     (case peer_manager_header p of
        None \<Rightarrow> Inl Enc_Panic
      | Some h \<Rightarrow>
          if \<not> is_encrypted h then Inr p
          else (case payload p of
            None \<Rightarrow> Inl Enc_Panic
          | Some pl \<Rightarrow>
              if length pl < AEAD_TAIL_SIZE then Inl (PacketTooShort (length pl))
              else (let text_len = length pl - AEAD_TAIL_SIZE in
                case aead_tail pl of
                  None \<Rightarrow> Inl Enc_Panic
                | Some (tag, nonce) \<Rightarrow>
                    (case open ChaCha20 key nonce (take text_len pl) tag of
                       None \<Rightarrow> Inl DecryptionFailed
                     | Some text \<Rightarrow> finish_decrypt AEAD_TAIL_SIZE text (drop text_len pl) p))))"

definition chacha20_encrypt :: "seal \<Rightarrow> bytes \<Rightarrow> bytes \<Rightarrow> bytes option \<Rightarrow> zc_packet \<Rightarrow> enc_error + zc_packet" where
  "chacha20_encrypt seal rnd key nonce p =
     (case peer_manager_header p of
        None \<Rightarrow> Inl Enc_Panic
      | Some h \<Rightarrow>
          if is_encrypted h then Inr p
          else (case pick_nonce rnd nonce of
            None \<Rightarrow> Inl EncryptionFailed
          | Some n \<Rightarrow>
              (case payload p of
                 None \<Rightarrow> Inl Enc_Panic
               | Some pl \<Rightarrow>
                   (case seal ChaCha20 key n pl of
                      None \<Rightarrow> Inl EncryptionFailed
                    | Some (ct, tag) \<Rightarrow> finish_encrypt ct tag n p))))"

text \<open>\<^verbatim>\<open>ring\<close> opens a buffer that holds the cipher text followed by the tag.\<close>

definition ring_open_in_place ::
  "open_fn \<Rightarrow> encryption_algorithm \<Rightarrow> bytes \<Rightarrow> bytes \<Rightarrow> bytes \<Rightarrow> bytes option" where
  "ring_open_in_place open alg key nonce buf =
     (let n = length buf - AEAD_TAG_SIZE in open alg key nonce (take n buf) (drop n buf))"

definition ring_decrypt :: "open_fn \<Rightarrow> encryption_algorithm \<Rightarrow> bytes \<Rightarrow> zc_packet \<Rightarrow> enc_error + zc_packet" where
  "ring_decrypt open alg key p =
     (case peer_manager_header p of
        None \<Rightarrow> Inl Enc_Panic
      | Some h \<Rightarrow>
          if \<not> is_encrypted h then Inr p
          else (case payload p of
            None \<Rightarrow> Inl Enc_Panic
          | Some pl \<Rightarrow>
              if length pl < AEAD_TAIL_SIZE then Inl (PacketTooShort (length pl))
              else (let text_and_tag_len = length pl - AEAD_TAIL_SIZE + AEAD_TAG_SIZE in
                case aead_tail pl of
                  None \<Rightarrow> Inl Enc_Panic
                | Some (_, nonce) \<Rightarrow>
                    (case ring_open_in_place open alg key nonce (take text_and_tag_len pl) of
                       None \<Rightarrow> Inl DecryptionFailed
                     | Some text \<Rightarrow>
                         finish_decrypt AEAD_TAIL_SIZE text (drop (length pl - AEAD_TAIL_SIZE) pl) p))))"

definition ring_encrypt ::
  "seal \<Rightarrow> bytes \<Rightarrow> encryption_algorithm \<Rightarrow> bytes \<Rightarrow> bytes option \<Rightarrow> zc_packet \<Rightarrow> enc_error + zc_packet" where
  "ring_encrypt seal rnd alg key nonce p =
     (case peer_manager_header p of
        None \<Rightarrow> Inl Enc_Panic
      | Some h \<Rightarrow>
          if is_encrypted h then Inr p
          else (case pick_nonce rnd nonce of
            None \<Rightarrow> Inl EncryptionFailed
          | Some n \<Rightarrow>
              (case payload p of
                 None \<Rightarrow> Inl Enc_Panic
               | Some pl \<Rightarrow>
                   (case seal alg key n pl of
                      None \<Rightarrow> Inl EncryptionFailed
                    | Some (ct, tag) \<Rightarrow> finish_encrypt ct tag n p))))"

text \<open>
  The OpenSSL back end collects the output of \<^verbatim>\<open>update\<close> and \<^verbatim>\<open>finalize\<close> and copies the bytes written
  over the front of the payload, which panics when there are more of them than payload.
\<close>

definition openssl_decrypt :: "open_fn \<Rightarrow> encryption_algorithm \<Rightarrow> bytes \<Rightarrow> zc_packet \<Rightarrow> enc_error + zc_packet" where
  "openssl_decrypt open alg key p =
     (case peer_manager_header p of
        None \<Rightarrow> Inl Enc_Panic
      | Some h \<Rightarrow>
          if \<not> is_encrypted h then Inr p
          else (case payload p of
            None \<Rightarrow> Inl Enc_Panic
          | Some pl \<Rightarrow>
              if length pl < AEAD_TAIL_SIZE then Inl (PacketTooShort (length pl))
              else (case aead_tail pl of
                  None \<Rightarrow> Inl Enc_Panic
                | Some (tag, nonce) \<Rightarrow>
                    (case open alg key nonce (take (length pl - AEAD_TAIL_SIZE) pl) tag of
                       None \<Rightarrow> Inl DecryptionFailed
                     | Some output \<Rightarrow>
                         let written = length output in
                         if length pl < written then Inl Enc_Panic
                         else finish_decrypt (length pl - written) output (drop written pl) p))))"

definition openssl_encrypt ::
  "seal \<Rightarrow> bytes \<Rightarrow> encryption_algorithm \<Rightarrow> bytes \<Rightarrow> bytes option \<Rightarrow> zc_packet \<Rightarrow> enc_error + zc_packet" where
  "openssl_encrypt seal rnd alg key nonce p =
     (case peer_manager_header p of
        None \<Rightarrow> Inl Enc_Panic
      | Some h \<Rightarrow>
          if is_encrypted h then Inr p
          else (case pick_nonce rnd nonce of
            None \<Rightarrow> Inl EncryptionFailed
          | Some n \<Rightarrow>
              (case payload p of
                 None \<Rightarrow> Inl Enc_Panic
               | Some pl \<Rightarrow>
                   (case seal alg key n pl of
                      None \<Rightarrow> Inl EncryptionFailed
                    | Some (output, tag) \<Rightarrow>
                        let written = length output in
                        if length pl < written then Inl Enc_Panic
                        else finish_encrypt (output @ drop written pl) tag n p))))"

section \<open>Choosing a cipher\<close>

datatype encryptor =
  Enc_Null
| Enc_Xor bytes
| Enc_Aead aead_backend encryption_algorithm bytes
| Enc_Unsupported string bool

definition create_aead :: "crypto_features \<Rightarrow> encryption_algorithm \<Rightarrow> bytes \<Rightarrow> encryptor" where
  "create_aead cf alg key =
     (case preferred_aead_backend cf alg of
        Some OpenSsl \<Rightarrow> Enc_Aead OpenSsl alg key
      | Some Ring \<Rightarrow> Enc_Aead Ring alg key
      | Some RustCrypto \<Rightarrow>
          if (if alg = ChaCha20 then chacha20_feature cf else aes_gcm_feature cf)
          then Enc_Aead RustCrypto alg key else Enc_Unsupported (algorithm_name alg) True
      | None \<Rightarrow> Enc_Unsupported (algorithm_name alg) True)"

definition create_aes_128 :: "crypto_features \<Rightarrow> bytes \<Rightarrow> encryptor" where
  "create_aes_128 cf key = create_aead cf AesGcm key"

definition create_aes_256 :: "crypto_features \<Rightarrow> bytes \<Rightarrow> encryptor" where
  "create_aes_256 cf key = create_aead cf Aes256Gcm key"

definition create_chacha20 :: "crypto_features \<Rightarrow> bytes \<Rightarrow> encryptor" where
  "create_chacha20 cf key = create_aead cf ChaCha20 key"

definition create_encryptor :: "crypto_features \<Rightarrow> string \<Rightarrow> bytes \<Rightarrow> bytes \<Rightarrow> encryptor" where
  "create_encryptor cf name key_128 key_256 =
     (case parse_algorithm name of
        None \<Rightarrow> Enc_Unsupported name False
      | Some Xor \<Rightarrow> Enc_Xor key_128
      | Some AesGcm \<Rightarrow> create_aes_128 cf key_128
      | Some Aes256Gcm \<Rightarrow> create_aes_256 cf key_256
      | Some ChaCha20 \<Rightarrow> create_chacha20 cf key_256)"

fun enc_decrypt :: "open_fn \<Rightarrow> encryptor \<Rightarrow> zc_packet \<Rightarrow> enc_error + zc_packet" where
  "enc_decrypt open Enc_Null p = null_decrypt p"
| "enc_decrypt open (Enc_Xor key) p = xor_decrypt key p"
| "enc_decrypt open (Enc_Aead OpenSsl alg key) p = openssl_decrypt open alg key p"
| "enc_decrypt open (Enc_Aead Ring alg key) p = ring_decrypt open alg key p"
| "enc_decrypt open (Enc_Aead RustCrypto alg key) p =
     (if alg = ChaCha20 then chacha20_decrypt open key p else aes_gcm_decrypt open alg key p)"
| "enc_decrypt open (Enc_Unsupported a u) p = Inl (unsupported_error a u)"

text \<open>The trait's default \<^verbatim>\<open>encrypt_with_nonce\<close> ignores the nonce; the AEAD back ends override it.\<close>

fun encrypt_with_nonce ::
  "seal \<Rightarrow> bytes \<Rightarrow> encryptor \<Rightarrow> bytes option \<Rightarrow> zc_packet \<Rightarrow> enc_error + zc_packet" where
  "encrypt_with_nonce seal rnd Enc_Null nonce p = null_encrypt p"
| "encrypt_with_nonce seal rnd (Enc_Xor key) nonce p = xor_encrypt key p"
| "encrypt_with_nonce seal rnd (Enc_Aead OpenSsl alg key) nonce p = openssl_encrypt seal rnd alg key nonce p"
| "encrypt_with_nonce seal rnd (Enc_Aead Ring alg key) nonce p = ring_encrypt seal rnd alg key nonce p"
| "encrypt_with_nonce seal rnd (Enc_Aead RustCrypto alg key) nonce p =
     (if alg = ChaCha20 then chacha20_encrypt seal rnd key nonce p else aes_gcm_encrypt seal rnd alg key nonce p)"
| "encrypt_with_nonce seal rnd (Enc_Unsupported a u) nonce p = Inl (unsupported_error a u)"

section \<open>The AEAD contract\<close>

text \<open>
  Documented behaviour of the AEAD libraries: sealing keeps the length, gives a sixteen-byte tag, and
  opening inverts it under the same key and nonce; opening keeps the length.
\<close>

definition aead_law :: "seal \<Rightarrow> open_fn \<Rightarrow> bool" where
  "aead_law seal open \<longleftrightarrow>
     (\<forall>alg key n m c t. seal alg key n m = Some (c, t) \<longrightarrow>
        length c = length m \<and> length t = AEAD_TAG_SIZE \<and> open alg key n c t = Some m) \<and>
     (\<forall>alg key n c t m. open alg key n c t = Some m \<longrightarrow> length m = length c)"

lemma aead_lawD:
  assumes "aead_law seal open"
  shows "seal alg key n m = Some (c, t) \<Longrightarrow> length c = length m"
    and "seal alg key n m = Some (c, t) \<Longrightarrow> length t = AEAD_TAG_SIZE"
    and "seal alg key n m = Some (c, t) \<Longrightarrow> open alg key n c t = Some m"
    and "open alg key n c t = Some m \<Longrightarrow> length m = length c"
  using assms unfolding aead_law_def by blast+

section \<open>Ciphers on the packet layout\<close>

lemma is_encrypted_set [simp]: "is_encrypted (set_encrypted b h) = b"
  unfolding is_encrypted_def set_encrypted_def flag_exps by (simp add: flag_contains_put del: power_0)

lemma set_encrypted_back: "\<not> is_encrypted h \<Longrightarrow> set_encrypted False (set_encrypted True h) = h"
  using flag_put_remove_insert [of "flags h" 0]
  unfolding is_encrypted_def set_encrypted_def flag_exps by (simp del: power_0)

lemma write_payload_layout:
  assumes "packet_layout p pre h pl"
  shows "write_payload bs p = p\<lparr>inner := pre @ pm_header_bytes h @ bs\<rparr>"
    and "packet_layout (write_payload bs p) pre h bs"
  using assms by (simp_all add: packet_layout_def write_payload_def payload_offset_def payload_off_eq)

lemma finish_encrypt_layout:
  assumes "packet_layout p pre h pl"
  shows "finish_encrypt ct tag n p =
    Inr (p\<lparr>inner := pre @ pm_header_bytes (set_encrypted True h) @ ct @ tag @ n\<rparr>)"
  using layout_mut_header [OF write_payload_layout(2) [OF assms, of ct]] write_payload_layout(1) [OF assms]
  by (simp add: finish_encrypt_def)

lemma finish_decrypt_layout:
  assumes "packet_layout p pre h pl" "k \<le> length (text @ rest)"
  shows "finish_decrypt k text rest p =
    Inr (p\<lparr>inner := pre @ pm_header_bytes (set_encrypted False h) @ take (length (text @ rest) - k) (text @ rest)\<rparr>)"
proof -
  have "length pre + (PEER_MANAGER_HEADER_SIZE + length (text @ rest)) - k - length pre - PEER_MANAGER_HEADER_SIZE
      = length (text @ rest) - k"
    by simp
  with assms layout_mut_header [OF write_payload_layout(2) [OF assms(1), of "text @ rest"]]
    write_payload_layout(1) [OF assms(1)]
  show ?thesis by (simp add: finish_decrypt_def buf_len_def take_append)
qed

lemma aead_tail_split:
  "length tag = AEAD_TAG_SIZE \<Longrightarrow> length n = AEAD_NONCE_SIZE \<Longrightarrow> aead_tail (ct @ tag @ n) = Some (tag, n)"
  by (simp add: aead_tail_def AEAD_TAIL_SIZE_def)

lemma aead_tail_Some:
  assumes "aead_tail pl = Some (tag, n)"
  shows "pl = take (length pl - AEAD_TAIL_SIZE) pl @ tag @ n" "length tag = AEAD_TAG_SIZE"
    "length n = AEAD_NONCE_SIZE"
proof -
  let ?d = "drop (length pl - AEAD_TAIL_SIZE) pl"
  have len: "AEAD_TAIL_SIZE \<le> length pl" and tn: "tag = take AEAD_TAG_SIZE ?d" "n = drop AEAD_TAG_SIZE ?d"
    using assms by (auto simp: aead_tail_def Let_def split: if_splits)
  have "tag @ n = ?d" unfolding tn by (rule append_take_drop_id)
  then show "pl = take (length pl - AEAD_TAIL_SIZE) pl @ tag @ n" by simp
  have "length ?d = AEAD_TAG_SIZE + AEAD_NONCE_SIZE" using len by (simp add: AEAD_TAIL_SIZE_def)
  then show "length tag = AEAD_TAG_SIZE" "length n = AEAD_NONCE_SIZE"
    by (simp_all only: tn length_take length_drop)
qed

section \<open>The back ends agree\<close>

lemma chacha20_is_aes_gcm:
  "chacha20_decrypt open key p = aes_gcm_decrypt open ChaCha20 key p"
  "chacha20_encrypt seal rnd key nonce p = aes_gcm_encrypt seal rnd ChaCha20 key nonce p"
  by (simp_all add: chacha20_decrypt_def aes_gcm_decrypt_def chacha20_encrypt_def aes_gcm_encrypt_def)

lemma ring_open_eq:
  assumes "\<not> length pl < AEAD_TAIL_SIZE" "aead_tail pl = Some (tag, n)"
  shows "ring_open_in_place open alg key n (take (length pl + AEAD_TAG_SIZE - AEAD_TAIL_SIZE) pl) =
    open alg key n (take (length pl - AEAD_TAIL_SIZE) pl) tag"
proof -
  let ?t = "length pl - AEAD_TAIL_SIZE"
  have "tag = take AEAD_TAG_SIZE (drop ?t pl)"
    using assms by (auto simp: aead_tail_def Let_def)
  then have "take (?t + AEAD_TAG_SIZE) pl = take ?t pl @ tag" by (simp only: take_add)
  moreover have "?t + AEAD_TAG_SIZE = length pl + AEAD_TAG_SIZE - AEAD_TAIL_SIZE" using assms(1) by simp
  moreover have "length (take ?t pl) = ?t" by simp
  ultimately show ?thesis
    using aead_tail_Some(2) [OF assms(2)] by (simp add: ring_open_in_place_def Let_def)
qed

lemma ring_is_aes_gcm:
  "ring_decrypt open alg key p = aes_gcm_decrypt open alg key p"
  "ring_encrypt seal rnd alg key nonce p = aes_gcm_encrypt seal rnd alg key nonce p"
  by (auto simp: ring_decrypt_def aes_gcm_decrypt_def ring_encrypt_def aes_gcm_encrypt_def Let_def
      ring_open_eq split: option.splits)

lemma openssl_is_aes_gcm:
  assumes "aead_law seal open"
  shows "openssl_decrypt open alg key p = aes_gcm_decrypt open alg key p"
    and "openssl_encrypt seal rnd alg key nonce p = aes_gcm_encrypt seal rnd alg key nonce p"
proof -
  have dec: "(if length pl < length out then Inl Enc_Panic
        else finish_decrypt (length pl - length out) out (drop (length out) pl) p) =
      finish_decrypt AEAD_TAIL_SIZE out (drop (length pl - AEAD_TAIL_SIZE) pl) p"
    if "open alg key n (take (length pl - AEAD_TAIL_SIZE) pl) tag = Some out" "\<not> length pl < AEAD_TAIL_SIZE"
    for pl out n tag
  proof -
    have "length out = length pl - AEAD_TAIL_SIZE" using aead_lawD(4) [OF assms that(1)] by simp
    moreover have "length pl - (length pl - AEAD_TAIL_SIZE) = AEAD_TAIL_SIZE" using that(2) by simp
    moreover have "\<not> length pl < length pl - AEAD_TAIL_SIZE" by simp
    ultimately show ?thesis by simp
  qed
  show "openssl_decrypt open alg key p = aes_gcm_decrypt open alg key p"
    by (simp add: openssl_decrypt_def aes_gcm_decrypt_def Let_def dec cong: if_cong split: option.split)
  have enc: "(if length pl < length ct then Inl Enc_Panic else finish_encrypt (ct @ drop (length ct) pl) tag n p) =
      finish_encrypt ct tag n p" if "seal alg key n pl = Some (ct, tag)" for pl ct tag n
    using aead_lawD(1) [OF assms that] by simp
  show "openssl_encrypt seal rnd alg key nonce p = aes_gcm_encrypt seal rnd alg key nonce p"
    by (simp add: openssl_encrypt_def aes_gcm_encrypt_def Let_def enc split: option.split)
qed

text \<open>
  The four AEAD back ends are interchangeable: for the same algorithm and key they make the same
  packet, bit for bit, from every packet, in both directions, errors included. Peers built with
  different cargo features therefore understand each other.
\<close>

theorem aead_backends_agree:
  assumes "aead_law seal open"
  shows "enc_decrypt open (Enc_Aead b alg key) p = enc_decrypt open (Enc_Aead b' alg key) p
    \<and> encrypt_with_nonce seal rnd (Enc_Aead b alg key) nonce p = encrypt_with_nonce seal rnd (Enc_Aead b' alg key) nonce p"
  by (cases b; cases b') (simp_all add: chacha20_is_aes_gcm ring_is_aes_gcm openssl_is_aes_gcm [OF assms])

section \<open>The interface of a packet cipher\<close>

text \<open>
  What the tunnels rely on, for a cipher in an admissible configuration: encrypting marks a packet,
  decrypting undoes it, and a packet that already has the wanted mark is passed through.
\<close>

locale packet_cipher =
  fixes ok :: "'k \<Rightarrow> bool"
    and enc :: "'k \<Rightarrow> zc_packet \<Rightarrow> enc_error + zc_packet"
    and dec :: "'k \<Rightarrow> zc_packet \<Rightarrow> enc_error + zc_packet"
  assumes enc_marks: "ok k \<Longrightarrow> peer_manager_header p = Some h \<Longrightarrow> \<not> is_encrypted h \<Longrightarrow> enc k p = Inr q
      \<Longrightarrow> peer_manager_header q = Some (set_encrypted True h)"
    and dec_enc: "ok k \<Longrightarrow> peer_manager_header p = Some h \<Longrightarrow> \<not> is_encrypted h \<Longrightarrow> enc k p = Inr q
      \<Longrightarrow> dec k q = Inr p"
    and enc_marked: "ok k \<Longrightarrow> peer_manager_header p = Some h \<Longrightarrow> is_encrypted h \<Longrightarrow> enc k p = Inr p"
    and dec_plain: "ok k \<Longrightarrow> peer_manager_header p = Some h \<Longrightarrow> \<not> is_encrypted h \<Longrightarrow> dec k p = Inr p"
begin

lemma enc_twice:
  assumes "ok k" "peer_manager_header p = Some h" "enc k p = Inr q"
  shows "enc k q = Inr q"
proof (cases "is_encrypted h")
  case True
  with assms enc_marked [OF assms(1,2)] show ?thesis by simp
next
  case False
  from enc_marks [OF assms(1,2) False assms(3)] show ?thesis by (rule enc_marked [OF assms(1)]) simp
qed

lemma dec_twice:
  assumes "ok k" "peer_manager_header p = Some h" "\<not> is_encrypted h" "enc k p = Inr q"
  shows "\<exists>r. dec k q = Inr r \<and> dec k r = Inr p"
  using dec_enc [OF assms] dec_plain [OF assms(1-3)] by blast

end

type_synonym cipher_config = "seal \<times> open_fn \<times> bytes \<times> encryptor \<times> bytes option"

fun cipher_ok :: "cipher_config \<Rightarrow> bool" where
  "cipher_ok (seal, open, rnd, e, nonce) \<longleftrightarrow>
     aead_law seal open \<and> length rnd = AEAD_NONCE_SIZE \<and>
     (case e of Enc_Xor key \<Rightarrow> key \<noteq> [] | Enc_Aead _ _ _ \<Rightarrow> True | _ \<Rightarrow> False)"

fun cipher_enc :: "cipher_config \<Rightarrow> zc_packet \<Rightarrow> enc_error + zc_packet" where
  "cipher_enc (seal, open, rnd, e, nonce) p = encrypt_with_nonce seal rnd e nonce p"

fun cipher_dec :: "cipher_config \<Rightarrow> zc_packet \<Rightarrow> enc_error + zc_packet" where
  "cipher_dec (seal, open, rnd, e, nonce) p = enc_decrypt open e p"

lemma xor_data_twice: "xor_data key (xor_data key data) = data"
  by (rule nth_equalityI) (simp_all add: xor_data_def nth_enumerate_eq xor.assoc)

lemma xor_apply_layout:
  assumes "packet_layout p pre h pl"
  shows "xor_apply key b p = Inr (p\<lparr>inner := pre @ pm_header_bytes (set_encrypted b h) @ xor_data key pl\<rparr>)"
  using layout_payload [OF assms] layout_mut_header [OF write_payload_layout(2) [OF assms, of "xor_data key pl"]]
    write_payload_layout(1) [OF assms]
  by (simp add: xor_apply_def)

lemma aead_normal:
  assumes "aead_law seal open"
  shows "enc_decrypt open (Enc_Aead b alg key) p = aes_gcm_decrypt open alg key p"
    and "encrypt_with_nonce seal rnd (Enc_Aead b alg key) nonce p = aes_gcm_encrypt seal rnd alg key nonce p"
  by (cases b; simp add: chacha20_is_aes_gcm ring_is_aes_gcm openssl_is_aes_gcm [OF assms])+

lemma aead_encrypt_layout:
  assumes lay: "packet_layout p pre h pl" and "\<not> is_encrypted h" and "length rnd = AEAD_NONCE_SIZE"
    and "aes_gcm_encrypt seal rnd alg key nonce p = Inr q"
  shows "\<exists>n ct tag. pick_nonce rnd nonce = Some n \<and> length n = AEAD_NONCE_SIZE \<and> seal alg key n pl = Some (ct, tag)
    \<and> q = p\<lparr>inner := pre @ pm_header_bytes (set_encrypted True h) @ ct @ tag @ n\<rparr>"
  using assms(2-) layout_header [OF lay] layout_payload [OF lay] finish_encrypt_layout [OF lay]
  by (auto simp: aes_gcm_encrypt_def pick_nonce_def split: option.splits if_splits)

lemma aead_decrypt_layout:
  assumes lay: "packet_layout p pre h (ct @ tag @ n)" and "is_encrypted h"
    and len: "length tag = AEAD_TAG_SIZE" "length n = AEAD_NONCE_SIZE" "length m = length ct"
    and "open alg key n ct tag = Some m"
  shows "aes_gcm_decrypt open alg key p = Inr (p\<lparr>inner := pre @ pm_header_bytes (set_encrypted False h) @ m\<rparr>)"
proof -
  have "length (ct @ tag @ n) - AEAD_TAIL_SIZE = length ct" using len by (simp add: AEAD_TAIL_SIZE_def)
  with assms layout_header [OF lay] layout_payload [OF lay] aead_tail_split [OF len(1,2), of ct]
    finish_decrypt_layout [OF lay, of AEAD_TAIL_SIZE m "tag @ n"]
  show ?thesis by (simp add: aes_gcm_decrypt_def AEAD_TAIL_SIZE_def)
qed

lemma cipher_enc_dec:
  assumes ok: "cipher_ok k" and h: "peer_manager_header p = Some h" "\<not> is_encrypted h" and e: "cipher_enc k p = Inr q"
  shows "peer_manager_header q = Some (set_encrypted True h)" "cipher_dec k q = Inr p"
proof -
  obtain seal "open" rnd c nonce where k: "k = (seal, open, rnd, c, nonce)" by (cases k) auto
  obtain pre pl where lay: "packet_layout p pre h pl" using h(1) peer_manager_header_layout by blast
  have "peer_manager_header q = Some (set_encrypted True h) \<and> cipher_dec k q = Inr p"
  proof (cases c)
    case (Enc_Xor key)
    let ?q = "p\<lparr>inner := pre @ pm_header_bytes (set_encrypted True h) @ xor_data key pl\<rparr>"
    have q: "q = ?q" using e k Enc_Xor h xor_apply_layout [OF lay] by (simp add: xor_encrypt_def)
    have ql: "packet_layout ?q pre (set_encrypted True h) (xor_data key pl)" using lay by (rule layout_mut_layout)
    show ?thesis
      using layout_header [OF ql] xor_apply_layout [OF ql] lay k Enc_Xor h(2)
      by (simp add: q xor_decrypt_def xor_data_twice set_encrypted_back packet_layout_def)
  next
    case (Enc_Aead b alg key)
    have law: "aead_law seal open" and rnd: "length rnd = AEAD_NONCE_SIZE" using ok k by simp_all
    have "aes_gcm_encrypt seal rnd alg key nonce p = Inr q"
      using e aead_normal(2) [OF law, of rnd b alg key nonce p] by (simp add: k Enc_Aead)
    from aead_encrypt_layout [OF lay h(2) rnd this] obtain n ct tag where n: "length n = AEAD_NONCE_SIZE" and s: "seal alg key n pl = Some (ct, tag)"
      and q: "q = p\<lparr>inner := pre @ pm_header_bytes (set_encrypted True h) @ ct @ tag @ n\<rparr>"
      by blast
    have ql: "packet_layout q pre (set_encrypted True h) (ct @ tag @ n)"
      unfolding q using lay by (rule layout_mut_layout)
    have "aes_gcm_decrypt open alg key q = Inr (q\<lparr>inner := pre @ pm_header_bytes
        (set_encrypted False (set_encrypted True h)) @ pl\<rparr>)"
      using aead_lawD(1-3) [OF law s] n by (intro aead_decrypt_layout [OF ql]) simp_all
    then have "aes_gcm_decrypt open alg key q = Inr p"
      using lay h(2) by (simp add: q set_encrypted_back packet_layout_def)
    with layout_header [OF ql] aead_normal(1) [OF law, of b alg key q] show ?thesis
      by (simp add: k Enc_Aead)
  qed (use ok k in auto)
  then show "peer_manager_header q = Some (set_encrypted True h)" "cipher_dec k q = Inr p" by auto
qed

lemma cipher_pass:
  assumes "cipher_ok k" "peer_manager_header p = Some h"
  shows "is_encrypted h \<Longrightarrow> cipher_enc k p = Inr p" "\<not> is_encrypted h \<Longrightarrow> cipher_dec k p = Inr p"
proof -
  obtain seal "open" rnd c nonce where k: "k = (seal, open, rnd, c, nonce)" by (cases k) auto
  have law: "aead_law seal open" using assms(1) k by simp
  show "cipher_enc k p = Inr p" if "is_encrypted h"
    using that assms k by (cases c) (simp_all add: xor_encrypt_def aead_normal [OF law] aes_gcm_encrypt_def)
  show "cipher_dec k p = Inr p" if "\<not> is_encrypted h"
    using that assms k by (cases c) (simp_all add: xor_decrypt_def aead_normal [OF law] aes_gcm_decrypt_def)
qed

interpretation cipher: packet_cipher cipher_ok cipher_enc cipher_dec
  by (unfold_locales, erule (3) cipher_enc_dec(1), erule (3) cipher_enc_dec(2), erule (2) cipher_pass(1),
      erule (2) cipher_pass(2))

section \<open>Properties of the ciphers\<close>

text \<open>A small AEAD that satisfies the contract: complemented text under a constant tag.\<close>

definition toy_seal :: seal where
  "toy_seal alg key n m = Some (map (\<lambda>b. NOT b) m, replicate 16 7)"

definition toy_open :: open_fn where
  "toy_open alg key n c t = (if t = replicate 16 7 then Some (map (\<lambda>b. NOT b) c) else None)"

lemma toy_law: "aead_law toy_seal toy_open"
  by (auto simp: aead_law_def toy_seal_def toy_open_def AEAD_TAG_SIZE_def comp_def split: if_splits)

theorem aead_backends_agree_witness:
  "enc_decrypt toy_open (Enc_Aead OpenSsl AesGcm [1]) sample_packet = enc_decrypt toy_open (Enc_Aead Ring AesGcm [1]) sample_packet
    \<and> encrypt_with_nonce toy_seal (replicate 12 0) (Enc_Aead OpenSsl AesGcm [1]) None sample_packet =
      encrypt_with_nonce toy_seal (replicate 12 0) (Enc_Aead Ring AesGcm [1]) None sample_packet"
  by (rule aead_backends_agree) (rule toy_law)

lemma available_backend: "is_aead_algorithm a \<Longrightarrow> algorithm_is_available cf a \<Longrightarrow> \<exists>b. create_aead cf a key = Enc_Aead b a key"
  by (cases a) (auto simp: create_aead_def preferred_aead_backend_def is_aead_algorithm_def)

lemma create_encryptor_ok:
  assumes "validate_algorithm cf name = Inr ()" "aead_law seal open" "length rnd = AEAD_NONCE_SIZE" "k128 \<noteq> []"
  shows "cipher_ok (seal, open, rnd, create_encryptor cf name k128 k256, nonce)"
proof -
  obtain a where a: "parse_algorithm name = Some a" "algorithm_is_available cf a"
    using assms(1) by (auto simp: validate_algorithm_def split: option.splits if_splits)
  show ?thesis
  proof (cases "a = Xor")
    case True
    with a assms show ?thesis by (simp add: create_encryptor_def)
  next
    case False
    then have "is_aead_algorithm a" by (cases a) (simp_all add: is_aead_algorithm_def)
    then obtain b b' where "create_aead cf a k128 = Enc_Aead b a k128" "create_aead cf a k256 = Enc_Aead b' a k256"
      using available_backend [OF _ a(2)] by blast
    with a(1) assms False show ?thesis
      by (cases a) (simp_all add: create_encryptor_def create_aes_128_def create_aes_256_def create_chacha20_def)
  qed
qed

text \<open>
  C37: A cipher created for a valid, available algorithm name undoes its own encryption exactly: the
  decrypted packet is the original packet, the encrypted one carries the mark, and encrypting a marked
  packet again leaves it alone. This holds for every back end and for XOR, with a given or a drawn
  nonce.
\<close>

theorem encrypt_decrypt_roundtrip:
  assumes law: "aead_law seal open" and valid: "validate_algorithm cf name = Inr ()"
    and rnd: "length rnd = AEAD_NONCE_SIZE" "k128 \<noteq> []"
    and h: "peer_manager_header p = Some h" "\<not> is_encrypted h"
    and q: "encrypt_with_nonce seal rnd (create_encryptor cf name k128 k256) nonce p = Inr q"
  shows "enc_decrypt open (create_encryptor cf name k128 k256) q = Inr p
    \<and> peer_manager_header q = Some (set_encrypted True h)
    \<and> encrypt_with_nonce seal rnd (create_encryptor cf name k128 k256) nonce q = Inr q"
proof -
  let ?k = "(seal, open, rnd, create_encryptor cf name k128 k256, nonce)"
  note ok = create_encryptor_ok [OF valid law rnd, of k256 nonce]
  have e: "cipher_enc ?k p = Inr q" using q by simp
  from cipher.dec_enc [OF ok h e] cipher.enc_marks [OF ok h e] cipher.enc_twice [OF ok h(1) e]
  show ?thesis by simp
qed

definition default_features :: crypto_features where
  "default_features = \<lparr>openssl_crypto = False, ring_crypto = False, aes_gcm_feature = True, chacha20_feature = False\<rparr>"

lemma sample_not_encrypted: "\<not> is_encrypted sample_header"
  by (simp add: sample_header_def filled_header_def is_encrypted_def flag_contains_def ENCRYPTED_def)

lemma parse_aes_gcm: "parse_algorithm ''AES-gcm'' = Some AesGcm"
  by code_simp

theorem encrypt_decrypt_roundtrip_witness:
  "\<exists>q. encrypt_with_nonce toy_seal (replicate 12 0) (create_encryptor default_features ''AES-gcm'' [1] [2]) (Some (replicate 12 5)) sample_packet = Inr q
    \<and> enc_decrypt toy_open (create_encryptor default_features ''AES-gcm'' [1] [2]) q = Inr sample_packet"
proof -
  have v: "validate_algorithm default_features ''AES-gcm'' = Inr ()"
    by (simp add: validate_algorithm_def parse_aes_gcm default_features_def)
  let ?e = "create_encryptor default_features ''AES-gcm'' [1] [2]"
  have e: "?e = Enc_Aead RustCrypto AesGcm [1]"
    by (simp add: create_encryptor_def parse_aes_gcm create_aes_128_def create_aead_def
        preferred_aead_backend_def default_features_def is_aead_algorithm_def)
  obtain q where q: "encrypt_with_nonce toy_seal (replicate 12 0) ?e (Some (replicate 12 5)) sample_packet = Inr q"
    using layout_header [OF sample_layout] layout_payload [OF sample_layout] finish_encrypt_layout [OF sample_layout]
      sample_not_encrypted
    by (simp add: e aes_gcm_encrypt_def pick_nonce_def AEAD_NONCE_SIZE_def toy_seal_def)
  have "enc_decrypt toy_open ?e q = Inr sample_packet \<and> peer_manager_header q = Some (set_encrypted True sample_header)
    \<and> encrypt_with_nonce toy_seal (replicate 12 0) ?e (Some (replicate 12 5)) q = Inr q"
    by (rule encrypt_decrypt_roundtrip [OF toy_law v _ _ layout_header [OF sample_layout] sample_not_encrypted q])
      (simp_all add: AEAD_NONCE_SIZE_def)
  with q show ?thesis by blast
qed

text \<open>
  What an AEAD cipher accepts: a packet marked as encrypted is accepted exactly when its payload is
  cipher text, tag and nonce and the primitive authenticates them under the key, and then the text is
  the new payload; a packet without the mark is accepted as it is, with no authentication at all.
\<close>

theorem aead_decrypt_accepts:
  assumes law: "aead_law seal open" and h: "peer_manager_header p = Some h"
  shows "(\<exists>q. enc_decrypt open (Enc_Aead b alg key) p = Inr q \<and> payload q = Some m) \<longleftrightarrow>
    (if is_encrypted h then
       \<exists>ct tag n. payload p = Some (ct @ tag @ n) \<and> length tag = AEAD_TAG_SIZE \<and> length n = AEAD_NONCE_SIZE
         \<and> open alg key n ct tag = Some m
     else payload p = Some m)"
proof -
  obtain pre pl where lay: "packet_layout p pre h pl" using h peer_manager_header_layout by blast
  note pl = layout_payload [OF lay] and hd = layout_header [OF lay]
  show ?thesis
  proof (cases "is_encrypted h")
    case False
    with hd pl show ?thesis by (simp add: aead_normal [OF law] aes_gcm_decrypt_def)
  next
    case True
    have ok: "aes_gcm_decrypt open alg key p = Inr (p\<lparr>inner := pre @ pm_header_bytes (set_encrypted False h) @ m'\<rparr>)"
      if "pl = ct @ tag @ n" "length tag = AEAD_TAG_SIZE" "length n = AEAD_NONCE_SIZE" "open alg key n ct tag = Some m'"
      for ct tag n m'
      using aead_decrypt_layout [of p pre h ct tag n m' "open" alg key] lay True that aead_lawD(4) [OF law that(4)] by simp
    have new: "payload (p\<lparr>inner := pre @ pm_header_bytes (set_encrypted False h) @ m'\<rparr>) = Some m'" for m'
      by (rule layout_payload [OF layout_mut_layout [OF lay]])
    have inv: "\<exists>ct tag n m'. pl = ct @ tag @ n \<and> length tag = AEAD_TAG_SIZE \<and> length n = AEAD_NONCE_SIZE
        \<and> open alg key n ct tag = Some m'" if dq: "aes_gcm_decrypt open alg key p = Inr q" for q
    proof -
      obtain tag n m' where t: "aead_tail pl = Some (tag, n)"
        and o: "open alg key n (take (length pl - AEAD_TAIL_SIZE) pl) tag = Some m'"
        using dq True hd pl by (auto simp: aes_gcm_decrypt_def Let_def split: if_splits option.splits)
      with aead_tail_Some [OF t] show ?thesis by blast
    qed
    have "(\<exists>q. aes_gcm_decrypt open alg key p = Inr q \<and> payload q = Some m) \<longleftrightarrow>
      (\<exists>ct tag n. pl = ct @ tag @ n \<and> length tag = AEAD_TAG_SIZE \<and> length n = AEAD_NONCE_SIZE
         \<and> open alg key n ct tag = Some m)" (is "?L = ?R")
    proof
      assume ?L
      then obtain q where q: "aes_gcm_decrypt open alg key p = Inr q" "payload q = Some m" by blast
      from inv [OF q(1)] obtain ct tag n m' where s: "pl = ct @ tag @ n" "length tag = AEAD_TAG_SIZE"
        "length n = AEAD_NONCE_SIZE" "open alg key n ct tag = Some m'" by blast
      with ok [OF s] q new [of m'] have "m' = m" by simp
      with s show ?R by blast
    next
      assume ?R
      with ok new [of m] show ?L by blast
    qed
    with True pl show ?thesis by (simp add: aead_normal(1) [OF law])
  qed
qed

theorem aead_decrypt_accepts_witness:
  "peer_manager_header sample_packet = Some sample_header \<and> \<not> is_encrypted sample_header
   \<and> (\<exists>q. enc_decrypt toy_open (Enc_Aead Ring ChaCha20 [1]) sample_packet = Inr q \<and> payload q = Some [7, 8, 9])"
  using aead_decrypt_accepts [OF toy_law layout_header [OF sample_layout], of Ring ChaCha20 "[1]" "[7, 8, 9]"]
    layout_header [OF sample_layout] layout_payload [OF sample_layout] sample_not_encrypted
  by simp

end
