(* ===== verification/SecureDatagram.thy ===== *)
theory SecureDatagram
  imports ReplayWindow Encrypt
begin

text \<open>
  The encrypted datagram session of \<^verbatim>\<open>easytier-core/src/tunnel/secure_datagram.rs\<close>: traffic keys per
  epoch and direction with a small key cache, nonces from an epoch and a sequence number, replay
  protection with two epochs per direction and a grace period after a key synchronisation, and the
  encrypt and decrypt entry points. The record of atomics and mutexes is one record here and every
  entry point one step on it. The clock is the argument \<open>now\<close> in milliseconds; HMAC-SHA256 and the
  AEAD primitives are the fields of \<open>crypto_env\<close>.
\<close>

section \<open>State\<close>

datatype direction = AToB | BToA

fun dir_idx :: "direction \<Rightarrow> nat" where
  "dir_idx AToB = 0"
| "dir_idx BToA = 1"

text \<open>\<^verbatim>\<open>[T; 2]\<close> indexed by a direction.\<close>

fun dget :: "direction \<Rightarrow> 'a \<times> 'a \<Rightarrow> 'a" where
  "dget AToB a = fst a"
| "dget BToA a = snd a"

fun dset :: "direction \<Rightarrow> 'a \<Rightarrow> 'a \<times> 'a \<Rightarrow> 'a \<times> 'a" where
  "dset AToB x a = (x, snd a)"
| "dset BToA x a = (fst a, x)"

record epoch_key_slot =
  ks_epoch :: u32
  ks_generation :: u32
  ks_valid :: bool
  send_cipher :: "encryptor option"
  recv_cipher :: "encryptor option"

definition key_slot_default :: epoch_key_slot where
  "key_slot_default = \<lparr>ks_epoch = 0, ks_generation = 0, ks_valid = False, send_cipher = None, recv_cipher = None\<rparr>"

definition get_encryptor :: "bool \<Rightarrow> epoch_key_slot \<Rightarrow> encryptor option" where
  "get_encryptor is_send slot = (if is_send then send_cipher slot else recv_cipher slot)"

record epoch_rx_slot =
  rx_epoch :: u32
  rx_window :: replay_window
  last_rx_ms :: u64
  rx_valid :: bool

definition rx_slot_default :: epoch_rx_slot where
  "rx_slot_default = \<lparr>rx_epoch = 0, rx_window = window_default, last_rx_ms = 0, rx_valid = False\<rparr>"

definition rx_slot_clear :: "epoch_rx_slot \<Rightarrow> epoch_rx_slot" where
  "rx_slot_clear slot = slot\<lparr>rx_epoch := 0, rx_window := window_clear (rx_window slot), last_rx_ms := 0, rx_valid := False\<rparr>"

type_synonym slots = "epoch_rx_slot \<times> epoch_rx_slot"

record sync_rx_grace =
  gr_slots :: "slots \<times> slots"
  gr_expires_at_ms :: u64
  gr_valid :: bool

definition grace_default :: sync_rx_grace where
  "grace_default = \<lparr>gr_slots = ((rx_slot_default, rx_slot_default), (rx_slot_default, rx_slot_default)),
     gr_expires_at_ms = 0, gr_valid = False\<rparr>"

definition grace_clear :: "sync_rx_grace \<Rightarrow> sync_rx_grace" where
  "grace_clear g = g\<lparr>gr_slots := ((rx_slot_default, rx_slot_default), (rx_slot_default, rx_slot_default)),
     gr_expires_at_ms := 0, gr_valid := False\<rparr>"

definition grace_refresh :: "slots \<times> slots \<Rightarrow> u64 \<Rightarrow> sync_rx_grace \<Rightarrow> sync_rx_grace" where
  "grace_refresh sl expires g = g\<lparr>gr_slots := sl, gr_expires_at_ms := expires, gr_valid := True\<rparr>"

definition grace_maybe_expire :: "u64 \<Rightarrow> sync_rx_grace \<Rightarrow> sync_rx_grace" where
  "grace_maybe_expire now g = (if gr_valid g \<and> gr_expires_at_ms g \<le> now then grace_clear g else g)"

record session =
  root_key :: bytes
  session_generation :: u32
  send_epoch :: u32
  send_seq :: "u64 \<times> u64"
  send_epoch_started_ms :: u64
  send_packets_since_epoch :: u64
  rx_slots :: "slots \<times> slots"
  key_cache :: "(epoch_key_slot \<times> epoch_key_slot) \<times> (epoch_key_slot \<times> epoch_key_slot)"
  sync_grace :: sync_rx_grace
  sync_grace_expires_at_ms :: u64
  send_cipher_algorithm :: string
  recv_cipher_algorithm :: string
  invalidated :: bool
  decrypt_fail_count :: u32

record crypto_env =
  ce_hmac :: "bytes \<Rightarrow> bytes \<Rightarrow> bytes"
  ce_features :: crypto_features
  ce_seal :: seal
  ce_open :: open_fn

definition EVICT_IDLE_AFTER_MS :: u64 where "EVICT_IDLE_AFTER_MS = 30000"
definition SYNC_RX_GRACE_AFTER_MS :: u64 where "SYNC_RX_GRACE_AFTER_MS = 5000"
definition ROTATE_AFTER_PACKETS :: u64 where "ROTATE_AFTER_PACKETS = 1000000"
definition ROTATE_AFTER_MS :: u64 where "ROTATE_AFTER_MS = 10 * 60 * 1000"
definition MAX_ACCEPTED_RX_EPOCH_AHEAD :: u32 where "MAX_ACCEPTED_RX_EPOCH_AHEAD = 3"
definition DECRYPT_FAIL_THRESHOLD :: u32 where "DECRYPT_FAIL_THRESHOLD = 10"

definition session_new :: "u64 \<Rightarrow> bytes \<Rightarrow> u32 \<Rightarrow> u32 \<Rightarrow> string \<Rightarrow> string \<Rightarrow> session" where
  "session_new now root gen initial_epoch send_alg recv_alg =
     \<lparr>root_key = root, session_generation = gen, send_epoch = initial_epoch, send_seq = (0, 0),
      send_epoch_started_ms = now, send_packets_since_epoch = 0,
      rx_slots = ((rx_slot_default, rx_slot_default), (rx_slot_default, rx_slot_default)),
      key_cache = ((key_slot_default, key_slot_default), (key_slot_default, key_slot_default)),
      sync_grace = grace_default, sync_grace_expires_at_ms = 0,
      send_cipher_algorithm = send_alg, recv_cipher_algorithm = recv_alg,
      invalidated = False, decrypt_fail_count = 0\<rparr>"

definition invalidate :: "session \<Rightarrow> session" where
  "invalidate s = s\<lparr>invalidated := True\<rparr>"

definition is_valid :: "session \<Rightarrow> bool" where
  "is_valid s = (\<not> invalidated s)"

definition next_sync_epoch :: "session \<Rightarrow> u32" where
  "next_sync_epoch s =
     (let m = (\<lambda>slot e. if rx_valid slot then max e (rx_epoch slot) else e);
          pass = (\<lambda>sl e. m (snd sl) (m (fst sl) e))
      in pass (snd (rx_slots s)) (pass (fst (rx_slots s)) (send_epoch s)) + 1)"

definition check_encrypt_algo_same :: "string \<Rightarrow> string \<Rightarrow> session \<Rightarrow> bool" where
  "check_encrypt_algo_same send_alg recv_alg s \<longleftrightarrow>
     send_cipher_algorithm s = send_alg \<and> recv_cipher_algorithm s = recv_alg"

definition sync_root_key :: "u64 \<Rightarrow> bytes \<Rightarrow> u32 \<Rightarrow> u32 \<Rightarrow> bool \<Rightarrow> session \<Rightarrow> session" where
  "sync_root_key now root gen initial_epoch preserve_rx_grace s =
     (let can_preserve = preserve_rx_grace \<and> root_key s = root;
          expires = sat_add now SYNC_RX_GRACE_AFTER_MS;
          clear2 = (\<lambda>sl. (rx_slot_clear (fst sl), rx_slot_clear (snd sl)))
      in s\<lparr>root_key := root, session_generation := gen, send_epoch := initial_epoch, send_seq := (0, 0),
           send_epoch_started_ms := now, send_packets_since_epoch := 0,
           sync_grace := (if can_preserve then grace_refresh (rx_slots s) expires (sync_grace s)
                          else grace_clear (sync_grace s)),
           sync_grace_expires_at_ms := (if can_preserve then expires else 0),
           rx_slots := (clear2 (fst (rx_slots s)), clear2 (snd (rx_slots s))),
           key_cache := ((key_slot_default, key_slot_default), (key_slot_default, key_slot_default))\<rparr>)"

section \<open>Keys\<close>

definition TRAFFIC_LABEL :: bytes where
  "TRAFFIC_LABEL = map of_char ''et-traffic''"

definition hkdf_traffic_key :: "crypto_env \<Rightarrow> bytes \<Rightarrow> u32 \<Rightarrow> direction \<Rightarrow> bytes" where
  "hkdf_traffic_key env root epoch dir =
     (let prk = ce_hmac env (replicate 32 0) root;
          info = TRAFFIC_LABEL @ u32_be epoch @ [word_of_nat (dir_idx dir)];
          okm = ce_hmac env prk (info @ [1])
      in take 32 okm)"

definition slot_matches :: "u32 \<Rightarrow> u32 \<Rightarrow> epoch_key_slot \<Rightarrow> bool" where
  "slot_matches epoch gen slot \<longleftrightarrow> ks_valid slot \<and> ks_epoch slot = epoch \<and> ks_generation slot = gen"

definition fresh_key_slot :: "crypto_env \<Rightarrow> u32 \<Rightarrow> direction \<Rightarrow> u32 \<Rightarrow> session \<Rightarrow> epoch_key_slot" where
  "fresh_key_slot env epoch dir gen s =
     (let key = hkdf_traffic_key env (root_key s) epoch dir; key_128 = take 16 key
      in \<lparr>ks_epoch = epoch, ks_generation = gen, ks_valid = True,
          send_cipher = Some (create_encryptor (ce_features env) (send_cipher_algorithm s) key_128 key),
          recv_cipher = Some (create_encryptor (ce_features env) (recv_cipher_algorithm s) key_128 key)\<rparr>)"

definition get_or_create_encryptor ::
  "crypto_env \<Rightarrow> u32 \<Rightarrow> direction \<Rightarrow> u32 \<Rightarrow> bool \<Rightarrow> session \<Rightarrow> encryptor option \<times> session" where
  "get_or_create_encryptor env epoch dir gen is_send s =
     (let (c0, c1) = dget dir (key_cache s) in
      if slot_matches epoch gen c0 then (get_encryptor is_send c0, s)
      else if slot_matches epoch gen c1 then (get_encryptor is_send c1, s)
      else
        let slot = fresh_key_slot env epoch dir gen s;
            entry = (if \<not> ks_valid c0 \<or> ks_epoch c0 = epoch then (slot, c1) else (c0, slot))
        in (get_encryptor is_send slot, s\<lparr>key_cache := dset dir entry (key_cache s)\<rparr>))"

section \<open>Sending\<close>

definition maybe_rotate_epoch :: "u64 \<Rightarrow> session \<Rightarrow> session" where
  "maybe_rotate_epoch now s =
     (let packets = send_packets_since_epoch s + 1; s = s\<lparr>send_packets_since_epoch := packets\<rparr> in
      if packets < ROTATE_AFTER_PACKETS \<and> sat_sub now (send_epoch_started_ms s) < ROTATE_AFTER_MS then s
      else s\<lparr>send_epoch := send_epoch s + 1, send_epoch_started_ms := now, send_packets_since_epoch := 0\<rparr>)"

definition next_nonce :: "u64 \<Rightarrow> direction \<Rightarrow> session \<Rightarrow> (u32 \<times> u64 \<times> bytes) \<times> session" where
  "next_nonce now dir s =
     (let s = maybe_rotate_epoch now s;
          epoch = send_epoch s;
          seq = dget dir (send_seq s)
      in ((epoch, seq, u32_be epoch @ u64_be seq), s\<lparr>send_seq := dset dir (seq + 1) (send_seq s)\<rparr>))"

definition parse_tail :: "bytes \<Rightarrow> bytes option" where
  "parse_tail pl = map_option snd (aead_tail pl)"

section \<open>Replay protection\<close>

definition evict_slot :: "u64 \<Rightarrow> epoch_rx_slot \<Rightarrow> epoch_rx_slot" where
  "evict_slot now slot =
     (if \<not> rx_valid slot then slot
      else if last_rx_ms slot \<noteq> 0 \<and> EVICT_IDLE_AFTER_MS < sat_sub now (last_rx_ms slot)
      then rx_slot_clear slot else slot)"

definition evict_old_rx_slots :: "u64 \<Rightarrow> slots \<times> slots \<Rightarrow> slots \<times> slots" where
  "evict_old_rx_slots now rx =
     (let ev = (\<lambda>sl. (evict_slot now (fst sl), evict_slot now (snd sl))) in (ev (fst rx), ev (snd rx)))"

definition slot_has :: "u32 \<Rightarrow> epoch_rx_slot \<Rightarrow> bool" where
  "slot_has epoch slot \<longleftrightarrow> rx_valid slot \<and> rx_epoch slot = epoch"

definition epoch_in_slots :: "slots \<Rightarrow> u32 \<Rightarrow> bool" where
  "epoch_in_slots sl epoch \<longleftrightarrow> slot_has epoch (fst sl) \<or> slot_has epoch (snd sl)"

definition sync_rx_grace_active :: "u64 \<Rightarrow> session \<Rightarrow> bool \<times> session" where
  "sync_rx_grace_active now s =
     (if sync_grace_expires_at_ms s = 0 then (False, s)
      else if now < sync_grace_expires_at_ms s then (True, s)
      else (False, s\<lparr>sync_grace_expires_at_ms := 0\<rparr>))"

text \<open>The common first part of the two replay checks: eviction, and whether a grace period applies.\<close>

definition refresh_rx :: "u64 \<Rightarrow> session \<Rightarrow> bool \<times> session" where
  "refresh_rx now s =
     (let s = s\<lparr>rx_slots := evict_old_rx_slots now (rx_slots s)\<rparr>;
          (active, s) = sync_rx_grace_active now s
      in if active then
           let g = grace_maybe_expire now (sync_grace s)
           in if gr_valid g
              then (True, s\<lparr>sync_grace := g\<lparr>gr_slots := evict_old_rx_slots now (gr_slots g)\<rparr>\<rparr>)
              else (False, s\<lparr>sync_grace := g, sync_grace_expires_at_ms := 0\<rparr>)
         else (False, s))"

definition prune_slot :: "u32 \<Rightarrow> slots \<Rightarrow> slots option \<Rightarrow> epoch_key_slot \<Rightarrow> epoch_key_slot" where
  "prune_slot cur rx grace slot =
     (if \<not> ks_valid slot then slot
      else let e = ks_epoch slot;
               allowed = (e = cur \<or> slot_has e (fst rx) \<or> slot_has e (snd rx)
                 \<or> (case grace of Some g \<Rightarrow> epoch_in_slots g e | None \<Rightarrow> False))
           in if allowed then slot else slot\<lparr>ks_valid := False\<rparr>)"

definition prune_key_cache :: "bool \<Rightarrow> session \<Rightarrow> session" where
  "prune_key_cache grace s =
     (let pr = (\<lambda>d. let (c0, c1) = dget d (key_cache s);
                       rx = dget d (rx_slots s);
                       g = (if grace then Some (dget d (gr_slots (sync_grace s))) else None)
                   in (prune_slot (send_epoch s) rx g c0, prune_slot (send_epoch s) rx g c1))
      in s\<lparr>key_cache := (pr AToB, pr BToA)\<rparr>)"

definition max_allowed_epoch :: "u32 \<Rightarrow> slots \<Rightarrow> u32" where
  "max_allowed_epoch cur sl =
     (let b = (if rx_valid (fst sl) then max cur (rx_epoch (fst sl)) else cur);
          b = (if rx_valid (snd sl) then max b (rx_epoch (snd sl)) else b)
      in sat_add b MAX_ACCEPTED_RX_EPOCH_AHEAD)"

definition precheck_replay :: "u32 \<Rightarrow> u64 \<Rightarrow> direction \<Rightarrow> u64 \<Rightarrow> session \<Rightarrow> bool \<times> session" where
  "precheck_replay epoch seq dir now s =
     (let (grace, s) = refresh_rx now s;
          g = dget dir (gr_slots (sync_grace s));
          rx = dget dir (rx_slots s)
      in (if grace \<and> epoch_in_slots g epoch then
            can_accept (rx_window (if slot_has epoch (fst g) then fst g else snd g)) seq
          else if \<not> rx_valid (fst rx) then True
          else if epoch = rx_epoch (fst rx) then can_accept (rx_window (fst rx)) seq
          else if rx_valid (snd rx) \<and> epoch = rx_epoch (snd rx) then can_accept (rx_window (snd rx)) seq
          else if rx_epoch (fst rx) < epoch then epoch \<le> max_allowed_epoch (send_epoch s) rx
          else False, s))"

text \<open>\<^verbatim>\<open>last_rx_ms = now_ms; window.accept(seq)\<close> on one slot.\<close>

definition slot_accept :: "u64 \<Rightarrow> u64 \<Rightarrow> epoch_rx_slot \<Rightarrow> bool \<times> epoch_rx_slot" where
  "slot_accept now seq slot =
     (let (ok, w) = accept (rx_window slot) seq in (ok, slot\<lparr>rx_window := w, last_rx_ms := now\<rparr>))"

definition new_rx_slot :: "u32 \<Rightarrow> u64 \<Rightarrow> epoch_rx_slot" where
  "new_rx_slot epoch now = \<lparr>rx_epoch = epoch, rx_window = window_default, last_rx_ms = now, rx_valid = True\<rparr>"

definition commit_slots :: "u32 \<Rightarrow> u32 \<Rightarrow> u64 \<Rightarrow> u64 \<Rightarrow> slots \<Rightarrow> bool \<times> slots" where
  "commit_slots cur epoch seq now rx =
     (let rx = (if \<not> rx_valid (fst rx) then (new_rx_slot epoch now, snd rx) else rx) in
      if epoch = rx_epoch (fst rx) then
        let (ok, slot) = slot_accept now seq (fst rx) in (ok, (slot, snd rx))
      else if rx_valid (snd rx) \<and> epoch = rx_epoch (snd rx) then
        let (ok, slot) = slot_accept now seq (snd rx) in (ok, (fst rx, slot))
      else if rx_epoch (fst rx) < epoch then
        (if max_allowed_epoch cur rx < epoch then (False, rx)
         else let (ok, slot) = slot_accept now seq (new_rx_slot epoch now) in (ok, (slot, fst rx)))
      else (False, rx))"

definition commit_replay :: "u32 \<Rightarrow> u64 \<Rightarrow> direction \<Rightarrow> u64 \<Rightarrow> session \<Rightarrow> bool \<times> session" where
  "commit_replay epoch seq dir now s =
     (let (grace, s) = refresh_rx now s;
          gs = gr_slots (sync_grace s);
          g = dget dir gs;
          (ok, s) =
            (if grace \<and> epoch_in_slots g epoch then
               let first = slot_has epoch (fst g);
                   (ok, slot) = slot_accept now seq (if first then fst g else snd g);
                   g' = (if first then (slot, snd g) else (fst g, slot))
               in (ok, s\<lparr>sync_grace := (sync_grace s)\<lparr>gr_slots := dset dir g' gs\<rparr>\<rparr>)
             else
               let (ok, rx) = commit_slots (send_epoch s) epoch seq now (dget dir (rx_slots s))
               in (ok, s\<lparr>rx_slots := dset dir rx (rx_slots s)\<rparr>))
      in (ok, prune_key_cache grace s))"

section \<open>Entry points\<close>

datatype sd_error = Session_Invalidated | No_Tail | Replay_Rejected | Cipher_Error enc_error | SD_Panic

definition encrypt_payload ::
  "crypto_env \<Rightarrow> bytes \<Rightarrow> u64 \<Rightarrow> direction \<Rightarrow> zc_packet \<Rightarrow> session \<Rightarrow> (sd_error + zc_packet) \<times> session" where
  "encrypt_payload env rnd now dir pkt s =
     (if \<not> is_valid s then (Inl Session_Invalidated, s)
      else
        let ((epoch, seq, nonce), s) = next_nonce now dir s;
            (e, s) = get_or_create_encryptor env epoch dir (session_generation s) True s
        in case e of
             None \<Rightarrow> (Inl SD_Panic, s)
           | Some encryptor \<Rightarrow>
               (case encrypt_with_nonce (ce_seal env) rnd encryptor (Some nonce) pkt of
                  Inl err \<Rightarrow> (Inl (Cipher_Error err), invalidate s)
                | Inr q \<Rightarrow> (Inr q, s)))"

definition decrypt_payload ::
  "crypto_env \<Rightarrow> u64 \<Rightarrow> direction \<Rightarrow> zc_packet \<Rightarrow> session \<Rightarrow> (sd_error + zc_packet) \<times> session" where
  "decrypt_payload env now dir pkt s =
     (if \<not> is_valid s then (Inl Session_Invalidated, s)
      else case payload pkt of
        None \<Rightarrow> (Inl SD_Panic, s)
      | Some pl \<Rightarrow>
          (case parse_tail pl of
             None \<Rightarrow> (Inl No_Tail, s)
           | Some nonce \<Rightarrow>
               let epoch = u32_of_be (take 4 nonce); seq = u64_of_be (drop 4 nonce);
                   (pre, s) = precheck_replay epoch seq dir now s
               in if \<not> pre then (Inl Replay_Rejected, s)
                  else let (e, s) = get_or_create_encryptor env epoch dir (session_generation s) False s
                  in (case e of
                        None \<Rightarrow> (Inl SD_Panic, s)
                      | Some encryptor \<Rightarrow>
                          (case enc_decrypt (ce_open env) encryptor pkt of
                             Inl err \<Rightarrow>
                               let count = decrypt_fail_count s + 1; s = s\<lparr>decrypt_fail_count := count\<rparr>
                               in (Inl (Cipher_Error err),
                                   if DECRYPT_FAIL_THRESHOLD \<le> count then invalidate s else s)
                           | Inr q \<Rightarrow>
                               let s = s\<lparr>decrypt_fail_count := 0\<rparr>;
                                   (ok, s) = commit_replay epoch seq dir now s
                               in if ok then (Inr q, s) else (Inl Replay_Rejected, s)))))"

section \<open>The two replay checks agree\<close>

lemma dget_dset [simp]: "dget d (dset d x a) = x"
  by (cases d) auto

lemma dget_dset_other [simp]: "d \<noteq> d' \<Longrightarrow> dget d (dset d' x a) = dget d a"
  by (cases d; cases d') auto

lemma dget_evict: "dget d (evict_old_rx_slots now rx) =
    (evict_slot now (fst (dget d rx)), evict_slot now (snd (dget d rx)))"
  by (cases d) (simp_all add: evict_old_rx_slots_def Let_def)

lemma evict_slot_idem [simp]: "evict_slot now (evict_slot now slot) = evict_slot now slot"
  by (simp add: evict_slot_def rx_slot_clear_def)

lemma evict_idem [simp]: "evict_old_rx_slots now (evict_old_rx_slots now rx) = evict_old_rx_slots now rx"
  by (simp add: evict_old_rx_slots_def Let_def)

lemma refresh_rx_frame:
  assumes "refresh_rx now s = (g, s')"
  shows "rx_slots s' = evict_old_rx_slots now (rx_slots s)" "root_key s' = root_key s"
    "session_generation s' = session_generation s" "send_epoch s' = send_epoch s" "send_seq s' = send_seq s"
    "key_cache s' = key_cache s" "send_cipher_algorithm s' = send_cipher_algorithm s"
    "recv_cipher_algorithm s' = recv_cipher_algorithm s" "invalidated s' = invalidated s"
    "decrypt_fail_count s' = decrypt_fail_count s"
  using assms by (auto simp: refresh_rx_def sync_rx_grace_active_def Let_def split: if_splits)

text \<open>Refreshing twice at the same time, with unrelated fields changed in between, changes nothing.\<close>

lemma grace_maybe_expire_idem [simp]: "grace_maybe_expire now (grace_maybe_expire now g) = grace_maybe_expire now g"
  by (simp add: grace_maybe_expire_def grace_clear_def)

lemma grace_maybe_expire_slots:
  "gr_valid (grace_maybe_expire now g) \<Longrightarrow>
   grace_maybe_expire now ((grace_maybe_expire now g)\<lparr>gr_slots := x\<rparr>) = (grace_maybe_expire now g)\<lparr>gr_slots := x\<rparr>"
  by (auto simp: grace_maybe_expire_def grace_clear_def split: if_splits)

lemma refresh_rx_again:
  assumes "refresh_rx now s = (g, s')"
    and t: "t = s'\<lparr>key_cache := kc, decrypt_fail_count := n\<rparr>"
  shows "refresh_rx now t = (g, t)"
proof (cases "sync_grace_expires_at_ms s \<noteq> 0 \<and> now < sync_grace_expires_at_ms s")
  case active: True
  let ?g = "grace_maybe_expire now (sync_grace s)"
  show ?thesis
  proof (cases "gr_valid ?g")
    case True
    with active assms(1) have "g" "s' = s\<lparr>rx_slots := evict_old_rx_slots now (rx_slots s),
        sync_grace := ?g\<lparr>gr_slots := evict_old_rx_slots now (gr_slots ?g)\<rparr>\<rparr>"
      by (simp_all add: refresh_rx_def sync_rx_grace_active_def Let_def)
    with active True show ?thesis
      by (simp add: t refresh_rx_def sync_rx_grace_active_def Let_def grace_maybe_expire_slots)
  next
    case False
    with active assms(1) have "\<not> g" "s' = s\<lparr>rx_slots := evict_old_rx_slots now (rx_slots s), sync_grace := ?g,
        sync_grace_expires_at_ms := 0\<rparr>"
      by (simp_all add: refresh_rx_def sync_rx_grace_active_def Let_def)
    then show ?thesis by (simp add: t refresh_rx_def sync_rx_grace_active_def Let_def)
  qed
next
  case False
  with assms(1) have "\<not> g" "s' = s\<lparr>rx_slots := evict_old_rx_slots now (rx_slots s), sync_grace_expires_at_ms := 0\<rparr>"
    by (auto simp: refresh_rx_def sync_rx_grace_active_def Let_def split: if_splits)
  then show ?thesis by (simp add: t refresh_rx_def sync_rx_grace_active_def Let_def)
qed

lemma slot_accept_can: "fst (slot_accept now seq slot) = can_accept (rx_window slot) seq"
  by (simp add: slot_accept_def can_accept_eq_accept split: prod.splits)

lemma can_accept_default [simp]: "can_accept window_default seq"
  by (simp add: can_accept_def window_default_def)

definition rx_decision :: "u32 \<Rightarrow> u32 \<Rightarrow> u64 \<Rightarrow> slots \<Rightarrow> bool" where
  "rx_decision cur epoch seq rx =
     (if \<not> rx_valid (fst rx) then True
      else if epoch = rx_epoch (fst rx) then can_accept (rx_window (fst rx)) seq
      else if rx_valid (snd rx) \<and> epoch = rx_epoch (snd rx) then can_accept (rx_window (snd rx)) seq
      else if rx_epoch (fst rx) < epoch then epoch \<le> max_allowed_epoch cur rx
      else False)"

lemma commit_slots_decision: "fst (commit_slots cur epoch seq now rx) = rx_decision cur epoch seq rx"
  by (simp add: commit_slots_def rx_decision_def new_rx_slot_def Let_def case_prod_beta slot_accept_can)
    (auto simp: not_less)

lemma precheck_decision:
  assumes "refresh_rx now s = (g, s')"
  shows "precheck_replay epoch seq dir now s =
    ((let sl = dget dir (gr_slots (sync_grace s')) in
      if g \<and> epoch_in_slots sl epoch then can_accept (rx_window (if slot_has epoch (fst sl) then fst sl else snd sl)) seq
      else rx_decision (send_epoch s') epoch seq (dget dir (rx_slots s'))), s')"
  by (simp add: precheck_replay_def assms rx_decision_def Let_def)

lemma commit_decision:
  assumes "refresh_rx now s = (g, s')"
  shows "fst (commit_replay epoch seq dir now s) = fst (precheck_replay epoch seq dir now s)"
  unfolding precheck_decision [OF assms]
  by (simp add: commit_replay_def assms Let_def case_prod_beta slot_accept_can commit_slots_decision)

lemma commit_after_precheck:
  assumes "precheck_replay epoch seq dir now s = (ok, s1)"
  shows "fst (commit_replay epoch seq dir now (s1\<lparr>key_cache := kc, decrypt_fail_count := n\<rparr>)) = ok"
proof -
  obtain g s' where r: "refresh_rx now s = (g, s')" by (cases "refresh_rx now s") auto
  have s1: "s1 = s'" using assms precheck_decision [OF r] by simp
  let ?t = "s'\<lparr>key_cache := kc, decrypt_fail_count := n\<rparr>"
  have t: "refresh_rx now ?t = (g, ?t)" by (rule refresh_rx_again [OF r refl])
  have "fst (precheck_replay epoch seq dir now ?t) = fst (precheck_replay epoch seq dir now s)"
    unfolding precheck_decision [OF t] precheck_decision [OF r] by simp
  with commit_decision [OF t] assms s1 show ?thesis by simp
qed

section \<open>The key cache is coherent\<close>

definition traffic_cipher :: "crypto_env \<Rightarrow> session \<Rightarrow> u32 \<Rightarrow> direction \<Rightarrow> bool \<Rightarrow> encryptor" where
  "traffic_cipher env s epoch dir is_send =
     (let key = hkdf_traffic_key env (root_key s) epoch dir
      in create_encryptor (ce_features env) (if is_send then send_cipher_algorithm s else recv_cipher_algorithm s)
           (take 16 key) key)"

definition key_slot_ok :: "crypto_env \<Rightarrow> session \<Rightarrow> direction \<Rightarrow> epoch_key_slot \<Rightarrow> bool" where
  "key_slot_ok env s d slot \<longleftrightarrow> (ks_valid slot \<longrightarrow>
     send_cipher slot = Some (traffic_cipher env s (ks_epoch slot) d True) \<and>
     recv_cipher slot = Some (traffic_cipher env s (ks_epoch slot) d False))"

definition cache_ok :: "crypto_env \<Rightarrow> session \<Rightarrow> bool" where
  "cache_ok env s \<longleftrightarrow> (\<forall>d. key_slot_ok env s d (fst (dget d (key_cache s))) \<and> key_slot_ok env s d (snd (dget d (key_cache s))))"

lemma traffic_cipher_cong:
  "root_key s = root_key t \<Longrightarrow> send_cipher_algorithm s = send_cipher_algorithm t \<Longrightarrow>
   recv_cipher_algorithm s = recv_cipher_algorithm t \<Longrightarrow> traffic_cipher env s = traffic_cipher env t"
  by (intro ext) (simp add: traffic_cipher_def)

lemma cache_ok_cong:
  "root_key s = root_key t \<Longrightarrow> send_cipher_algorithm s = send_cipher_algorithm t \<Longrightarrow>
   recv_cipher_algorithm s = recv_cipher_algorithm t \<Longrightarrow> key_cache s = key_cache t \<Longrightarrow>
   cache_ok env s = cache_ok env t"
  by (simp add: cache_ok_def key_slot_ok_def traffic_cipher_cong [of s t])

lemma cache_ok_new: "cache_ok env (session_new now root gen e sa ra)"
proof -
  have "dget d ((key_slot_default, key_slot_default), (key_slot_default, key_slot_default)) =
      (key_slot_default, key_slot_default)" for d
    by (cases d) simp_all
  then show ?thesis by (simp add: cache_ok_def key_slot_ok_def session_new_def key_slot_default_def)
qed

lemma cache_ok_sync: "cache_ok env (sync_root_key now root gen e pres s)"
proof -
  have "dget d ((key_slot_default, key_slot_default), (key_slot_default, key_slot_default)) =
      (key_slot_default, key_slot_default)" for d
    by (cases d) simp_all
  then show ?thesis by (simp add: cache_ok_def key_slot_ok_def sync_root_key_def key_slot_default_def Let_def)
qed

lemma get_or_create_correct:
  assumes "cache_ok env s" "get_or_create_encryptor env epoch dir gen is_send s = (e, s')"
  shows "e = Some (traffic_cipher env s epoch dir is_send)" "cache_ok env s'"
    "s' = s\<lparr>key_cache := key_cache s'\<rparr>"
proof -
  obtain c0 c1 where c: "dget dir (key_cache s) = (c0, c1)" by (cases "dget dir (key_cache s)") auto
  have ok: "key_slot_ok env s dir c0" "key_slot_ok env s dir c1"
    using assms(1) c unfolding cache_ok_def by (metis fst_conv snd_conv)+
  let ?n = "fresh_key_slot env epoch dir gen s"
  have n: "key_slot_ok env s dir ?n" "get_encryptor is_send ?n = Some (traffic_cipher env s epoch dir is_send)"
    by (simp_all add: key_slot_ok_def fresh_key_slot_def traffic_cipher_def get_encryptor_def Let_def)
  show "e = Some (traffic_cipher env s epoch dir is_send)"
    using assms(2) c ok n(2)
    by (auto simp: get_or_create_encryptor_def slot_matches_def key_slot_ok_def get_encryptor_def Let_def split: if_splits)
  show "s' = s\<lparr>key_cache := key_cache s'\<rparr>"
    using assms(2) c by (auto simp: get_or_create_encryptor_def Let_def split: if_splits)
  show "cache_ok env s'"
  proof (cases "slot_matches epoch gen c0 \<or> slot_matches epoch gen c1")
    case True
    with assms c show ?thesis by (auto simp: get_or_create_encryptor_def split: if_splits)
  next
    case False
    define entry where "entry = (if \<not> ks_valid c0 \<or> ks_epoch c0 = epoch then (?n, c1) else (c0, ?n))"
    have s': "s' = s\<lparr>key_cache := dset dir entry (key_cache s)\<rparr>"
      using assms(2) c False by (auto simp: get_or_create_encryptor_def Let_def entry_def)
    have "key_slot_ok env s dir (fst entry)" "key_slot_ok env s dir (snd entry)"
      using ok n by (simp_all add: entry_def)
    moreover have "key_slot_ok env s' = key_slot_ok env s"
      by (intro ext) (simp add: key_slot_ok_def s' traffic_cipher_cong [of "s\<lparr>key_cache := x\<rparr>" s for x])
    moreover have "dget d (key_cache s') = (if d = dir then entry else dget d (key_cache s))" for d
      by (simp add: s')
    ultimately show ?thesis using assms(1) by (simp add: cache_ok_def)
  qed
qed

lemma prune_slot_ok: "key_slot_ok env s d slot \<Longrightarrow> key_slot_ok env s d (prune_slot cur rx g slot)"
  by (simp add: prune_slot_def key_slot_ok_def Let_def)

lemma prune_frame:
  "root_key (prune_key_cache g s) = root_key s" "send_cipher_algorithm (prune_key_cache g s) = send_cipher_algorithm s"
  "recv_cipher_algorithm (prune_key_cache g s) = recv_cipher_algorithm s" "rx_slots (prune_key_cache g s) = rx_slots s"
  "sync_grace_expires_at_ms (prune_key_cache g s) = sync_grace_expires_at_ms s"
  "send_seq (prune_key_cache g s) = send_seq s" "invalidated (prune_key_cache g s) = invalidated s"
  "decrypt_fail_count (prune_key_cache g s) = decrypt_fail_count s"
  by (simp_all add: prune_key_cache_def Let_def)

lemma cache_ok_prune:
  assumes "cache_ok env s"
  shows "cache_ok env (prune_key_cache g s)"
proof -
  have same: "key_slot_ok env (prune_key_cache g s) = key_slot_ok env s"
    by (intro ext) (simp add: key_slot_ok_def traffic_cipher_cong [OF prune_frame(1,2,3)])
  have "dget d (key_cache (prune_key_cache g s)) =
      (let rx = dget d (rx_slots s); gr = (if g then Some (dget d (gr_slots (sync_grace s))) else None)
       in (prune_slot (send_epoch s) rx gr (fst (dget d (key_cache s))), prune_slot (send_epoch s) rx gr (snd (dget d (key_cache s)))))"
    for d by (cases d) (simp_all add: prune_key_cache_def Let_def case_prod_beta)
  with assms show ?thesis by (simp add: cache_ok_def same Let_def prune_slot_ok)
qed

lemma commit_frame:
  assumes "commit_replay epoch seq dir now s = (ok, s')"
  shows "root_key s' = root_key s" "send_cipher_algorithm s' = send_cipher_algorithm s"
    "recv_cipher_algorithm s' = recv_cipher_algorithm s" "send_seq s' = send_seq s" "invalidated s' = invalidated s"
    "decrypt_fail_count s' = decrypt_fail_count s" "cache_ok env s \<Longrightarrow> cache_ok env s'"
proof -
  obtain g s1 where r: "refresh_rx now s = (g, s1)" by (cases "refresh_rx now s") auto
  note fr = refresh_rx_frame [OF r]
  obtain s2 where s2: "s' = prune_key_cache g s2" and same: "root_key s2 = root_key s1"
    "send_cipher_algorithm s2 = send_cipher_algorithm s1" "recv_cipher_algorithm s2 = recv_cipher_algorithm s1"
    "key_cache s2 = key_cache s1" "send_seq s2 = send_seq s1" "invalidated s2 = invalidated s1"
    "decrypt_fail_count s2 = decrypt_fail_count s1"
    using assms by (auto simp: commit_replay_def r Let_def case_prod_beta split: if_splits)
  show "root_key s' = root_key s" "send_cipher_algorithm s' = send_cipher_algorithm s"
    "recv_cipher_algorithm s' = recv_cipher_algorithm s" "send_seq s' = send_seq s" "invalidated s' = invalidated s"
    "decrypt_fail_count s' = decrypt_fail_count s"
    by (simp_all add: s2 prune_frame same fr)
  have "cache_ok env s2 = cache_ok env s" by (rule cache_ok_cong) (simp_all add: same fr)
  then show "cache_ok env s \<Longrightarrow> cache_ok env s'" by (simp add: s2 cache_ok_prune)
qed

lemma precheck_refresh: "snd (precheck_replay epoch seq dir now s) = snd (refresh_rx now s)"
  by (cases "refresh_rx now s") (simp add: precheck_replay_def Let_def)

lemma cache_ok_refresh:
  assumes "refresh_rx now s = (g, s')"
  shows "cache_ok env s' = cache_ok env s"
  by (rule cache_ok_cong) (simp_all add: refresh_rx_frame [OF assms])

lemma next_nonce_frame:
  assumes "next_nonce now dir s = (r, s')"
  shows "root_key s' = root_key s" "send_cipher_algorithm s' = send_cipher_algorithm s"
    "recv_cipher_algorithm s' = recv_cipher_algorithm s" "key_cache s' = key_cache s" "rx_slots s' = rx_slots s"
    "sync_grace_expires_at_ms s' = sync_grace_expires_at_ms s" "invalidated s' = invalidated s"
    "session_generation s' = session_generation s" "decrypt_fail_count s' = decrypt_fail_count s"
  using assms by (auto simp: next_nonce_def maybe_rotate_epoch_def Let_def split: if_splits)

text \<open>
  How a receive proceeds: either it stops before the cipher with an error, or the cipher fails and the
  failure is counted, or it succeeds and the replay state is committed.
\<close>

lemma decrypt_payload_cases:
  assumes ok: "cache_ok env s" and d: "decrypt_payload env now dir pkt s = (r, s')"
  obtains (early) e where "r = Inl e" "e \<in> {Session_Invalidated, SD_Panic, No_Tail, Replay_Rejected}"
      "s' = s \<or> s' = snd (refresh_rx now s)"
  | (fail) pl nonce err s1 where "is_valid s" "payload pkt = Some pl" "parse_tail pl = Some nonce"
      "r = Inl (Cipher_Error err)"
      "enc_decrypt (ce_open env) (traffic_cipher env s (u32_of_be (take 4 nonce)) dir False) pkt = Inl err"
      "cache_ok env s1" "s1 = (snd (refresh_rx now s))\<lparr>key_cache := key_cache s1\<rparr>"
      "s' = (let t = s1\<lparr>decrypt_fail_count := decrypt_fail_count s1 + 1\<rparr>
             in if DECRYPT_FAIL_THRESHOLD \<le> decrypt_fail_count s1 + 1 then invalidate t else t)"
  | (accept) pl nonce q s1 where "is_valid s" "payload pkt = Some pl" "parse_tail pl = Some nonce" "r = Inr q"
      "enc_decrypt (ce_open env) (traffic_cipher env s (u32_of_be (take 4 nonce)) dir False) pkt = Inr q"
      "cache_ok env s1" "s1 = (snd (refresh_rx now s))\<lparr>key_cache := key_cache s1, decrypt_fail_count := 0\<rparr>"
      "commit_replay (u32_of_be (take 4 nonce)) (u64_of_be (drop 4 nonce)) dir now s1 = (True, s')"
proof -
  have triv: thesis if "r = Inl e" "e \<in> {Session_Invalidated, SD_Panic, No_Tail, Replay_Rejected}"
      "s' = s \<or> s' = snd (refresh_rx now s)" for e
    using that by (rule early)
  show thesis
  proof (cases "is_valid s \<and> payload pkt \<noteq> None \<and> parse_tail (the (payload pkt)) \<noteq> None")
    case False
    with d show thesis by (intro triv [of "projl r"]) (auto simp: decrypt_payload_def split: if_splits option.splits)
  next
    case True
    then obtain pl nonce where pl: "is_valid s" "payload pkt = Some pl" "parse_tail pl = Some nonce" by auto
    let ?e = "u32_of_be (take 4 nonce)" and ?q = "u64_of_be (drop 4 nonce)"
    obtain g s0 where r0: "refresh_rx now s = (g, s0)" by (cases "refresh_rx now s") auto
    obtain pre where p: "precheck_replay ?e ?q dir now s = (pre, s0)"
      using precheck_decision [OF r0] by blast
    note fr = refresh_rx_frame [OF r0]
    have ok0: "cache_ok env s0" using ok cache_ok_refresh [OF r0] by simp
    obtain e s2 where g2: "get_or_create_encryptor env ?e dir (session_generation s0) False s0 = (e, s2)"
      by (cases "get_or_create_encryptor env ?e dir (session_generation s0) False s0") auto
    note gc = get_or_create_correct [OF ok0 g2]
    have tc: "traffic_cipher env s0 = traffic_cipher env s" by (rule traffic_cipher_cong) (simp_all add: fr)
    show thesis
    proof (cases pre)
      case False
      with d pl p show thesis by (intro triv [of Replay_Rejected]) (auto simp: decrypt_payload_def r0 Let_def)
    next
      case True
      show thesis
      proof (cases "enc_decrypt (ce_open env) (traffic_cipher env s ?e dir False) pkt")
        case (Inl err)
        with d pl p True g2 gc(1) tc show thesis
          by (intro fail [OF pl, of err s2]) (use gc r0 in \<open>auto simp: decrypt_payload_def Let_def\<close>)
      next
        case (Inr q)
        let ?s1 = "s2\<lparr>decrypt_fail_count := 0\<rparr>"
        have s1: "?s1 = s0\<lparr>key_cache := key_cache s2, decrypt_fail_count := 0\<rparr>" using gc(3) by (metis session.update_convs(8) session.surjective)
        have c1: "fst (commit_replay ?e ?q dir now ?s1) = True"
          unfolding s1 using commit_after_precheck [OF p] True by simp
        have "cache_ok env ?s1" using gc(2) cache_ok_cong [of ?s1 s2 env] by simp
        with Inr d pl p True g2 gc(1) tc c1 show thesis
          by (intro accept [OF pl, of q ?s1]) (auto simp: decrypt_payload_def Let_def r0 s1 split: prod.splits if_splits)
      qed
    qed
  qed
qed

section \<open>Reachable sessions\<close>

inductive session_reach :: "crypto_env \<Rightarrow> session \<Rightarrow> bool" for env where
  reach_new: "session_reach env (session_new now root gen e sa ra)"
| reach_sync: "session_reach env s \<Longrightarrow> session_reach env (sync_root_key now root gen e pres s)"
| reach_encrypt: "session_reach env s \<Longrightarrow> session_reach env (snd (encrypt_payload env rnd now dir pkt s))"
| reach_decrypt: "session_reach env s \<Longrightarrow> session_reach env (snd (decrypt_payload env now dir pkt s))"
| reach_invalidate: "session_reach env s \<Longrightarrow> session_reach env (invalidate s)"

lemma cache_ok_invalidate: "cache_ok env (invalidate s) = cache_ok env s"
  by (rule cache_ok_cong) (simp_all add: invalidate_def)

lemma cache_ok_encrypt:
  assumes "cache_ok env s"
  shows "cache_ok env (snd (encrypt_payload env rnd now dir pkt s))"
proof -
  obtain epoch seq nonce s1 where n: "next_nonce now dir s = ((epoch, seq, nonce), s1)"
    by (metis prod.exhaust)
  have "cache_ok env s1"
    using assms cache_ok_cong [of s1 s env] next_nonce_frame [OF n] by simp
  moreover obtain e s2 where g: "get_or_create_encryptor env epoch dir (session_generation s1) True s1 = (e, s2)"
    by (metis prod.exhaust)
  ultimately have "cache_ok env s2" by (rule get_or_create_correct(2))
  then show ?thesis
    using assms n g by (simp add: encrypt_payload_def cache_ok_invalidate split: option.split sum.split)
qed

lemma cache_ok_decrypt:
  assumes "cache_ok env s"
  shows "cache_ok env (snd (decrypt_payload env now dir pkt s))"
proof -
  obtain r s' where d: "decrypt_payload env now dir pkt s = (r, s')" by (metis prod.exhaust)
  from assms d have "cache_ok env s'"
  proof (cases rule: decrypt_payload_cases)
    case (early e)
    with assms show ?thesis by (cases "refresh_rx now s") (auto simp: cache_ok_refresh)
  next
    case (fail pl nonce err s1)
    then have "cache_ok env s' = cache_ok env s1"
      by (intro cache_ok_cong) (simp_all add: Let_def invalidate_def)
    with fail show ?thesis by simp
  next
    case (accept pl nonce q s1)
    from commit_frame(7) [OF accept(8,6)] show ?thesis .
  qed
  with d show ?thesis by simp
qed

lemma session_reach_cache_ok: "session_reach env s \<Longrightarrow> cache_ok env s"
  by (induction rule: session_reach.induct)
    (simp_all add: cache_ok_new cache_ok_sync cache_ok_encrypt cache_ok_decrypt cache_ok_invalidate)

text \<open>
  Whatever was sent, received, synchronised or invalidated before, the cipher a session hands out
  for an epoch and direction is the one derived from its current root key, epoch, direction and
  algorithm; a cached cipher of an older root key is never used, and the cache lookup never panics.
\<close>

theorem session_cipher_current:
  assumes "session_reach env s"
  shows "fst (get_or_create_encryptor env epoch dir gen is_send s) =
    Some (let key = hkdf_traffic_key env (root_key s) epoch dir
          in create_encryptor (ce_features env)
               (if is_send then send_cipher_algorithm s else recv_cipher_algorithm s) (take 16 key) key)"
proof -
  obtain e s' where g: "get_or_create_encryptor env epoch dir gen is_send s = (e, s')" by (metis prod.exhaust)
  from get_or_create_correct(1) [OF session_reach_cache_ok [OF assms] g] g show ?thesis
    by (simp add: traffic_cipher_def Let_def)
qed

definition toy_env :: crypto_env where
  "toy_env = \<lparr>ce_hmac = (\<lambda>k m. take 32 (k @ m @ replicate 32 0)), ce_features = default_features,
     ce_seal = toy_seal, ce_open = toy_open\<rparr>"

theorem session_cipher_current_witness:
  "fst (get_or_create_encryptor toy_env 3 AToB 1 True
        (sync_root_key 9 (replicate 32 2) 2 3 True (session_new 5 (replicate 32 1) 1 0 ''aes-gcm'' ''aes-gcm''))) =
    Some (let key = hkdf_traffic_key toy_env (replicate 32 2) 3 AToB
          in create_encryptor default_features ''aes-gcm'' (take 16 key) key)"
  using session_cipher_current [OF reach_sync [OF reach_new], of toy_env 3 AToB 1 True 9 "replicate 32 2" 2 3 True
      5 "replicate 32 1" 1 0 "''aes-gcm''" "''aes-gcm''"]
  by (simp add: sync_root_key_def session_new_def toy_env_def Let_def)

section \<open>Runs of a session\<close>

datatype session_op = Send bytes u64 direction zc_packet | Recv u64 direction zc_packet

datatype session_event = Used_Nonce direction bytes | Accepted direction u32 u64 | Nothing

definition packet_nonce :: "zc_packet \<Rightarrow> bytes" where
  "packet_nonce pkt = (case payload pkt of None \<Rightarrow> [] | Some pl \<Rightarrow> (case parse_tail pl of None \<Rightarrow> [] | Some n \<Rightarrow> n))"

fun session_op_step :: "crypto_env \<Rightarrow> session_op \<Rightarrow> session \<Rightarrow> session_event \<times> session" where
  "session_op_step env (Send rnd now d pkt) s =
     (let (r, s') = encrypt_payload env rnd now d pkt s
      in (if is_valid s then Used_Nonce d (snd (snd (fst (next_nonce now d s)))) else Nothing, s'))"
| "session_op_step env (Recv now d pkt) s =
     (let (r, s') = decrypt_payload env now d pkt s; n = packet_nonce pkt
      in (case r of Inr _ \<Rightarrow> Accepted d (u32_of_be (take 4 n)) (u64_of_be (drop 4 n)) | Inl _ \<Rightarrow> Nothing, s'))"

fun session_run :: "crypto_env \<Rightarrow> session_op list \<Rightarrow> session \<Rightarrow> session_event list" where
  "session_run env [] s = []"
| "session_run env (x # xs) s = (let (ev, s') = session_op_step env x s in ev # session_run env xs s')"

fun is_nonce_use :: "direction \<Rightarrow> session_event \<Rightarrow> bool" where
  "is_nonce_use d (Used_Nonce d' n) = (d = d')"
| "is_nonce_use d _ = False"

fun is_accept :: "session_event \<Rightarrow> bool" where
  "is_accept (Accepted _ _ _) = True"
| "is_accept _ = False"

fun event_seq :: "session_event \<Rightarrow> u64" where
  "event_seq (Used_Nonce d n) = u64_of_be (drop 4 n)"
| "event_seq _ = 0"

section \<open>Nonces are used once\<close>

lemma next_nonce_seq:
  "next_nonce now d s = ((e, q, n), s') \<Longrightarrow> q = dget d (send_seq s) \<and> n = u32_be e @ u64_be q
   \<and> send_seq s' = dset d (q + 1) (send_seq s)"
  by (auto simp: next_nonce_def maybe_rotate_epoch_def Let_def split: if_splits)

lemma encrypt_send_seq:
  assumes "cache_ok env s"
  shows "send_seq (snd (encrypt_payload env rnd now d pkt s)) =
    (if is_valid s then dset d (dget d (send_seq s) + 1) (send_seq s) else send_seq s)"
proof -
  obtain e q n s1 where n: "next_nonce now d s = ((e, q, n), s1)" by (metis prod.exhaust)
  have ok1: "cache_ok env s1" using assms cache_ok_cong [of s1 s env] next_nonce_frame [OF n] by simp
  obtain c s2 where g: "get_or_create_encryptor env e d (session_generation s1) True s1 = (c, s2)" by (metis prod.exhaust)
  have "send_seq s2 = send_seq s1" using get_or_create_correct(3) [OF ok1 g] by (metis session.ext_inject session.surjective session.update_convs(8))
  with n g next_nonce_seq [OF n] show ?thesis
    by (simp add: encrypt_payload_def invalidate_def split: option.split sum.split)
qed

lemma decrypt_send_seq:
  assumes "cache_ok env s"
  shows "send_seq (snd (decrypt_payload env now d pkt s)) = send_seq s"
proof -
  obtain g s0 where r0: "refresh_rx now s = (g, s0)" by (cases "refresh_rx now s") auto
  note fr = refresh_rx_frame(5) [OF r0]
  obtain r s' where d: "decrypt_payload env now d pkt s = (r, s')" by (metis prod.exhaust)
  from assms d have "send_seq s' = send_seq s"
  proof (cases rule: decrypt_payload_cases)
    case (early e)
    with r0 fr show ?thesis by auto
  next
    case (fail pl nonce err s1)
    have "send_seq s1 = send_seq s" by (subst fail(7)) (simp add: r0 fr)
    with fail(8) show ?thesis by (simp add: Let_def invalidate_def)
  next
    case (accept pl nonce q s1)
    have "send_seq s1 = send_seq s" by (subst accept(7)) (simp add: r0 fr)
    with commit_frame(4) [OF accept(8)] show ?thesis by simp
  qed
  with d show ?thesis by simp
qed

lemma op_step_nonce:
  assumes "cache_ok env s" "session_op_step env x s = (ev, s')"
  shows "cache_ok env s'"
    and "is_nonce_use d ev \<Longrightarrow> event_seq ev = dget d (send_seq s) \<and> dget d (send_seq s') = dget d (send_seq s) + 1"
    and "\<not> is_nonce_use d ev \<Longrightarrow> dget d (send_seq s') = dget d (send_seq s)"
proof -
  have "cache_ok env s' \<and> (is_nonce_use d ev \<longrightarrow> event_seq ev = dget d (send_seq s) \<and> dget d (send_seq s') = dget d (send_seq s) + 1)
      \<and> (\<not> is_nonce_use d ev \<longrightarrow> dget d (send_seq s') = dget d (send_seq s))"
  proof (cases x)
    case (Send rnd now d' pkt)
    obtain e q n s1 where n: "next_nonce now d' s = ((e, q, n), s1)" by (metis prod.exhaust)
    from assms Send n next_nonce_seq [OF n] cache_ok_encrypt [OF assms(1), of rnd now d' pkt]
      encrypt_send_seq [OF assms(1), of rnd now d' pkt]
    show ?thesis by (cases "d = d'") (auto simp: case_prod_beta split: if_splits)
  next
    case (Recv now d' pkt)
    with assms cache_ok_decrypt [OF assms(1), of now d' pkt] decrypt_send_seq [OF assms(1), of now d' pkt] show ?thesis
      by (auto simp: case_prod_beta Let_def split: sum.splits)
  qed
  then show "cache_ok env s'"
    and "is_nonce_use d ev \<Longrightarrow> event_seq ev = dget d (send_seq s) \<and> dget d (send_seq s') = dget d (send_seq s) + 1"
    and "\<not> is_nonce_use d ev \<Longrightarrow> dget d (send_seq s') = dget d (send_seq s)"
    by auto
qed

lemma run_seqs:
  "cache_ok env s \<Longrightarrow> map event_seq (filter (is_nonce_use d) (session_run env xs s)) =
    map (\<lambda>j. dget d (send_seq s) + word_of_nat j) [0..<length (filter (is_nonce_use d) (session_run env xs s))]"
proof (induction xs arbitrary: s)
  case Nil
  then show ?case by simp
next
  case (Cons x xs)
  obtain ev s' where st: "session_op_step env x s = (ev, s')" by (metis prod.exhaust)
  note step = op_step_nonce(1) [OF Cons.prems st] op_step_nonce(2,3) [OF Cons.prems st, of d]
  have IH: "map event_seq (filter (is_nonce_use d) (session_run env xs s')) =
      map (\<lambda>j. dget d (send_seq s') + word_of_nat j) [0..<length (filter (is_nonce_use d) (session_run env xs s'))]"
    by (rule Cons.IH [OF step(1)])
  show ?case
  proof (cases "is_nonce_use d ev")
    case True
    let ?n = "length (filter (is_nonce_use d) (session_run env xs s'))"
    have "[0..<Suc ?n] = 0 # map Suc [0..<?n]" by (simp add: map_Suc_upt upt_conv_Cons del: upt_Suc)
    with True IH step(2) st show ?thesis by (simp add: comp_def add.assoc del: upt_Suc)
  next
    case False
    with IH step(3) st show ?thesis by simp
  qed
qed


lemma length_session_run [simp]: "length (session_run env xs s) = length xs"
  by (induction xs arbitrary: s) (simp_all add: case_prod_beta Let_def)


section \<open>No datagram is accepted twice\<close>

text \<open>
  The receive state of one direction against the set of pairs of epoch and sequence number accepted
  so far, while no slot has been idle for thirty seconds: the current slot has the largest epoch, both
  windows refine the numbers of their epochs.
\<close>

definition seqs_of :: "(u32 \<times> u64) set \<Rightarrow> u32 \<Rightarrow> nat set" where
  "seqs_of B e = {unat q | q. (e, q) \<in> B}"

definition in_time :: "u64 \<Rightarrow> u64 \<Rightarrow> bool" where
  "in_time t0 t \<longleftrightarrow> 0 < unat t0 \<and> unat t0 \<le> unat t \<and> unat t \<le> unat t0 + unat EVICT_IDLE_AFTER_MS"

definition slot_holds :: "u64 \<Rightarrow> (u32 \<times> u64) set \<Rightarrow> epoch_rx_slot \<Rightarrow> bool" where
  "slot_holds t0 B slot \<longleftrightarrow> window_refines (rx_window slot) (seqs_of B (rx_epoch slot)) \<and> in_time t0 (last_rx_ms slot)"

definition slots_inv :: "u64 \<Rightarrow> (u32 \<times> u64) set \<Rightarrow> slots \<Rightarrow> bool" where
  "slots_inv t0 B rx \<longleftrightarrow>
     (if rx_valid (fst rx)
      then slot_holds t0 B (fst rx) \<and> (\<forall>(e, q) \<in> B. e \<le> rx_epoch (fst rx)) \<and>
           (rx_valid (snd rx) \<longrightarrow> slot_holds t0 B (snd rx) \<and> rx_epoch (snd rx) < rx_epoch (fst rx))
      else B = {} \<and> \<not> rx_valid (snd rx))"

lemma evict_in_time: "in_time t0 now \<Longrightarrow> in_time t0 (last_rx_ms slot) \<Longrightarrow> evict_slot now slot = slot"
  by (auto simp: evict_slot_def in_time_def word_less_nat_alt unat_sat_sub)

lemma evict_invalid: "\<not> rx_valid slot \<Longrightarrow> evict_slot now slot = slot"
  by (simp add: evict_slot_def)

lemma evict_slots_inv:
  assumes "slots_inv t0 B rx" "in_time t0 now"
  shows "(evict_slot now (fst rx), evict_slot now (snd rx)) = rx"
proof -
  have "evict_slot now (fst rx) = fst rx"
    using assms by (cases "rx_valid (fst rx)")
      (auto simp: slots_inv_def slot_holds_def evict_invalid intro: evict_in_time)
  moreover have "evict_slot now (snd rx) = snd rx"
    using assms by (cases "rx_valid (snd rx)")
      (auto simp: slots_inv_def slot_holds_def evict_invalid intro: evict_in_time split: if_splits)
  ultimately show ?thesis by simp
qed

lemma seqs_of_insert: "seqs_of (insert (e, q) B) e' = (if e' = e then insert (unat q) (seqs_of B e') else seqs_of B e')"
  by (auto simp: seqs_of_def)

lemma slot_accept_holds:
  assumes h: "slot_holds t0 B slot" and now: "in_time t0 now" and a: "slot_accept now seq slot = (ok, slot')"
  shows "ok \<Longrightarrow> (rx_epoch slot, seq) \<notin> B"
    and "slot_holds t0 (if ok then insert (rx_epoch slot, seq) B else B) slot'"
    and "rx_epoch slot' = rx_epoch slot" "rx_valid slot' = rx_valid slot"
proof -
  obtain w where w: "accept (rx_window slot) seq = (ok, w)" "slot' = slot\<lparr>rx_window := w, last_rx_ms := now\<rparr>"
    using a by (auto simp: slot_accept_def split: prod.splits)
  have R: "window_refines (rx_window slot) (seqs_of B (rx_epoch slot))" using h by (simp add: slot_holds_def)
  note step = window.acc_step [OF R w(1)]
  show "ok \<Longrightarrow> (rx_epoch slot, seq) \<notin> B" using step(3) by (auto simp: seqs_of_def)
  show "slot_holds t0 (if ok then insert (rx_epoch slot, seq) B else B) slot'"
    using step(2) now by (cases ok) (simp_all add: slot_holds_def w(2) seqs_of_insert)
  show "rx_epoch slot' = rx_epoch slot" "rx_valid slot' = rx_valid slot" by (simp_all add: w(2))
qed

lemma slot_holds_other: "e \<noteq> rx_epoch slot \<Longrightarrow> slot_holds t0 (insert (e, q) B) slot = slot_holds t0 B slot"
  by (simp add: slot_holds_def seqs_of_insert)

lemma new_slot_holds: "seqs_of B e = {} \<Longrightarrow> in_time t0 now \<Longrightarrow> slot_holds t0 B (new_rx_slot e now)"
  by (simp add: slot_holds_def new_rx_slot_def window_refines_default)

text \<open>Replacing the empty first slot by a fresh one is the only effect of a first datagram.\<close>

lemma commit_slots_inv:
  assumes inv: "slots_inv t0 B rx" and now: "in_time t0 now" and c: "commit_slots cur e q now rx = (ok, rx')"
  shows "(ok \<longrightarrow> (e, q) \<notin> B) \<and> slots_inv t0 (if ok then insert (e, q) B else B) rx'"
proof -
  obtain s0 s1 where rx: "rx = (s0, s1)" by (cases rx) auto
  consider (empty) "\<not> rx_valid s0" | (cur) "rx_valid s0" "e = rx_epoch s0"
    | (prev) "rx_valid s0" "e \<noteq> rx_epoch s0" "rx_valid s1" "e = rx_epoch s1"
    | (ahead) "rx_valid s0" "\<not> (rx_valid s1 \<and> e = rx_epoch s1)" "rx_epoch s0 < e" "\<not> max_allowed_epoch cur rx < e"
    | (reject) "rx_valid s0" "e \<noteq> rx_epoch s0" "\<not> (rx_valid s1 \<and> e = rx_epoch s1)"
        "rx_epoch s0 < e \<longrightarrow> max_allowed_epoch cur rx < e"
    by blast
  then show ?thesis
  proof cases
    case empty
    with inv have B: "B = {}" "\<not> rx_valid s1" by (simp_all add: slots_inv_def rx)
    obtain ok' t where t: "slot_accept now q (new_rx_slot e now) = (ok', t)" by (metis prod.exhaust)
    have "slot_holds t0 {} (new_rx_slot e now)" using now by (simp add: new_slot_holds seqs_of_def)
    note st = slot_accept_holds [OF this now t]
    have "rx_epoch (new_rx_slot e now) = e" "rx_valid (new_rx_slot e now)" by (simp_all add: new_rx_slot_def)
    with st c empty B t show ?thesis by (auto simp: commit_slots_def rx Let_def slots_inv_def)
  next
    case cur
    obtain ok' t where t: "slot_accept now q s0 = (ok', t)" by (metis prod.exhaust)
    have h0: "slot_holds t0 B s0" using inv cur by (simp add: slots_inv_def rx)
    note st = slot_accept_holds [OF h0 now t]
    have "ok = ok'" "rx' = (t, s1)" using c cur t by (auto simp: commit_slots_def rx Let_def)
    with st inv cur show ?thesis by (auto simp: slots_inv_def rx slot_holds_other)
  next
    case prev
    obtain ok' t where t: "slot_accept now q s1 = (ok', t)" by (metis prod.exhaust)
    have h1: "slot_holds t0 B s1" using inv prev by (simp add: slots_inv_def rx)
    note st = slot_accept_holds [OF h1 now t]
    have "ok = ok'" "rx' = (s0, t)" using c prev t by (auto simp: commit_slots_def rx Let_def)
    with st inv prev show ?thesis by (auto simp: slots_inv_def rx slot_holds_other)
  next
    case ahead
    obtain ok' t where t: "slot_accept now q (new_rx_slot e now) = (ok', t)" by (metis prod.exhaust)
    have old: "\<forall>(e', q') \<in> B. e' \<le> rx_epoch s0" "slot_holds t0 B s0" using inv ahead by (simp_all add: slots_inv_def rx)
    then have "seqs_of B e = {}" using ahead(3) by (auto simp: seqs_of_def)
    then have "slot_holds t0 B (new_rx_slot e now)" using now by (rule new_slot_holds)
    note st = slot_accept_holds [OF this now t]
    have "e \<noteq> rx_epoch s0" using ahead(3) by auto
    then have res: "ok = ok'" "rx' = (t, s0)" using c ahead t by (auto simp: commit_slots_def rx Let_def)
    have n: "rx_epoch (new_rx_slot e now) = e" "rx_valid (new_rx_slot e now)" by (simp_all add: new_rx_slot_def)
    have "\<forall>(e', q') \<in> B. e' \<le> e" using old(1) ahead(3) by fastforce
    with st old ahead n show ?thesis by (auto simp: res slots_inv_def slot_holds_other)
  next
    case reject
    then have "commit_slots cur e q now rx = (False, rx)" by (auto simp: commit_slots_def rx Let_def)
    with c inv show ?thesis by simp
  qed
qed

definition rx_inv :: "u64 \<Rightarrow> (direction \<times> u32 \<times> u64) set \<Rightarrow> session \<Rightarrow> bool" where
  "rx_inv t0 A s \<longleftrightarrow> sync_grace_expires_at_ms s = 0 \<and>
     (\<forall>d. slots_inv t0 {(e, q). (d, e, q) \<in> A} (dget d (rx_slots s)))"

lemma rx_inv_cong:
  "rx_slots s = rx_slots t \<Longrightarrow> sync_grace_expires_at_ms s = sync_grace_expires_at_ms t \<Longrightarrow> rx_inv t0 A s = rx_inv t0 A t"
  by (simp add: rx_inv_def)

lemma rx_inv_new: "rx_inv t0 {} (session_new now root gen e sa ra)"
proof -
  have "dget d ((rx_slot_default, rx_slot_default), (rx_slot_default, rx_slot_default)) = (rx_slot_default, rx_slot_default)"
    for d by (cases d) simp_all
  then show ?thesis by (simp add: rx_inv_def slots_inv_def session_new_def rx_slot_default_def)
qed

lemma dpair_eqI: "(\<And>d. dget d a = dget d b) \<Longrightarrow> a = b"
  by (metis dget.simps prod.expand)

lemma refresh_rx_inv:
  assumes "rx_inv t0 A s" "in_time t0 now"
  shows "refresh_rx now s = (False, s)"
proof -
  have "evict_old_rx_slots now (rx_slots s) = rx_slots s"
  proof (rule dpair_eqI)
    fix d
    have "slots_inv t0 {(e, q). (d, e, q) \<in> A} (dget d (rx_slots s))" using assms(1) by (simp add: rx_inv_def)
    from evict_slots_inv [OF this assms(2)]
    show "dget d (evict_old_rx_slots now (rx_slots s)) = dget d (rx_slots s)" by (simp only: dget_evict)
  qed
  with assms show ?thesis by (simp add: refresh_rx_def sync_rx_grace_active_def rx_inv_def)
qed

lemma commit_rx_inv:
  assumes inv: "rx_inv t0 A s" and now: "in_time t0 now" and c: "commit_replay e q d now s = (ok, s')"
  shows "(ok \<longrightarrow> (d, e, q) \<notin> A) \<and> rx_inv t0 (if ok then insert (d, e, q) A else A) s'"
proof -
  obtain rx' where k: "commit_slots (send_epoch s) e q now (dget d (rx_slots s)) = (ok, rx')"
    and s': "s' = prune_key_cache False (s\<lparr>rx_slots := dset d rx' (rx_slots s)\<rparr>)"
    using c refresh_rx_inv [OF inv now] by (auto simp: commit_replay_def Let_def split: prod.splits)
  let ?B = "\<lambda>d A. {(e, q). (d, e, q) \<in> A}"
  have "slots_inv t0 (?B d A) (dget d (rx_slots s))" using inv by (simp add: rx_inv_def)
  note st = commit_slots_inv [OF this now k]
  have "?B d' (insert (d, e, q) A) = (if d' = d then insert (e, q) (?B d' A) else ?B d' A)" for d' by auto
  moreover have "dget d' (rx_slots s') = (if d' = d then rx' else dget d' (rx_slots s))" for d'
    by (simp add: s' prune_frame)
  moreover have "sync_grace_expires_at_ms s' = 0" using inv by (simp add: s' prune_frame rx_inv_def)
  ultimately have "rx_inv t0 (if ok then insert (d, e, q) A else A) s'"
    using st inv by (cases ok) (auto simp: rx_inv_def)
  with st show ?thesis by simp
qed

fun accept_key :: "session_event \<Rightarrow> (direction \<times> u32 \<times> u64) set" where
  "accept_key (Accepted d e q) = {(d, e, q)}"
| "accept_key _ = {}"

fun op_time :: "session_op \<Rightarrow> u64" where
  "op_time (Send rnd now d pkt) = now"
| "op_time (Recv now d pkt) = now"

lemma encrypt_rx_frame:
  assumes "cache_ok env s"
  shows "rx_slots (snd (encrypt_payload env rnd now d pkt s)) = rx_slots s"
    "sync_grace_expires_at_ms (snd (encrypt_payload env rnd now d pkt s)) = sync_grace_expires_at_ms s"
proof -
  obtain e q n s1 where n: "next_nonce now d s = ((e, q, n), s1)" by (metis prod.exhaust)
  have ok1: "cache_ok env s1" using assms cache_ok_cong [of s1 s env] next_nonce_frame [OF n] by simp
  obtain c s2 where g: "get_or_create_encryptor env e d (session_generation s1) True s1 = (c, s2)" by (metis prod.exhaust)
  have s2: "rx_slots s2 = rx_slots s1" "sync_grace_expires_at_ms s2 = sync_grace_expires_at_ms s1"
    by (subst get_or_create_correct(3) [OF ok1 g], simp)+
  show "rx_slots (snd (encrypt_payload env rnd now d pkt s)) = rx_slots s"
    "sync_grace_expires_at_ms (snd (encrypt_payload env rnd now d pkt s)) = sync_grace_expires_at_ms s"
    using n g next_nonce_frame [OF n] s2
    by (simp_all add: encrypt_payload_def invalidate_def split: option.split sum.split)
qed

lemma op_step_rx:
  assumes ok: "cache_ok env s" and inv: "rx_inv t0 A s" and t: "in_time t0 (op_time x)"
    and st: "session_op_step env x s = (ev, s')"
  shows "accept_key ev \<inter> A = {} \<and> rx_inv t0 (A \<union> accept_key ev) s'"
proof (cases x)
  case (Send rnd now d pkt)
  then have "accept_key ev = {}" "s' = snd (encrypt_payload env rnd now d pkt s)"
    using st by (auto simp: case_prod_beta split: if_splits)
  with inv encrypt_rx_frame [OF ok, of rnd now d pkt] rx_inv_cong [of s' s] show ?thesis by simp
next
  case (Recv now d pkt)
  have now: "in_time t0 now" using t Recv by simp
  note r0 = refresh_rx_inv [OF inv now]
  obtain r where d: "decrypt_payload env now d pkt s = (r, s')" using st Recv by (auto simp: Let_def split: prod.splits)
  from ok d show ?thesis
  proof (cases rule: decrypt_payload_cases)
    case (early e)
    with r0 inv st Recv d show ?thesis by auto
  next
    case (fail pl nonce err s1)
    have "rx_slots s1 = rx_slots s" "sync_grace_expires_at_ms s1 = sync_grace_expires_at_ms s"
      by (subst fail(7), simp add: r0)+
    then have "rx_inv t0 A s'" using inv fail(8) rx_inv_cong [of s' s t0 A] by (simp add: Let_def invalidate_def)
    with fail st Recv d show ?thesis by auto
  next
    case (accept pl nonce q s1)
    have "rx_slots s1 = rx_slots s" "sync_grace_expires_at_ms s1 = sync_grace_expires_at_ms s"
      by (subst accept(7), simp add: r0)+
    then have "rx_inv t0 A s1" using inv rx_inv_cong [of s1 s t0 A] by simp
    from commit_rx_inv [OF this now accept(8)] accept st Recv d show ?thesis
      by (auto simp: packet_nonce_def)
  qed
qed

lemma run_accepts_once:
  "cache_ok env s \<Longrightarrow> rx_inv t0 A s \<Longrightarrow> (\<And>x. x \<in> set xs \<Longrightarrow> in_time t0 (op_time x)) \<Longrightarrow>
   distinct (filter is_accept (session_run env xs s)) \<and> (\<forall>ev \<in> set (session_run env xs s). accept_key ev \<inter> A = {})"
proof (induction xs arbitrary: s A)
  case Nil
  then show ?case by simp
next
  case (Cons x xs)
  obtain ev s' where st: "session_op_step env x s = (ev, s')" by (metis prod.exhaust)
  have ok': "cache_ok env s'" by (rule op_step_nonce(1) [OF Cons.prems(1) st])
  have step: "accept_key ev \<inter> A = {}" "rx_inv t0 (A \<union> accept_key ev) s'"
    using op_step_rx [OF Cons.prems(1,2) _ st] Cons.prems(3) by auto
  have IH: "distinct (filter is_accept (session_run env xs s'))"
    "\<forall>ev' \<in> set (session_run env xs s'). accept_key ev' \<inter> (A \<union> accept_key ev) = {}"
    using Cons.IH [OF ok' step(2)] Cons.prems(3) by auto
  have "ev \<notin> set (session_run env xs s')" if "is_accept ev"
    using that IH(2) by (cases ev) auto
  with IH step(1) st show ?case by auto
qed

text \<open>
  C32: No datagram is accepted twice: in every run of sends and receives on a fresh session whose steps
  all fall within thirty seconds, no two receives succeed with the same direction, epoch and sequence
  number, whatever packets arrive, in whatever order, in whatever epochs.
\<close>

theorem session_no_replay:
  assumes "\<And>x. x \<in> set xs \<Longrightarrow> in_time t0 (op_time x)"
  shows "distinct (filter is_accept (session_run env xs (session_new now root gen e sa ra)))"
  using run_accepts_once [OF cache_ok_new rx_inv_new assms] by blast

definition sample_datagram :: zc_packet where
  "sample_datagram = new_from_buf (pm_header_bytes (set_encrypted True sample_header) @ [1, 2, 3] @ replicate 16 7
     @ u32_be 0 @ u64_be 5) DummyTunnel"

theorem session_no_replay_witness:
  "distinct (filter is_accept (session_run toy_env
     [Recv 10 AToB sample_datagram, Recv 11 AToB sample_datagram, Send [] 12 BToA sample_packet, Recv 13 AToB sample_datagram]
     (session_new 5 (replicate 32 1) 1 0 ''aes-gcm'' ''aes-gcm'')))"
proof (rule session_no_replay)
  fix x :: session_op
  assume "x \<in> set [Recv 10 AToB sample_datagram, Recv 11 AToB sample_datagram, Send [] 12 BToA sample_packet,
    Recv 13 AToB sample_datagram]"
  then show "in_time 10 (op_time x)" by (auto simp: in_time_def EVICT_IDLE_AFTER_MS_def)
qed

section \<open>Delivery end to end\<close>

definition slot_wf :: "epoch_rx_slot \<Rightarrow> bool" where
  "slot_wf slot \<longleftrightarrow> length (bitmap (rx_window slot)) = 32"

definition rx_wf :: "slots \<times> slots \<Rightarrow> bool" where
  "rx_wf rx \<longleftrightarrow> (\<forall>d. slot_wf (fst (dget d rx)) \<and> slot_wf (snd (dget d rx)))"

definition session_wf :: "session \<Rightarrow> bool" where
  "session_wf s \<longleftrightarrow> rx_wf (rx_slots s) \<and> rx_wf (gr_slots (sync_grace s))"

lemma slot_wf_clear: "slot_wf slot \<Longrightarrow> slot_wf (rx_slot_clear slot)"
  by (simp add: slot_wf_def rx_slot_clear_def window_clear_def)

lemma slot_wf_default: "slot_wf rx_slot_default" "slot_wf (new_rx_slot e now)"
  by (simp_all add: slot_wf_def rx_slot_default_def new_rx_slot_def window_default_def)

lemma slot_wf_evict: "slot_wf slot \<Longrightarrow> slot_wf (evict_slot now slot)"
  by (simp add: evict_slot_def slot_wf_clear)

lemma rx_wf_evict: "rx_wf rx \<Longrightarrow> rx_wf (evict_old_rx_slots now rx)"
  by (simp add: rx_wf_def dget_evict slot_wf_evict)

lemma length_accept: "length (bitmap (snd (accept w seq))) = length (bitmap w)"
  by (simp add: accept_def Let_def)

lemma slot_wf_accept: "slot_wf slot \<Longrightarrow> slot_wf (snd (slot_accept now seq slot))"
  by (simp add: slot_accept_def slot_wf_def case_prod_beta length_accept)

lemma accept_then_not: "length (bitmap w) = 32 \<Longrightarrow> accept w seq = (True, w') \<Longrightarrow> \<not> can_accept w' seq"
  by (auto simp: accept_def can_accept_def Let_def window_test_bit_bm bm_bit_window_set_bit split: if_splits)

lemma slot_accept_then_not:
  "slot_wf slot \<Longrightarrow> slot_accept now seq slot = (True, slot') \<Longrightarrow>
   \<not> can_accept (rx_window slot') seq \<and> rx_epoch slot' = rx_epoch slot \<and> rx_valid slot' = rx_valid slot \<and> last_rx_ms slot' = now"
  by (auto simp: slot_accept_def slot_wf_def accept_then_not split: prod.splits)

text \<open>The states on which refreshing at a given time has no further effect.\<close>

definition refreshed :: "bool \<Rightarrow> u64 \<Rightarrow> session \<Rightarrow> bool" where
  "refreshed g now s \<longleftrightarrow> evict_old_rx_slots now (rx_slots s) = rx_slots s \<and>
     (if g then sync_grace_expires_at_ms s \<noteq> 0 \<and> now < sync_grace_expires_at_ms s \<and> gr_valid (sync_grace s)
        \<and> \<not> gr_expires_at_ms (sync_grace s) \<le> now \<and> evict_old_rx_slots now (gr_slots (sync_grace s)) = gr_slots (sync_grace s)
      else sync_grace_expires_at_ms s = 0)"

lemma refreshedD: "refreshed g now s \<Longrightarrow> refresh_rx now s = (g, s)"
  by (cases g) (simp_all add: refreshed_def refresh_rx_def sync_rx_grace_active_def grace_maybe_expire_def Let_def)

lemma refresh_refreshed:
  assumes "refresh_rx now s = (g, s')"
  shows "refreshed g now s'"
proof (cases "sync_grace_expires_at_ms s \<noteq> 0 \<and> now < sync_grace_expires_at_ms s")
  case True
  with assms show ?thesis
    by (cases "gr_valid (grace_maybe_expire now (sync_grace s))")
      (auto simp: refresh_rx_def sync_rx_grace_active_def refreshed_def Let_def grace_maybe_expire_def grace_clear_def split: if_splits)
next
  case False
  with assms show ?thesis
    by (auto simp: refresh_rx_def sync_rx_grace_active_def refreshed_def Let_def split: if_splits)
qed

lemma evict_now [simp]: "last_rx_ms slot = now \<Longrightarrow> evict_slot now slot = slot"
  by (simp add: evict_slot_def sat_sub_def EVICT_IDLE_AFTER_MS_def)

lemma evict_dset:
  assumes "evict_old_rx_slots now rx = rx" "evict_slot now (fst x) = fst x" "evict_slot now (snd x) = snd x"
  shows "evict_old_rx_slots now (dset d x rx) = dset d x rx"
  using assms by (cases d) (auto simp: evict_old_rx_slots_def Let_def prod_eq_iff)

lemma evict_dget: "evict_old_rx_slots now rx = rx \<Longrightarrow> evict_slot now (fst (dget d rx)) = fst (dget d rx)
    \<and> evict_slot now (snd (dget d rx)) = snd (dget d rx)"
  using dget_evict [of d now rx] by (metis fst_conv snd_conv)

lemma commit_slots_then_not:
  assumes wf: "slot_wf (fst rx)" "slot_wf (snd rx)" and ev: "evict_slot now (fst rx) = fst rx" "evict_slot now (snd rx) = snd rx"
    and c: "commit_slots cur e q now rx = (True, rx')"
  shows "\<not> rx_decision cur' e q rx' \<and> evict_slot now (fst rx') = fst rx' \<and> evict_slot now (snd rx') = snd rx'"
proof -
  define s0 where "s0 = (if \<not> rx_valid (fst rx) then new_rx_slot e now else fst rx)"
  have s0: "rx_valid s0" "slot_wf s0" "evict_slot now s0 = s0"
    using wf ev by (simp_all add: s0_def slot_wf_default) (simp_all add: new_rx_slot_def)
  have first: "(if \<not> rx_valid (fst rx) then (new_rx_slot e now, snd rx) else rx) = (s0, snd rx)"
    by (simp add: s0_def prod_eq_iff)
  have c': "(if e = rx_epoch s0 then (case slot_accept now q s0 of (ok, slot) \<Rightarrow> (ok, (slot, snd rx)))
      else if rx_valid (snd rx) \<and> e = rx_epoch (snd rx) then (case slot_accept now q (snd rx) of (ok, slot) \<Rightarrow> (ok, (s0, slot)))
      else if rx_epoch s0 < e then
        (if max_allowed_epoch cur (s0, snd rx) < e then (False, (s0, snd rx))
         else (case slot_accept now q (new_rx_slot e now) of (ok, slot) \<Rightarrow> (ok, (slot, s0))))
      else (False, (s0, snd rx))) = (True, rx')"
    using c unfolding commit_slots_def first Let_def by (simp only: fst_conv snd_conv)
  consider (cur) slot where "e = rx_epoch s0" "slot_accept now q s0 = (True, slot)" "rx' = (slot, snd rx)"
    | (prev) slot where "e \<noteq> rx_epoch s0" "rx_valid (snd rx)" "e = rx_epoch (snd rx)"
        "slot_accept now q (snd rx) = (True, slot)" "rx' = (s0, slot)"
    | (new) slot where "slot_accept now q (new_rx_slot e now) = (True, slot)" "rx' = (slot, s0)"
    using c' by (auto simp: Let_def split: if_splits prod.splits)
  then show ?thesis
  proof cases
    case cur
    with slot_accept_then_not [OF s0(2) cur(2)] s0 ev show ?thesis by (simp add: rx_decision_def)
  next
    case prev
    with slot_accept_then_not [OF wf(2) prev(4)] s0 ev show ?thesis by (simp add: rx_decision_def)
  next
    case new
    with slot_accept_then_not [OF slot_wf_default(2) new(1)] s0 ev show ?thesis
      by (simp add: rx_decision_def new_rx_slot_def)
  qed
qed

lemma rx_wf_default: "rx_wf ((rx_slot_default, rx_slot_default), (rx_slot_default, rx_slot_default))"
  unfolding rx_wf_def
proof
  fix d show "slot_wf (fst (dget d ((rx_slot_default, rx_slot_default), (rx_slot_default, rx_slot_default))))
    \<and> slot_wf (snd (dget d ((rx_slot_default, rx_slot_default), (rx_slot_default, rx_slot_default))))"
    by (cases d) (simp_all add: slot_wf_default)
qed

lemma refresh_wf: "session_wf s \<Longrightarrow> session_wf (snd (refresh_rx now s))"
  by (simp add: refresh_rx_def sync_rx_grace_active_def session_wf_def Let_def rx_wf_evict grace_maybe_expire_def
      grace_clear_def rx_wf_default)

lemma rx_wf_dset: "rx_wf rx \<Longrightarrow> slot_wf (fst x) \<Longrightarrow> slot_wf (snd x) \<Longrightarrow> rx_wf (dset d x rx)"
  unfolding rx_wf_def by (metis (full_types) dget_dset dget_dset_other)

lemma commit_slots_wf:
  assumes "slot_wf (fst rx)" "slot_wf (snd rx)"
  shows "slot_wf (fst (snd (commit_slots cur e q now rx))) \<and> slot_wf (snd (snd (commit_slots cur e q now rx)))"
  using assms slot_wf_accept slot_wf_default(2)
  by (simp add: commit_slots_def Let_def case_prod_beta)

text \<open>What a commit does to the receive state, in the grace slots or in the ordinary ones.\<close>

lemma commit_replay_cases:
  assumes r: "refresh_rx now s = (g, s1)" and c: "commit_replay e q d now s = (ok, s')"
  obtains (grace) slot where "g" "epoch_in_slots (dget d (gr_slots (sync_grace s1))) e"
      "slot_accept now q (let sl = dget d (gr_slots (sync_grace s1)) in if slot_has e (fst sl) then fst sl else snd sl) = (ok, slot)"
      "s' = prune_key_cache g (s1\<lparr>sync_grace := (sync_grace s1)\<lparr>gr_slots :=
         dset d (let sl = dget d (gr_slots (sync_grace s1)) in if slot_has e (fst sl) then (slot, snd sl) else (fst sl, slot))
           (gr_slots (sync_grace s1))\<rparr>\<rparr>)"
  | (plain) rx where "\<not> (g \<and> epoch_in_slots (dget d (gr_slots (sync_grace s1))) e)"
      "commit_slots (send_epoch s1) e q now (dget d (rx_slots s1)) = (ok, rx)"
      "s' = prune_key_cache g (s1\<lparr>rx_slots := dset d rx (rx_slots s1)\<rparr>)"
proof (cases "g \<and> epoch_in_slots (dget d (gr_slots (sync_grace s1))) e")
  case True
  obtain ok1 slot where sa: "slot_accept now q (let sl = dget d (gr_slots (sync_grace s1)) in
      if slot_has e (fst sl) then fst sl else snd sl) = (ok1, slot)"
    by (metis prod.exhaust)
  with c r True have "ok = ok1" "s' = prune_key_cache g (s1\<lparr>sync_grace := (sync_grace s1)\<lparr>gr_slots :=
      dset d (let sl = dget d (gr_slots (sync_grace s1)) in if slot_has e (fst sl) then (slot, snd sl) else (fst sl, slot))
        (gr_slots (sync_grace s1))\<rparr>\<rparr>)"
    by (simp_all add: commit_replay_def Let_def)
  with True sa show ?thesis by (intro grace) simp_all
next
  case False
  obtain ok1 rx where cs: "commit_slots (send_epoch s1) e q now (dget d (rx_slots s1)) = (ok1, rx)"
    by (metis prod.exhaust)
  from c have "ok = ok1" "s' = prune_key_cache g (s1\<lparr>rx_slots := dset d rx (rx_slots s1)\<rparr>)"
    unfolding commit_replay_def r Let_def using False cs by simp_all
  with False cs show ?thesis by (intro plain) simp_all
qed

lemma prune_grace: "sync_grace (prune_key_cache g s) = sync_grace s" "send_epoch (prune_key_cache g s) = send_epoch s"
  by (simp_all add: prune_key_cache_def Let_def)

lemma commit_wf:
  assumes "session_wf s"
  shows "session_wf (snd (commit_replay e q d now s))"
proof -
  obtain g s1 where r: "refresh_rx now s = (g, s1)" by (cases "refresh_rx now s") auto
  have wf1: "session_wf s1" using refresh_wf [OF assms, of now] r by simp
  obtain ok s' where c: "commit_replay e q d now s = (ok, s')" by (metis prod.exhaust)
  from r c have "session_wf s'"
  proof (cases rule: commit_replay_cases)
    case (grace slot)
    let ?sl = "dget d (gr_slots (sync_grace s1))"
    have "slot_wf (fst ?sl)" "slot_wf (snd ?sl)" using wf1 by (simp_all add: session_wf_def rx_wf_def)
    moreover have "slot_wf slot"
      using slot_wf_accept [of "if slot_has e (fst ?sl) then fst ?sl else snd ?sl" now q] grace(3) calculation
      by (simp add: Let_def split: if_splits)
    ultimately show ?thesis
      using wf1 grace(4) by (simp add: session_wf_def prune_frame prune_grace Let_def rx_wf_dset)
  next
    case (plain rx)
    have "slot_wf (fst (dget d (rx_slots s1)))" "slot_wf (snd (dget d (rx_slots s1)))"
      using wf1 by (simp_all add: session_wf_def rx_wf_def)
    from commit_slots_wf [OF this, of "send_epoch s1" e q now] plain wf1 show ?thesis
      by (simp add: session_wf_def prune_frame prune_grace rx_wf_dset)
  qed
  with c show ?thesis by simp
qed

lemma commit_then_precheck:
  assumes wf: "session_wf s" and c: "commit_replay e q d now s = (True, s')"
  shows "\<not> fst (precheck_replay e q d now s') \<and> refresh_rx now s' = (fst (refresh_rx now s), s')"
proof -
  obtain g s1 where r: "refresh_rx now s = (g, s1)" by (cases "refresh_rx now s") auto
  have wf1: "session_wf s1" using refresh_wf [OF wf, of now] r by simp
  have rf: "refreshed g now s1" by (rule refresh_refreshed [OF r])
  from r c show ?thesis
  proof (cases rule: commit_replay_cases)
    case (grace slot)
    let ?sl = "dget d (gr_slots (sync_grace s1))"
    let ?old = "if slot_has e (fst ?sl) then fst ?sl else snd ?sl"
    let ?new = "if slot_has e (fst ?sl) then (slot, snd ?sl) else (fst ?sl, slot)"
    have "slot_wf ?old" using wf1 by (simp add: session_wf_def rx_wf_def)
    with grace(3) have sl: "\<not> can_accept (rx_window slot) q" "rx_epoch slot = rx_epoch ?old"
        "rx_valid slot = rx_valid ?old" "last_rx_ms slot = now"
      using slot_accept_then_not [of ?old now q slot] by (simp_all add: Let_def)
    have gs: "gr_slots (sync_grace s') = dset d ?new (gr_slots (sync_grace s1))" using grace(4) by (simp add: prune_grace Let_def)
    have has: "slot_has e slot" using grace(2) sl(2,3) by (auto simp: epoch_in_slots_def slot_has_def split: if_splits)
    have "evict_old_rx_slots now (gr_slots (sync_grace s1)) = gr_slots (sync_grace s1)" using rf grace(1) by (simp add: refreshed_def)
    from evict_dset [OF this, of ?new d] evict_dget [OF this, of d] sl(4)
    have "evict_old_rx_slots now (dset d ?new (gr_slots (sync_grace s1))) = dset d ?new (gr_slots (sync_grace s1))" by simp
    then have "refreshed g now s'" using rf grace(1,4) by (simp add: refreshed_def prune_frame prune_grace Let_def)
    note r' = refreshedD [OF this]
    show ?thesis
      using grace(1) has sl(1) r r' by (simp add: precheck_decision [OF r'] gs epoch_in_slots_def Let_def)
  next
    case (plain rx)
    let ?rx = "dget d (rx_slots s1)"
    have ev: "evict_old_rx_slots now (rx_slots s1) = rx_slots s1" using rf by (simp add: refreshed_def)
    have wfs: "slot_wf (fst ?rx)" "slot_wf (snd ?rx)" using wf1 by (simp_all add: session_wf_def rx_wf_def)
    note nt = commit_slots_then_not [OF wfs _ _ plain(2), of "send_epoch s1"]
    have "evict_old_rx_slots now (dset d rx (rx_slots s1)) = dset d rx (rx_slots s1)"
      using evict_dget [OF ev, of d] nt by (intro evict_dset [OF ev]) simp_all
    then have "refreshed g now s'" using rf plain(3) by (simp add: refreshed_def prune_frame prune_grace)
    note r' = refreshedD [OF this]
    have "fst (precheck_replay e q d now s') = rx_decision (send_epoch s1) e q rx"
      unfolding precheck_decision [OF r'] using plain(1) by (auto simp: plain(3) prune_frame prune_grace Let_def)
    with nt evict_dget [OF ev, of d] r r' show ?thesis by simp
  qed
qed

lemma session_wf_cong:
  "rx_slots s = rx_slots t \<Longrightarrow> sync_grace s = sync_grace t \<Longrightarrow> session_wf s = session_wf t"
  by (simp add: session_wf_def)

lemma rx_wf_pair: "rx_wf (a, b) \<longleftrightarrow> slot_wf (fst a) \<and> slot_wf (snd a) \<and> slot_wf (fst b) \<and> slot_wf (snd b)"
  unfolding rx_wf_def by (metis (full_types) dget.simps direction.exhaust fst_conv snd_conv)

lemma session_reach_wf: "session_reach env s \<Longrightarrow> session_wf s"
proof (induction rule: session_reach.induct)
  case reach_new
  then show ?case by (simp add: session_wf_def session_new_def grace_default_def rx_wf_default)
next
  case (reach_sync s now root gen e pres)
  have rx: "slot_wf (fst (fst (rx_slots s)))" "slot_wf (snd (fst (rx_slots s)))" "slot_wf (fst (snd (rx_slots s)))"
    "slot_wf (snd (snd (rx_slots s)))"
    using reach_sync.IH rx_wf_pair [of "fst (rx_slots s)" "snd (rx_slots s)"] by (simp_all add: session_wf_def)
  show ?case
    using reach_sync.IH rx
    by (simp add: session_wf_def sync_root_key_def Let_def grace_refresh_def grace_clear_def rx_wf_default rx_wf_pair slot_wf_clear
      slot_wf_default)
next
  case (reach_encrypt s rnd now dir pkt)
  obtain e q n s1 where n: "next_nonce now dir s = ((e, q, n), s1)" by (metis prod.exhaust)
  have ok: "cache_ok env s" by (rule session_reach_cache_ok [OF reach_encrypt.hyps])
  have ok1: "cache_ok env s1" using ok cache_ok_cong [of s1 s env] next_nonce_frame [OF n] by simp
  obtain c s2 where g: "get_or_create_encryptor env e dir (session_generation s1) True s1 = (c, s2)" by (metis prod.exhaust)
  have s2: "rx_slots s2 = rx_slots s1" "sync_grace s2 = sync_grace s1"
    by (subst get_or_create_correct(3) [OF ok1 g], simp)+
  have "sync_grace s1 = sync_grace s" "rx_slots s1 = rx_slots s"
    using n by (auto simp: next_nonce_def maybe_rotate_epoch_def Let_def split: if_splits)
  with reach_encrypt.IH n g s2 show ?case
    by (simp add: session_wf_def encrypt_payload_def invalidate_def split: option.split sum.split)
next
  case (reach_decrypt s now dir pkt)
  have ok: "cache_ok env s" by (rule session_reach_cache_ok [OF reach_decrypt.hyps])
  note wf0 = refresh_wf [OF reach_decrypt.IH, of now]
  obtain r s' where d: "decrypt_payload env now dir pkt s = (r, s')" by (metis prod.exhaust)
  from ok d have "session_wf s'"
  proof (cases rule: decrypt_payload_cases)
    case (early e)
    with wf0 reach_decrypt.IH show ?thesis by auto
  next
    case (fail pl nonce err s1)
    have "session_wf s1 = session_wf (snd (refresh_rx now s))" by (subst fail(7)) (simp add: session_wf_def)
    with wf0 fail(8) show ?thesis by (simp add: session_wf_def Let_def invalidate_def)
  next
    case (accept pl nonce q s1)
    have "session_wf s1 = session_wf (snd (refresh_rx now s))" by (subst accept(7)) (simp add: session_wf_def)
    with wf0 commit_wf [of s1] accept(8) show ?thesis by (metis snd_conv)
  qed
  with d show ?case by simp
next
  case (reach_invalidate s)
  then show ?case by (simp add: session_wf_def invalidate_def)
qed

lemma decrypt_payload_accept:
  assumes ok: "cache_ok env s" and v: "is_valid s" and pl: "payload pkt = Some pl" "parse_tail pl = Some nonce"
    and pre: "fst (precheck_replay (u32_of_be (take 4 nonce)) (u64_of_be (drop 4 nonce)) dir now s)"
    and dec: "enc_decrypt (ce_open env) (traffic_cipher env s (u32_of_be (take 4 nonce)) dir False) pkt = Inr m"
  shows "\<exists>s'. decrypt_payload env now dir pkt s = (Inr m, s')"
proof -
  let ?e = "u32_of_be (take 4 nonce)" and ?q = "u64_of_be (drop 4 nonce)"
  obtain g s0 where r0: "refresh_rx now s = (g, s0)" by (cases "refresh_rx now s") auto
  have p: "precheck_replay ?e ?q dir now s = (True, s0)"
    using pre precheck_refresh [of ?e ?q dir now s] r0 by (metis prod.collapse snd_conv)
  have ok0: "cache_ok env s0" using ok cache_ok_refresh [OF r0] by simp
  obtain c s2 where g2: "get_or_create_encryptor env ?e dir (session_generation s0) False s0 = (c, s2)" by (metis prod.exhaust)
  note gc = get_or_create_correct [OF ok0 g2]
  have "traffic_cipher env s0 = traffic_cipher env s"
    by (rule traffic_cipher_cong) (simp_all add: refresh_rx_frame [OF r0])
  with gc(1) dec have "c = Some (traffic_cipher env s ?e dir False)" by simp
  moreover have "fst (commit_replay ?e ?q dir now (s2\<lparr>decrypt_fail_count := 0\<rparr>))"
    using commit_after_precheck [OF p, where kc = "key_cache s2" and n = 0] gc(3) by (metis session.surjective session.update_convs(8))
  ultimately show ?thesis
    using v pl p g2 dec by (cases "commit_replay ?e ?q dir now (s2\<lparr>decrypt_fail_count := 0\<rparr>)")
      (simp add: decrypt_payload_def Let_def)
qed

lemma decrypt_payload_replay:
  assumes "is_valid s" "payload pkt = Some pl" "parse_tail pl = Some nonce"
    and "\<not> fst (precheck_replay (u32_of_be (take 4 nonce)) (u64_of_be (drop 4 nonce)) dir now s)"
  shows "fst (decrypt_payload env now dir pkt s) = Inl Replay_Rejected"
  using assms by (cases "precheck_replay (u32_of_be (take 4 nonce)) (u64_of_be (drop 4 nonce)) dir now s")
    (simp add: decrypt_payload_def Let_def)

lemma encrypt_payload_result:
  assumes ok: "cache_ok env s" and e: "encrypt_payload env rnd now d p s = (Inr q, s')"
  obtains epoch seq where "is_valid s" "fst (next_nonce now d s) = (epoch, seq, u32_be epoch @ u64_be seq)"
    "encrypt_with_nonce (ce_seal env) rnd (traffic_cipher env s epoch d True) (Some (u32_be epoch @ u64_be seq)) p = Inr q"
proof -
  obtain epoch seq n s1 where n: "next_nonce now d s = ((epoch, seq, n), s1)" by (metis prod.exhaust)
  have ok1: "cache_ok env s1" using ok cache_ok_cong [of s1 s env] next_nonce_frame [OF n] by simp
  obtain c s2 where g: "get_or_create_encryptor env epoch d (session_generation s1) True s1 = (c, s2)" by (metis prod.exhaust)
  have c: "c = Some (traffic_cipher env s epoch d True)"
    using get_or_create_correct(1) [OF ok1 g] traffic_cipher_cong [of s1 s env] next_nonce_frame [OF n] by simp
  have "is_valid s" "encrypt_with_nonce (ce_seal env) rnd (traffic_cipher env s epoch d True) (Some n) p = Inr q"
    using e n g c by (auto simp: encrypt_payload_def split: if_splits sum.splits)
  with next_nonce_seq [OF n] n that show thesis by simp
qed

text \<open>The nonce of a sealed packet is where the receiver looks for it.\<close>

lemma sealed_tail:
  assumes law: "aead_law seal open" and h: "peer_manager_header p = Some h" "\<not> is_encrypted h"
    and n: "length n = AEAD_NONCE_SIZE" and rnd: "length rnd = AEAD_NONCE_SIZE"
    and e: "encrypt_with_nonce seal rnd (Enc_Aead b alg key) (Some n) p = Inr q"
  shows "\<exists>pl. payload q = Some pl \<and> parse_tail pl = Some n"
proof -
  obtain pre pl where lay: "packet_layout p pre h pl" using h(1) peer_manager_header_layout by blast
  have "aes_gcm_encrypt seal rnd alg key (Some n) p = Inr q" using e aead_normal(2) [OF law] by simp
  from aead_encrypt_layout [OF lay h(2) rnd this] n obtain ct tag where s: "seal alg key n pl = Some (ct, tag)"
    and q: "q = p\<lparr>inner := pre @ pm_header_bytes (set_encrypted True h) @ ct @ tag @ n\<rparr>"
    by (auto simp: pick_nonce_def)
  have "packet_layout q pre (set_encrypted True h) (ct @ tag @ n)" unfolding q using lay by (rule layout_mut_layout)
  from layout_payload [OF this] aead_tail_split [OF aead_lawD(2) [OF law s] n, of ct] show ?thesis
    by (simp add: parse_tail_def)
qed

lemma aead_traffic_cipher:
  assumes alg: "parse_algorithm (if is_send then send_cipher_algorithm s else recv_cipher_algorithm s) = Some a"
    "is_aead_algorithm a" "algorithm_is_available (ce_features env) a"
  obtains b key where "traffic_cipher env s epoch d is_send = Enc_Aead b a key"
  using alg available_backend [OF alg(2,3)]
  by (cases a) (auto simp: traffic_cipher_def create_encryptor_def create_aes_128_def create_aes_256_def
      create_chacha20_def is_aead_algorithm_def Let_def, meson+)

lemma datagram_delivered:
  assumes law: "aead_law (ce_seal env) (ce_open env)" and rnd: "length rnd = AEAD_NONCE_SIZE"
    and s: "session_reach env s" and r: "session_reach env r" "is_valid r"
    and same: "root_key r = root_key s" "recv_cipher_algorithm r = send_cipher_algorithm s"
    and alg: "parse_algorithm (send_cipher_algorithm s) = Some a" "is_aead_algorithm a" "algorithm_is_available (ce_features env) a"
    and h: "peer_manager_header p = Some h" "\<not> is_encrypted h"
    and e: "encrypt_payload env rnd now d p s = (Inr q, s')" and n: "fst (next_nonce now d s) = (epoch, seq, n)"
    and fresh: "fst (precheck_replay epoch seq d now' r)"
  obtains pl r' where "payload q = Some pl" "parse_tail pl = Some (u32_be epoch @ u64_be seq)"
    "decrypt_payload env now' d q r = (Inr p, r')"
proof -
  note oks = session_reach_cache_ok [OF s] and okr = session_reach_cache_ok [OF r(1)]
  let ?n = "u32_be epoch @ u64_be seq"
  from encrypt_payload_result [OF oks e] n
  have enc: "encrypt_with_nonce (ce_seal env) rnd (traffic_cipher env s epoch d True) (Some ?n) p = Inr q"
    by auto
  have c: "traffic_cipher env r epoch d False = traffic_cipher env s epoch d True"
    by (simp add: traffic_cipher_def same)
  obtain b key where ca: "traffic_cipher env s epoch d True = Enc_Aead b a key"
    by (rule aead_traffic_cipher [of True s, simplified, OF alg])
  have lenn: "length ?n = AEAD_NONCE_SIZE" by (simp add: AEAD_NONCE_SIZE_def)
  obtain pl where pl: "payload q = Some pl" "parse_tail pl = Some ?n"
    using sealed_tail [OF law h lenn rnd, of b a key q] enc ca by auto
  have "cipher_ok (ce_seal env, ce_open env, rnd, Enc_Aead b a key, Some ?n)" using law rnd by simp
  from cipher_enc_dec(2) [OF this h] enc ca c
  have dec: "enc_decrypt (ce_open env) (traffic_cipher env r epoch d False) q = Inr p" by simp
  obtain r' where "decrypt_payload env now' d q r = (Inr p, r')"
    using decrypt_payload_accept [OF okr r(2) pl, of d now' p] fresh dec by auto
  with pl that show thesis by blast
qed


lemma toy_env_law: "aead_law (ce_seal toy_env) (ce_open toy_env)"
  using toy_law by (simp add: toy_env_def)

lemma parse_plain_aes_gcm: "parse_algorithm ''aes-gcm'' = Some AesGcm"
  by code_simp

definition alice :: session where
  "alice = session_new 5 (replicate 32 1) 1 0 ''aes-gcm'' ''aes-gcm''"

lemma toy_cipher:
  assumes "send_cipher_algorithm s = ''aes-gcm''"
  shows "\<exists>key. traffic_cipher toy_env s e d True = Enc_Aead RustCrypto AesGcm key"
  by (simp add: traffic_cipher_def assms toy_env_def create_encryptor_def parse_plain_aes_gcm
      create_aes_128_def create_aead_def preferred_aead_backend_def default_features_def is_aead_algorithm_def Let_def)

lemma alice_nonce: "fst (next_nonce 7 AToB alice) = (0, 0, u32_be 0 @ u64_be 0)"
  by (simp add: next_nonce_def maybe_rotate_epoch_def alice_def session_new_def Let_def sat_sub_def
      ROTATE_AFTER_PACKETS_def ROTATE_AFTER_MS_def)

lemma toy_encrypts:
  assumes ok: "cache_ok toy_env s" and v: "is_valid s" and alg: "send_cipher_algorithm s = ''aes-gcm''"
  shows "\<exists>q s'. encrypt_payload toy_env (replicate 12 0) now d sample_packet s = (Inr q, s')"
proof -
  obtain e q n s1 where n: "next_nonce now d s = ((e, q, n), s1)" by (metis prod.exhaust)
  have ok1: "cache_ok toy_env s1" using ok cache_ok_cong [of s1 s toy_env] next_nonce_frame [OF n] by simp
  obtain c s2 where g: "get_or_create_encryptor toy_env e d (session_generation s1) True s1 = (c, s2)" by (metis prod.exhaust)
  obtain key where c: "c = Some (Enc_Aead RustCrypto AesGcm key)"
    using get_or_create_correct(1) [OF ok1 g] traffic_cipher_cong [of s1 s toy_env] next_nonce_frame [OF n]
      toy_cipher [OF alg, of e d] by auto
  have "length n = AEAD_NONCE_SIZE" using next_nonce_seq [OF n] by (simp add: AEAD_NONCE_SIZE_def)
  then have "\<exists>q. encrypt_with_nonce toy_seal (replicate 12 0) (Enc_Aead RustCrypto AesGcm key) (Some n) sample_packet = Inr q"
    using layout_header [OF sample_layout] layout_payload [OF sample_layout] finish_encrypt_layout [OF sample_layout]
      sample_not_encrypted
    by (simp add: aes_gcm_encrypt_def pick_nonce_def toy_seal_def)
  with n g c v show ?thesis by (auto simp: encrypt_payload_def toy_env_def)
qed

lemma alice_encrypts: "\<exists>q s'. encrypt_payload toy_env (replicate 12 0) 7 AToB sample_packet alice = (Inr q, s')"
  unfolding alice_def by (rule toy_encrypts [OF cache_ok_new]) (simp_all add: is_valid_def session_new_def)


section \<open>Failures\<close>



section \<open>Limits of the replay protection\<close>

text \<open>
  The replay check forgets. Once the current epoch's slot has been idle for more than thirty seconds
  it is dropped, and the next datagram of the direction is then accepted whatever its epoch and number,
  even a number accepted before, and even when the other slot still holds that epoch and number.
\<close>

theorem replay_accepted_after_idle:
  assumes s: "sync_grace_expires_at_ms s = 0"
    and idle: "last_rx_ms (fst (dget d (rx_slots s))) \<noteq> 0"
      "EVICT_IDLE_AFTER_MS < sat_sub now (last_rx_ms (fst (dget d (rx_slots s))))"
  shows "fst (precheck_replay epoch seq d now s) \<and> fst (commit_replay epoch seq d now s)"
proof -
  obtain g s1 where r: "refresh_rx now s = (g, s1)" by (cases "refresh_rx now s") auto
  have "\<not> g" using s r by (auto simp: refresh_rx_def sync_rx_grace_active_def)
  moreover have "\<not> rx_valid (fst (dget d (rx_slots s1)))"
    unfolding refresh_rx_frame(1) [OF r] using idle by (simp add: dget_evict evict_slot_def rx_slot_clear_def)
  ultimately have "fst (precheck_replay epoch seq d now s)" by (simp add: precheck_decision [OF r] rx_decision_def)
  then show ?thesis using commit_decision [OF r] by simp
qed

text \<open>Bob has accepted number 5 of epoch 0, in the slot of the previous epoch, a second ago.\<close>

definition bob :: session where
  "bob = alice\<lparr>rx_slots := dset AToB (snd (slot_accept 1000 9 (new_rx_slot 1 1000)),
     snd (slot_accept 40000 5 (new_rx_slot 0 1000))) (rx_slots alice)\<rparr>"

theorem replay_accepted_after_idle_witness:
  "\<not> can_accept (rx_window (snd (dget AToB (rx_slots bob)))) 5 \<and> rx_valid (snd (dget AToB (rx_slots bob)))
   \<and> rx_epoch (snd (dget AToB (rx_slots bob))) = 0
   \<and> fst (precheck_replay 0 5 AToB 41000 bob) \<and> fst (commit_replay 0 5 AToB 41000 bob)"
proof -
  have "\<not> can_accept (rx_window (snd (slot_accept 40000 5 (new_rx_slot 0 1000)))) 5"
    "rx_valid (snd (slot_accept 40000 5 (new_rx_slot 0 1000)))" "rx_epoch (snd (slot_accept 40000 5 (new_rx_slot 0 1000))) = 0"
    using slot_accept_then_not [OF slot_wf_default(2), of 40000 5 0 1000 "snd (slot_accept 40000 5 (new_rx_slot 0 1000))"]
      slot_accept_can [of 40000 5 "new_rx_slot 0 1000"]
    by (simp_all add: prod_eq_iff new_rx_slot_def)
  moreover have "fst (precheck_replay 0 5 AToB 41000 bob) \<and> fst (commit_replay 0 5 AToB 41000 bob)"
    by (rule replay_accepted_after_idle)
      (simp_all add: bob_def alice_def session_new_def slot_accept_def case_prod_beta EVICT_IDLE_AFTER_MS_def sat_sub_def)
  ultimately show ?thesis by (simp add: bob_def)
qed

end
