(* ===== verification/PeerSession.thy ===== *)
theory PeerSession
  imports SecureDatagram
begin

text \<open>
  The sessions a node keeps with its peers (\<^verbatim>\<open>peers/conn/peer_session.rs\<close>) and the filter that puts them
  on a connection (\<^verbatim>\<open>PeerSessionTunnelFilter\<close> of \<^verbatim>\<open>peers/conn/peer_conn.rs\<close>).

    \<^item> A \<^verbatim>\<open>Arc<PeerSession>\<close> is shared by the store, the connections and the filters, so a node has an
      explicit heap: \<open>st_objs\<close> holds every session ever made and an \<^verbatim>\<open>Arc\<close> is an index into it. The map
      of the store is \<open>st_sessions\<close>.
    \<^item> Whether an \<^verbatim>\<open>Arc\<close> is held outside the store (\<^verbatim>\<open>strong_count > 1\<close>), the clocks and the random root
      key are arguments.
    \<^item> The lemmas show what a handshake establishes, that pinned identities and algorithms are stable,
      and what the filters at the two ends of a connection make of a packet.
\<close>

section \<open>Sessions\<close>

datatype peer_session_action = Join | Sync | Create

record session_key =
  sk_network_name :: string
  sk_peer_id :: u32

record peer_session =
  ps_peer_id :: u32
  peer_static_pubkey :: "bytes option"
  datagram :: session
  ps_invalidated :: bool

datatype store_error =
  Algo_Mismatch | Pubkey_Mismatch | No_Local_Session | Join_Generation_Mismatch | Missing_Root_Key

definition ps_new ::
  "u64 \<Rightarrow> u32 \<Rightarrow> bytes \<Rightarrow> u32 \<Rightarrow> u32 \<Rightarrow> string \<Rightarrow> string \<Rightarrow> bytes option \<Rightarrow> peer_session" where
  "ps_new now peer root gen epoch send_alg recv_alg pubkey =
     \<lparr>ps_peer_id = peer, peer_static_pubkey = pubkey,
      datagram = session_new now root gen epoch send_alg recv_alg, ps_invalidated = False\<rparr>"

definition ps_invalidate :: "peer_session \<Rightarrow> peer_session" where
  "ps_invalidate s = s\<lparr>ps_invalidated := True, datagram := invalidate (datagram s)\<rparr>"

definition ps_is_valid :: "peer_session \<Rightarrow> bool" where
  "ps_is_valid s \<longleftrightarrow> \<not> ps_invalidated s \<and> is_valid (datagram s)"

definition check_or_set_peer_static_pubkey :: "bytes option \<Rightarrow> peer_session \<Rightarrow> store_error + peer_session" where
  "check_or_set_peer_static_pubkey pubkey s =
     (case pubkey of
        None \<Rightarrow> Inr s
      | Some k \<Rightarrow>
          (case peer_static_pubkey s of
             Some existing \<Rightarrow> if existing \<noteq> k then Inl Pubkey_Mismatch else Inr s
           | None \<Rightarrow> Inr (s\<lparr>peer_static_pubkey := Some k\<rparr>)))"

definition ps_sync_root_key :: "u64 \<Rightarrow> bytes \<Rightarrow> u32 \<Rightarrow> u32 \<Rightarrow> bool \<Rightarrow> peer_session \<Rightarrow> peer_session" where
  "ps_sync_root_key now root gen epoch pres s = s\<lparr>datagram := sync_root_key now root gen epoch pres (datagram s)\<rparr>"

definition dir_for_sender :: "u32 \<Rightarrow> u32 \<Rightarrow> direction" where
  "dir_for_sender sender receiver = (if sender < receiver then AToB else BToA)"

definition ps_encrypt_payload ::
  "crypto_env \<Rightarrow> bytes \<Rightarrow> u64 \<Rightarrow> u32 \<Rightarrow> u32 \<Rightarrow> zc_packet \<Rightarrow> peer_session \<Rightarrow> (sd_error + zc_packet) \<times> peer_session" where
  "ps_encrypt_payload env rnd now sender receiver pkt s =
     (if \<not> ps_is_valid s then (Inl Session_Invalidated, s)
      else let (r, d) = encrypt_payload env rnd now (dir_for_sender sender receiver) pkt (datagram s)
           in (r, s\<lparr>datagram := d\<rparr>))"

definition ps_decrypt_payload ::
  "crypto_env \<Rightarrow> u64 \<Rightarrow> u32 \<Rightarrow> u32 \<Rightarrow> zc_packet \<Rightarrow> peer_session \<Rightarrow> (sd_error + zc_packet) \<times> peer_session" where
  "ps_decrypt_payload env now sender receiver pkt s =
     (if \<not> ps_is_valid s then (Inl Session_Invalidated, s)
      else let (r, d) = decrypt_payload env now (dir_for_sender sender receiver) pkt (datagram s)
           in (r, s\<lparr>datagram := d\<rparr>))"

section \<open>The store\<close>

record session_entry =
  en_session :: nat
  en_last_used_at :: nat

record session_store =
  st_sessions :: "(session_key, session_entry) kvs"
  st_objs :: "peer_session list"

definition SESSION_IDLE_TIMEOUT :: nat where "SESSION_IDLE_TIMEOUT = 60000"

definition store_new :: session_store where
  "store_new = \<lparr>st_sessions = [], st_objs = []\<rparr>"

definition obj :: "session_store \<Rightarrow> nat \<Rightarrow> peer_session" where
  "obj st i = st_objs st ! i"

definition set_obj :: "nat \<Rightarrow> peer_session \<Rightarrow> session_store \<Rightarrow> session_store" where
  "set_obj i s st = st\<lparr>st_objs := (st_objs st)[i := s]\<rparr>"

definition alloc :: "peer_session \<Rightarrow> session_store \<Rightarrow> nat \<times> session_store" where
  "alloc s st = (length (st_objs st), st\<lparr>st_objs := st_objs st @ [s]\<rparr>)"

definition touch :: "nat \<Rightarrow> session_key \<Rightarrow> session_store \<Rightarrow> session_store" where
  "touch inst key st =
     (case kv_get (st_sessions st) key of
        None \<Rightarrow> st
      | Some e \<Rightarrow> st\<lparr>st_sessions := kv_put key (e\<lparr>en_last_used_at := inst\<rparr>) (st_sessions st)\<rparr>)"

definition store_remove :: "session_key \<Rightarrow> session_store \<Rightarrow> session_store" where
  "store_remove key st = st\<lparr>st_sessions := kv_remove key (st_sessions st)\<rparr>"

definition store_insert :: "nat \<Rightarrow> session_key \<Rightarrow> nat \<Rightarrow> session_store \<Rightarrow> session_store" where
  "store_insert inst key i st =
     st\<lparr>st_sessions := kv_put key \<lparr>en_session = i, en_last_used_at = inst\<rparr> (st_sessions st)\<rparr>"

definition store_get :: "nat \<Rightarrow> session_key \<Rightarrow> session_store \<Rightarrow> nat option \<times> session_store" where
  "store_get inst key st =
     (case kv_get (st_sessions st) key of
        None \<Rightarrow> (None, st)
      | Some e \<Rightarrow>
          let st = touch inst key st
          in if ps_is_valid (obj st (en_session e)) then (Some (en_session e), st)
             else (None, store_remove key st))"

definition evict_unused_sessions_idle :: "(nat \<Rightarrow> bool) \<Rightarrow> nat \<Rightarrow> nat \<Rightarrow> session_store \<Rightarrow> session_store" where
  "evict_unused_sessions_idle held inst idle st =
     st\<lparr>st_sessions := kv_retain (\<lambda>_ e. ps_is_valid (obj st (en_session e))
            \<and> (held (en_session e) \<or> inst - en_last_used_at e < idle)) (st_sessions st)\<rparr>"

definition evict_unused_sessions :: "(nat \<Rightarrow> bool) \<Rightarrow> nat \<Rightarrow> session_store \<Rightarrow> session_store" where
  "evict_unused_sessions held inst st = evict_unused_sessions_idle held inst SESSION_IDLE_TIMEOUT st"

record upsert_return =
  ur_session :: nat
  ur_action :: peer_session_action
  ur_generation :: u32
  ur_root_key :: "bytes option"
  ur_initial_epoch :: u32

definition upsert_responder_session ::
  "bytes \<Rightarrow> u64 \<Rightarrow> nat \<Rightarrow> session_key \<Rightarrow> u32 option \<Rightarrow> string \<Rightarrow> string \<Rightarrow> bytes option \<Rightarrow> session_store
    \<Rightarrow> (store_error + upsert_return) \<times> session_store" where
  "upsert_responder_session new_root now inst key a_gen send_alg recv_alg pubkey st =
     (let existing = kv_get (st_sessions st) key; st = touch inst key st
      in case Option.bind existing (\<lambda>e. if ps_is_valid (obj st (en_session e)) then Some (en_session e) else None) of
        None \<Rightarrow>
          let (i, st) = alloc (ps_new now (sk_peer_id key) new_root 1 0 send_alg recv_alg pubkey) st
          in (Inr \<lparr>ur_session = i, ur_action = Create, ur_generation = 1, ur_root_key = Some new_root,
                   ur_initial_epoch = 0\<rparr>, store_insert inst key i st)
      | Some i \<Rightarrow>
          if \<not> check_encrypt_algo_same send_alg recv_alg (datagram (obj st i)) then (Inl Algo_Mismatch, st)
          else (case check_or_set_peer_static_pubkey pubkey (obj st i) of
            Inl e \<Rightarrow> (Inl e, st)
          | Inr s \<Rightarrow>
              let st = set_obj i s st; local_gen = session_generation (datagram s)
              in if a_gen = Some local_gen then
                   (Inr \<lparr>ur_session = i, ur_action = Join, ur_generation = local_gen, ur_root_key = None,
                         ur_initial_epoch = 0\<rparr>, st)
                 else
                   (Inr \<lparr>ur_session = i, ur_action = Sync, ur_generation = local_gen,
                         ur_root_key = Some (root_key (datagram s)),
                         ur_initial_epoch = next_sync_epoch (datagram s)\<rparr>, st)))"

definition or_insert_session ::
  "u64 \<Rightarrow> nat \<Rightarrow> session_key \<Rightarrow> bytes \<Rightarrow> u32 \<Rightarrow> u32 \<Rightarrow> string \<Rightarrow> string \<Rightarrow> bytes option \<Rightarrow> session_store
    \<Rightarrow> nat \<times> session_store" where
  "or_insert_session now inst key root gen epoch send_alg recv_alg pubkey st =
     (case kv_get (st_sessions st) key of
        Some e \<Rightarrow> (en_session e, touch inst key st)
      | None \<Rightarrow>
          let (i, st) = alloc (ps_new now (sk_peer_id key) root gen epoch send_alg recv_alg pubkey) st
          in (i, store_insert inst key i st))"

definition drop_invalid :: "session_key \<Rightarrow> session_store \<Rightarrow> session_store" where
  "drop_invalid key st =
     (case kv_get (st_sessions st) key of
        None \<Rightarrow> st
      | Some e \<Rightarrow> if ps_is_valid (obj st (en_session e)) then st else store_remove key st)"

definition apply_initiator_action ::
  "u64 \<Rightarrow> nat \<Rightarrow> session_key \<Rightarrow> peer_session_action \<Rightarrow> u32 \<Rightarrow> bytes option \<Rightarrow> u32 \<Rightarrow> string \<Rightarrow> string \<Rightarrow> bytes option
    \<Rightarrow> session_store \<Rightarrow> (store_error + nat) \<times> session_store" where
  "apply_initiator_action now inst key action b_gen root_key_32 initial_epoch send_alg recv_alg pubkey st =
     (case action of
        Join \<Rightarrow>
          (case store_get inst key st of
             (None, st) \<Rightarrow> (Inl No_Local_Session, st)
           | (Some i, st) \<Rightarrow>
               if \<not> check_encrypt_algo_same send_alg recv_alg (datagram (obj st i)) then (Inl Algo_Mismatch, st)
               else (case check_or_set_peer_static_pubkey pubkey (obj st i) of
                 Inl e \<Rightarrow> (Inl e, st)
               | Inr s \<Rightarrow>
                   let st = set_obj i s st
                   in if session_generation (datagram s) \<noteq> b_gen then (Inl Join_Generation_Mismatch, st)
                      else (Inr i, st)))
      | _ \<Rightarrow>
          (case root_key_32 of
             None \<Rightarrow> (Inl Missing_Root_Key, st)
           | Some root \<Rightarrow>
               let (i, st) = or_insert_session now inst key root b_gen initial_epoch send_alg recv_alg pubkey
                               (drop_invalid key st)
               in if \<not> check_encrypt_algo_same send_alg recv_alg (datagram (obj st i)) then (Inl Algo_Mismatch, st)
                  else (case check_or_set_peer_static_pubkey pubkey (obj st i) of
                    Inl e \<Rightarrow> (Inl e, st)
                  | Inr s \<Rightarrow>
                      (Inr i, set_obj i (ps_sync_root_key now root b_gen initial_epoch (action = Sync) s) st))))"

text \<open>
  The part of the Noise handshake that concerns the store: the initiator offers the generation of the
  session it has (\<^verbatim>\<open>do_noise_handshake_as_client\<close>).
\<close>

definition offer_generation :: "nat \<Rightarrow> string \<Rightarrow> u32 option \<Rightarrow> session_store \<Rightarrow> u32 option \<times> session_store" where
  "offer_generation inst network peer_id_hint st =
     (case peer_id_hint of
        None \<Rightarrow> (None, st)
      | Some peer \<Rightarrow>
          (case store_get inst \<lparr>sk_network_name = network, sk_peer_id = peer\<rparr> st of
             (None, st) \<Rightarrow> (None, st)
           | (Some i, st) \<Rightarrow> (Some (session_generation (datagram (obj st i))), st)))"

section \<open>The filter of a connection\<close>

text \<open>
  The filter of a tunnel keeps cells shared with the connection; the session is an \<^verbatim>\<open>Arc\<close>, here an index
  into the heap of the node. What the stream yields is a packet or an error, and \<open>None\<close> drops it.
\<close>

record tunnel_filter =
  tf_enabled :: bool
  tf_my_peer_id :: u32
  tf_peer_id :: "u32 option"
  tf_session :: "nat option"

datatype 'e stream_error = Stream_Error 'e | InternalError string

definition new_with_peer :: "u32 \<Rightarrow> bool \<Rightarrow> tunnel_filter" where
  "new_with_peer my_peer_id enabled =
     \<lparr>tf_enabled = enabled, tf_my_peer_id = my_peer_id, tf_peer_id = None, tf_session = None\<rparr>"

definition set_my_peer_id :: "u32 \<Rightarrow> tunnel_filter \<Rightarrow> tunnel_filter" where
  "set_my_peer_id p f = f\<lparr>tf_my_peer_id := p\<rparr>"

definition set_peer_id :: "u32 \<Rightarrow> tunnel_filter \<Rightarrow> tunnel_filter" where
  "set_peer_id p f = f\<lparr>tf_peer_id := Some p\<rparr>"

definition set_session :: "nat \<Rightarrow> tunnel_filter \<Rightarrow> tunnel_filter" where
  "set_session i f = f\<lparr>tf_session := Some i\<rparr>"

definition should_skip_encrypt :: "pm_header \<Rightarrow> bool" where
  "should_skip_encrypt h \<longleftrightarrow>
     packet_type h \<in> packet_kind_u8 ` {Pkt_NoiseHandshakeMsg1, Pkt_NoiseHandshakeMsg2, Pkt_NoiseHandshakeMsg3,
       Pkt_RelayHandshake, Pkt_RelayHandshakeAck, Pkt_Ping, Pkt_Pong}"

definition before_send ::
  "crypto_env \<Rightarrow> bytes \<Rightarrow> u64 \<Rightarrow> tunnel_filter \<Rightarrow> zc_packet \<Rightarrow> session_store \<Rightarrow> zc_packet option \<times> session_store" where
  "before_send env rnd now f data st =
     (if \<not> tf_enabled f then (Some data, st)
      else case peer_manager_header data of
        None \<Rightarrow> (Some data, st)
      | Some hdr \<Rightarrow>
          if should_skip_encrypt hdr then (Some data, st)
          else case tf_peer_id f of
            None \<Rightarrow> (Some data, st)
          | Some peer \<Rightarrow>
              if tf_my_peer_id f \<noteq> from_peer_id hdr \<or> to_peer_id hdr \<noteq> peer then (Some data, st)
              else case tf_session f of
                None \<Rightarrow> (Some data, st)
              | Some i \<Rightarrow>
                  let (r, s) = ps_encrypt_payload env rnd now (tf_my_peer_id f) peer data (obj st i)
                  in (case r of Inl _ \<Rightarrow> None | Inr q \<Rightarrow> Some q, set_obj i s st))"

definition after_received ::
  "crypto_env \<Rightarrow> u64 \<Rightarrow> tunnel_filter \<Rightarrow> 'e stream_error + zc_packet \<Rightarrow> session_store
    \<Rightarrow> ('e stream_error + zc_packet) option \<times> session_store" where
  "after_received env now f item st =
     (if \<not> tf_enabled f then (Some item, st)
      else case item of
        Inl e \<Rightarrow> (Some (Inl e), st)
      | Inr data \<Rightarrow>
          (case peer_manager_header data of
             None \<Rightarrow> (Some (Inr data), st)
           | Some hdr \<Rightarrow>
               if should_skip_encrypt hdr \<or> from_peer_id hdr = 0 \<or> tf_peer_id f \<noteq> Some (from_peer_id hdr)
               then (Some (Inr data), st)
               else case tf_session f of
                 None \<Rightarrow> (Some (Inr data), st)
               | Some i \<Rightarrow>
                   if to_peer_id hdr \<noteq> tf_my_peer_id f then (Some (Inr data), st)
                   else
                     let (r, s) = ps_decrypt_payload env now (from_peer_id hdr) (tf_my_peer_id f) data (obj st i)
                     in (case r of
                           Inl _ \<Rightarrow>
                             if \<not> ps_is_valid s
                             then Some (Inl (InternalError ''session invalidated due to consecutive decrypt failures''))
                             else None
                         | Inr q \<Rightarrow> Some (Inr q), set_obj i s st)))"

section \<open>How a session evolves\<close>

text \<open>
  What never changes in the life of a session: the peer, the algorithms, a pinned static key; and an
  invalidated session stays invalidated.
\<close>

definition evolves :: "peer_session \<Rightarrow> peer_session \<Rightarrow> bool" where
  "evolves s t \<longleftrightarrow> ps_peer_id t = ps_peer_id s
     \<and> (peer_static_pubkey s \<noteq> None \<longrightarrow> peer_static_pubkey t = peer_static_pubkey s)
     \<and> send_cipher_algorithm (datagram t) = send_cipher_algorithm (datagram s)
     \<and> recv_cipher_algorithm (datagram t) = recv_cipher_algorithm (datagram s)
     \<and> (ps_is_valid t \<longrightarrow> ps_is_valid s)"

lemma evolves_refl [simp]: "evolves s s"
  by (simp add: evolves_def)

lemma evolves_trans: "evolves s t \<Longrightarrow> evolves t u \<Longrightarrow> evolves s u"
  by (auto simp: evolves_def)

lemma evolves_datagram:
  "send_cipher_algorithm d = send_cipher_algorithm (datagram s) \<Longrightarrow>
   recv_cipher_algorithm d = recv_cipher_algorithm (datagram s) \<Longrightarrow>
   (invalidated (datagram s) \<Longrightarrow> invalidated d) \<Longrightarrow> evolves s (s\<lparr>datagram := d\<rparr>)"
  by (auto simp: evolves_def ps_is_valid_def is_valid_def)

lemma encrypt_payload_frame:
  assumes "cache_ok env s" "encrypt_payload env rnd now d p s = (r, s')"
  shows "root_key s' = root_key s" "send_cipher_algorithm s' = send_cipher_algorithm s"
    "recv_cipher_algorithm s' = recv_cipher_algorithm s" "invalidated s \<Longrightarrow> invalidated s'"
proof -
  obtain epoch seq n s1 where n: "next_nonce now d s = ((epoch, seq, n), s1)" by (metis prod.exhaust)
  note fr = next_nonce_frame [OF n]
  have ok1: "cache_ok env s1" using assms(1) cache_ok_cong [of s1 s env] fr by simp
  obtain c s2 where g: "get_or_create_encryptor env epoch d (session_generation s1) True s1 = (c, s2)" by (metis prod.exhaust)
  obtain kc where s2: "s2 = s1\<lparr>key_cache := kc\<rparr>" using get_or_create_correct(3) [OF ok1 g] by blast
  have "s' = s \<or> s' = s2 \<or> s' = invalidate s2"
    using assms(2) n g by (auto simp: encrypt_payload_def split: if_splits option.splits sum.splits)
  then show "root_key s' = root_key s" "send_cipher_algorithm s' = send_cipher_algorithm s"
    "recv_cipher_algorithm s' = recv_cipher_algorithm s" "invalidated s \<Longrightarrow> invalidated s'"
    by (auto simp: s2 fr invalidate_def)
qed

lemma decrypt_payload_frame:
  assumes "cache_ok env s" "decrypt_payload env now d p s = (r, s')"
  shows "root_key s' = root_key s \<and> send_cipher_algorithm s' = send_cipher_algorithm s
    \<and> recv_cipher_algorithm s' = recv_cipher_algorithm s \<and> (invalidated s \<longrightarrow> invalidated s')"
proof -
  obtain g s0 where r0: "refresh_rx now s = (g, s0)" by (cases "refresh_rx now s") auto
  note fr = refresh_rx_frame [OF r0]
  from assms show ?thesis
  proof (cases rule: decrypt_payload_cases)
    case (early e)
    then show ?thesis using fr by (auto simp: r0)
  next
    case (fail pl nonce err s1)
    obtain kc where "s1 = s0\<lparr>key_cache := kc\<rparr>" using fail(7) r0 by fastforce
    then show ?thesis using fail(8) fr by (simp add: Let_def invalidate_def)
  next
    case (accept pl nonce q s1)
    obtain kc where s1: "s1 = s0\<lparr>key_cache := kc, decrypt_fail_count := 0\<rparr>" using accept(7) r0 by fastforce
    from commit_frame(1,2,3,5) [OF accept(8)] show ?thesis by (simp add: s1 fr)
  qed
qed

lemma evolves_encrypt:
  assumes "session_reach env (datagram s)"
  shows "evolves s (snd (ps_encrypt_payload env rnd now a b p s))"
proof -
  obtain r d where e: "encrypt_payload env rnd now (dir_for_sender a b) p (datagram s) = (r, d)" by (metis prod.exhaust)
  note fr = encrypt_payload_frame [OF session_reach_cache_ok [OF assms] e]
  have "evolves s (s\<lparr>datagram := d\<rparr>)" by (rule evolves_datagram) (simp_all add: fr)
  with e show ?thesis by (simp add: ps_encrypt_payload_def)
qed

lemma evolves_decrypt:
  assumes "session_reach env (datagram s)"
  shows "evolves s (snd (ps_decrypt_payload env now a b p s))"
proof -
  obtain r d where e: "decrypt_payload env now (dir_for_sender a b) p (datagram s) = (r, d)" by (metis prod.exhaust)
  note fr = decrypt_payload_frame [OF session_reach_cache_ok [OF assms] e]
  have "evolves s (s\<lparr>datagram := d\<rparr>)" by (rule evolves_datagram) (simp_all add: fr)
  with e show ?thesis by (simp add: ps_decrypt_payload_def)
qed

lemma evolves_sync: "evolves s (ps_sync_root_key now root gen e pres s)"
  unfolding ps_sync_root_key_def by (rule evolves_datagram) (simp_all add: sync_root_key_def Let_def)

lemma evolves_invalidate: "evolves s (ps_invalidate s)"
  by (simp add: evolves_def ps_invalidate_def ps_is_valid_def invalidate_def)

lemma evolves_pubkey:
  assumes "check_or_set_peer_static_pubkey pk s = Inr t"
  shows "evolves s t" "datagram t = datagram s" "ps_invalidated t = ps_invalidated s"
  using assms by (auto simp: check_or_set_peer_static_pubkey_def evolves_def ps_is_valid_def split: option.splits if_splits)

lemma reach_ps:
  assumes "session_reach env (datagram s)"
  shows "session_reach env (datagram (snd (ps_encrypt_payload env rnd now a b p s)))"
    "session_reach env (datagram (snd (ps_decrypt_payload env now a b p s)))"
    "session_reach env (datagram (ps_invalidate s))"
    "session_reach env (datagram (ps_sync_root_key now root gen e pres s))"
  using reach_encrypt [OF assms] reach_decrypt [OF assms] reach_invalidate [OF assms] reach_sync [OF assms] assms
  by (simp_all add: ps_encrypt_payload_def ps_decrypt_payload_def ps_invalidate_def ps_sync_root_key_def case_prod_beta)

section \<open>How a store evolves\<close>

definition store_ok :: "crypto_env \<Rightarrow> session_store \<Rightarrow> bool" where
  "store_ok env st \<longleftrightarrow> kv_ok (st_sessions st)
     \<and> (\<forall>k e. kv_get (st_sessions st) k = Some e \<longrightarrow>
          en_session e < length (st_objs st) \<and> ps_peer_id (obj st (en_session e)) = sk_peer_id k)
     \<and> (\<forall>i < length (st_objs st). session_reach env (datagram (obj st i)))"

definition heap_evolves :: "session_store \<Rightarrow> session_store \<Rightarrow> bool" where
  "heap_evolves st st' \<longleftrightarrow> length (st_objs st) \<le> length (st_objs st')
     \<and> (\<forall>i < length (st_objs st). evolves (obj st i) (obj st' i))"

lemma heap_evolves_refl [simp]: "heap_evolves st st"
  by (simp add: heap_evolves_def)

lemma heap_evolves_trans: "heap_evolves st st' \<Longrightarrow> heap_evolves st' st'' \<Longrightarrow> heap_evolves st st''"
  unfolding heap_evolves_def by (meson evolves_trans le_trans less_le_trans)

definition store_goes :: "crypto_env \<Rightarrow> session_store \<Rightarrow> session_store \<Rightarrow> bool" where
  "store_goes env st st' \<longleftrightarrow> (store_ok env st \<longrightarrow> store_ok env st' \<and> heap_evolves st st')"

lemma goes_refl [simp]: "store_goes env st st"
  by (simp add: store_goes_def)

lemma goes_trans [trans]: "store_goes env st st' \<Longrightarrow> store_goes env st' st'' \<Longrightarrow> store_goes env st st''"
  unfolding store_goes_def by (meson heap_evolves_trans)

lemma goes_touch: "store_goes env st (touch inst key st)"
  by (auto simp: store_goes_def touch_def store_ok_def heap_evolves_def obj_def split: option.splits)

lemma goes_remove: "store_goes env st (store_remove key st)"
  by (auto simp: store_goes_def store_remove_def store_ok_def heap_evolves_def obj_def)

lemma goes_evict: "store_goes env st (evict_unused_sessions_idle held inst idle st)"
  by (auto simp: store_goes_def evict_unused_sessions_idle_def store_ok_def heap_evolves_def obj_def kvm.get_retain)

lemma goes_set_obj:
  assumes "evolves (obj st i) s" "session_reach env (datagram s)"
  shows "store_goes env st (set_obj i s st)"
proof -
  have "obj (set_obj i s st) j = (if j = i then s else obj st j)" if "j < length (st_objs st)" for j
    using that by (simp add: obj_def set_obj_def nth_list_update)
  with assms show ?thesis
    unfolding store_goes_def store_ok_def heap_evolves_def by (auto simp: set_obj_def evolves_def)
qed

lemma goes_alloc_insert:
  assumes "session_reach env (datagram s)" "ps_peer_id s = sk_peer_id key"
  shows "store_goes env st (store_insert inst key (length (st_objs st)) (st\<lparr>st_objs := st_objs st @ [s]\<rparr>))"
  using assms unfolding store_goes_def store_ok_def heap_evolves_def
  by (auto simp: store_insert_def obj_def nth_append less_Suc_eq)

lemma goes_get: "store_goes env st (snd (store_get inst key st))"
  by (auto simp: store_get_def Let_def goes_touch goes_trans [OF goes_touch goes_remove] split: option.split)

lemma goes_drop_invalid: "store_goes env st (drop_invalid key st)"
  by (simp add: drop_invalid_def goes_remove split: option.split)

lemma goes_or_insert: "store_goes env st (snd (or_insert_session now inst key root gen e sa ra pk st))"
  using goes_alloc_insert [of env "ps_new now (sk_peer_id key) root gen e sa ra pk" key]
  by (simp add: or_insert_session_def alloc_def goes_touch ps_new_def reach_new Let_def split: option.split)

text \<open>A session found in the map may be replaced by what the pubkey check makes of it.\<close>

lemma goes_pubkey:
  assumes "store_ok env st" "kv_get (st_sessions st) key = Some e"
    and "check_or_set_peer_static_pubkey pk (obj st (en_session e)) = Inr s"
  shows "store_goes env st (set_obj (en_session e) s st)"
proof (rule goes_set_obj)
  show "evolves (obj st (en_session e)) s" using evolves_pubkey(1) [OF assms(3)] .
  show "session_reach env (datagram s)" using assms evolves_pubkey(2) [OF assms(3)] by (simp add: store_ok_def)
qed

lemma kv_get_touch:
  "kv_get (st_sessions (touch inst key st)) key = map_option (\<lambda>e. e\<lparr>en_last_used_at := inst\<rparr>) (kv_get (st_sessions st) key)"
  by (simp add: touch_def split: option.split)

lemma obj_touch [simp]: "obj (touch inst key st) i = obj st i" "length (st_objs (touch inst key st)) = length (st_objs st)"
  by (simp_all add: touch_def obj_def split: option.split)

lemma upsert_cases:
  assumes "upsert_responder_session nr now inst key a_gen sa ra pk st = (r, st')"
  obtains (create) "\<And>e. kv_get (st_sessions st) key = Some e \<Longrightarrow> \<not> ps_is_valid (obj st (en_session e))"
      "r = Inr \<lparr>ur_session = length (st_objs st), ur_action = Create, ur_generation = 1, ur_root_key = Some nr, ur_initial_epoch = 0\<rparr>"
      "st' = store_insert inst key (length (st_objs st)) ((touch inst key st)\<lparr>st_objs := st_objs st @ [ps_new now (sk_peer_id key) nr 1 0 sa ra pk]\<rparr>)"
  | (error) x where "r = Inl x" "st' = touch inst key st"
  | (found) e s where "kv_get (st_sessions st) key = Some e" "ps_is_valid (obj st (en_session e))"
      "check_encrypt_algo_same sa ra (datagram (obj st (en_session e)))"
      "check_or_set_peer_static_pubkey pk (obj st (en_session e)) = Inr s"
      "st' = set_obj (en_session e) s (touch inst key st)"
      "r = Inr (let g = session_generation (datagram s) in
             if a_gen = Some g
             then \<lparr>ur_session = en_session e, ur_action = Join, ur_generation = g, ur_root_key = None, ur_initial_epoch = 0\<rparr>
             else \<lparr>ur_session = en_session e, ur_action = Sync, ur_generation = g,
                    ur_root_key = Some (root_key (datagram s)), ur_initial_epoch = next_sync_epoch (datagram s)\<rparr>)"
proof -
  have st_objs: "st_objs (touch inst key st) = st_objs st" by (simp add: touch_def split: option.split)
  show thesis
  proof (cases "\<exists>e. kv_get (st_sessions st) key = Some e \<and> ps_is_valid (obj st (en_session e))")
    case False
    then have "Option.bind (kv_get (st_sessions st) key)
        (\<lambda>e. if ps_is_valid (obj st (en_session e)) then Some (en_session e) else None) = None"
      by (cases "kv_get (st_sessions st) key") auto
    with assms False show thesis
      by (intro create) (auto simp: upsert_responder_session_def alloc_def st_objs Let_def)
  next
    case True
    then obtain e where e: "kv_get (st_sessions st) key = Some e" "ps_is_valid (obj st (en_session e))" by blast
    show thesis
    proof (cases "check_encrypt_algo_same sa ra (datagram (obj st (en_session e)))
        \<and> (\<exists>s. check_or_set_peer_static_pubkey pk (obj st (en_session e)) = Inr s)")
      case True
      then obtain s where "check_encrypt_algo_same sa ra (datagram (obj st (en_session e)))"
        "check_or_set_peer_static_pubkey pk (obj st (en_session e)) = Inr s" by blast
      with assms e show thesis
        by (intro found [OF e]) (auto simp: upsert_responder_session_def Let_def split: if_splits)
    next
      case False
      with assms e show thesis
        by (intro error [of "projl r"])
          (auto simp: upsert_responder_session_def Let_def split: if_splits sum.splits)
    qed
  qed
qed

lemma goes_upsert:
  assumes ok: "store_ok env st"
  shows "store_goes env st (snd (upsert_responder_session nr now inst key a_gen sa ra pk st))"
proof -
  obtain r st' where u: "upsert_responder_session nr now inst key a_gen sa ra pk st = (r, st')" by (metis prod.exhaust)
  let ?t = "touch inst key st"
  have ok': "store_ok env ?t" using ok goes_touch [of env st inst key] by (simp add: store_goes_def)
  from u have "store_goes env ?t st'"
  proof (cases rule: upsert_cases)
    case create
    have "length (st_objs ?t) = length (st_objs st)" "st_objs ?t = st_objs st" by (simp_all add: touch_def split: option.split)
    with create goes_alloc_insert [of env "ps_new now (sk_peer_id key) nr 1 0 sa ra pk" key ?t inst] show ?thesis
      by (simp add: ps_new_def reach_new)
  next
    case (found e s)
    have "kv_get (st_sessions ?t) key = Some (e\<lparr>en_last_used_at := inst\<rparr>)" by (simp add: kv_get_touch found)
    from goes_pubkey [OF ok' this, of pk s] found show ?thesis by simp
  qed simp
  with goes_touch u show ?thesis by (metis goes_trans snd_conv)
qed

lemma or_insert_entry:
  assumes "or_insert_session now inst key root gen e sa ra pk st = (i, st')"
  obtains en where "kv_get (st_sessions st') key = Some en" "en_session en = i"
  using assms by (auto simp: or_insert_session_def alloc_def store_insert_def kv_get_touch split: option.splits)

lemma get_entry:
  assumes "store_get inst key st = (Some i, st')"
  obtains en where "kv_get (st_sessions st') key = Some en" "en_session en = i" "ps_is_valid (obj st' i)"
    "\<And>j. obj st' j = obj st j"
  using assms by (auto simp: store_get_def kv_get_touch Let_def split: option.splits if_splits)

lemma goes_sync:
  assumes "store_ok env st" "kv_get (st_sessions st) key = Some e"
    and "check_or_set_peer_static_pubkey pk (obj st (en_session e)) = Inr s"
  shows "store_goes env st (set_obj (en_session e) (ps_sync_root_key now root gen ep pres s) st)"
proof (rule goes_set_obj)
  show "evolves (obj st (en_session e)) (ps_sync_root_key now root gen ep pres s)"
    using evolves_pubkey(1) [OF assms(3)] evolves_sync by (rule evolves_trans)
  show "session_reach env (datagram (ps_sync_root_key now root gen ep pres s))"
    using assms evolves_pubkey(2) [OF assms(3)] by (intro reach_ps(4)) (simp add: store_ok_def)
qed

text \<open>What the initiator does on a successful action: the session that ends up in the map is returned.\<close>

lemma apply_cases:
  assumes "apply_initiator_action now inst key action gen root_opt ep sa ra pk st = (r, st')"
  obtains (join) i st1 s where "action = Join" "store_get inst key st = (Some i, st1)"
      "check_encrypt_algo_same sa ra (datagram (obj st1 i))" "check_or_set_peer_static_pubkey pk (obj st1 i) = Inr s"
      "st' = set_obj i s st1"
      "r = (if session_generation (datagram s) = gen then Inr i else Inl Join_Generation_Mismatch)"
  | (sync) root i st1 s where "action \<noteq> Join" "root_opt = Some root"
      "or_insert_session now inst key root gen ep sa ra pk (drop_invalid key st) = (i, st1)"
      "check_encrypt_algo_same sa ra (datagram (obj st1 i))" "check_or_set_peer_static_pubkey pk (obj st1 i) = Inr s"
      "r = Inr i" "st' = set_obj i (ps_sync_root_key now root gen ep (action = Sync) s) st1"
  | (error) x where "r = Inl x" "st' \<in> {st, snd (store_get inst key st)}
      \<union> range (\<lambda>root. snd (or_insert_session now inst key root gen ep sa ra pk (drop_invalid key st)))"
proof (cases "action = Join")
  case True
  show thesis
  proof (cases "store_get inst key st")
    case (Pair oi st1)
    show thesis
    proof (cases oi)
      case None
      with assms True Pair show thesis by (intro error [of "projl r"]) (auto simp: apply_initiator_action_def)
    next
      case (Some i)
      with Pair have g: "store_get inst key st = (Some i, st1)" by simp
      show thesis
      proof (cases "check_encrypt_algo_same sa ra (datagram (obj st1 i))
          \<and> (\<exists>s. check_or_set_peer_static_pubkey pk (obj st1 i) = Inr s)")
        case t: True
        then obtain s where s: "check_encrypt_algo_same sa ra (datagram (obj st1 i))"
          "check_or_set_peer_static_pubkey pk (obj st1 i) = Inr s" by blast
        with assms True g show thesis
          by (intro join [OF True g s]) (auto simp: apply_initiator_action_def Let_def split: if_splits)
      next
        case f: False
        with assms True g show thesis
          by (intro error [of "projl r"]) (auto simp: apply_initiator_action_def split: if_splits sum.splits)
      qed
    qed
  qed
next
  case False
  show thesis
  proof (cases root_opt)
    case None
    with assms False show thesis
      by (intro error [of "projl r"]) (auto simp: apply_initiator_action_def split: peer_session_action.splits)
  next
    case (Some root)
    obtain i st1 where o: "or_insert_session now inst key root gen ep sa ra pk (drop_invalid key st) = (i, st1)"
      by (metis prod.exhaust)
    have st1: "st1 \<in> range (\<lambda>root. snd (or_insert_session now inst key root gen ep sa ra pk (drop_invalid key st)))"
      by (rule range_eqI [of _ _ root]) (simp add: o)
    show thesis
    proof (cases "check_encrypt_algo_same sa ra (datagram (obj st1 i))
        \<and> (\<exists>s. check_or_set_peer_static_pubkey pk (obj st1 i) = Inr s)")
      case True
      then obtain s where s: "check_encrypt_algo_same sa ra (datagram (obj st1 i))"
        "check_or_set_peer_static_pubkey pk (obj st1 i) = Inr s" by blast
      with assms False Some o show thesis
        by (intro sync [OF False Some o s]) (auto simp: apply_initiator_action_def split: peer_session_action.splits)
    next
      case f: False
      with assms False Some o st1 show thesis
        by (intro error [of "projl r"])
          (auto simp: apply_initiator_action_def split: peer_session_action.splits if_splits sum.splits)
    qed
  qed
qed

lemma goes_apply:
  assumes ok: "store_ok env st"
  shows "store_goes env st (snd (apply_initiator_action now inst key action gen root_opt ep sa ra pk st))"
proof -
  obtain r st' where u: "apply_initiator_action now inst key action gen root_opt ep sa ra pk st = (r, st')"
    by (metis prod.exhaust)
  have ins: "store_goes env st (snd (or_insert_session now inst key root gen ep sa ra pk (drop_invalid key st)))" for root
    using goes_drop_invalid goes_or_insert by (rule goes_trans)
  from u have "store_goes env st st'"
  proof (cases rule: apply_cases)
    case (join i st1 s)
    from goes_get [of env st inst key] join(2) have 1: "store_goes env st st1" by simp
    obtain en where "kv_get (st_sessions st1) key = Some en" "en_session en = i" using get_entry [OF join(2)] by metis
    with goes_pubkey [of env st1 key en pk s] 1 ok join show ?thesis
      by (auto simp: store_goes_def intro: heap_evolves_trans)
  next
    case (sync root i st1 s)
    from ins [of root] sync(3) have 1: "store_goes env st st1" by simp
    obtain en where "kv_get (st_sessions st1) key = Some en" "en_session en = i" using or_insert_entry [OF sync(3)] by metis
    with goes_sync [of env st1 key en pk s] 1 ok sync show ?thesis
      by (auto simp: store_goes_def intro: heap_evolves_trans)
  next
    case (error x)
    with ins goes_get show ?thesis by auto
  qed
  with u show ?thesis by simp
qed

text \<open>Everything that happens to the sessions of a node, in any order.\<close>

inductive store_step :: "crypto_env \<Rightarrow> session_store \<Rightarrow> session_store \<Rightarrow> bool" for env where
  step_get: "store_step env st (snd (store_get inst key st))"
| step_remove: "store_step env st (store_remove key st)"
| step_evict: "store_step env st (evict_unused_sessions held inst st)"
| step_upsert: "store_step env st (snd (upsert_responder_session nr now inst key a_gen sa ra pk st))"
| step_apply: "store_step env st (snd (apply_initiator_action now inst key action gen root ep sa ra pk st))"
| step_encrypt: "i < length (st_objs st) \<Longrightarrow>
    store_step env st (set_obj i (snd (ps_encrypt_payload env rnd now a b p (obj st i))) st)"
| step_decrypt: "i < length (st_objs st) \<Longrightarrow>
    store_step env st (set_obj i (snd (ps_decrypt_payload env now a b p (obj st i))) st)"
| step_invalidate: "i < length (st_objs st) \<Longrightarrow> store_step env st (set_obj i (ps_invalidate (obj st i)) st)"

lemma store_ok_reach: "store_ok env st \<Longrightarrow> i < length (st_objs st) \<Longrightarrow> session_reach env (datagram (obj st i))"
  by (simp add: store_ok_def)

lemma store_step_goes:
  assumes "store_step env st st'" "store_ok env st"
  shows "store_ok env st' \<and> heap_evolves st st'"
proof -
  from assms have "store_goes env st st'"
    by (induction rule: store_step.cases)
      (simp_all add: goes_get goes_remove goes_evict evict_unused_sessions_def goes_upsert goes_apply goes_set_obj
        evolves_encrypt evolves_decrypt evolves_invalidate reach_ps store_ok_reach)
  with assms(2) show ?thesis by (simp add: store_goes_def)
qed

lemma store_steps_go:
  assumes "(store_step env)\<^sup>*\<^sup>* st st'" "store_ok env st"
  shows "store_ok env st' \<and> heap_evolves st st'"
  using assms by (induction rule: rtranclp_induct) (auto dest: store_step_goes intro: heap_evolves_trans)

lemma store_ok_new: "store_ok env store_new"
  by (auto simp: store_ok_def store_new_def)

lemmas reachable_ok = store_steps_go [OF _ store_ok_new, THEN conjunct1]

text \<open>
  C29: The identity of a session is stable: whatever else happens on the node, a session keeps its peer
  and its two algorithms, a static key once pinned is never replaced, and a session that was given up
  is never used again.
\<close>

theorem session_identity_stable:
  assumes "(store_step env)\<^sup>*\<^sup>* store_new st" "(store_step env)\<^sup>*\<^sup>* st st'" "i < length (st_objs st)"
  shows "ps_peer_id (obj st' i) = ps_peer_id (obj st i)
    \<and> send_cipher_algorithm (datagram (obj st' i)) = send_cipher_algorithm (datagram (obj st i))
    \<and> recv_cipher_algorithm (datagram (obj st' i)) = recv_cipher_algorithm (datagram (obj st i))
    \<and> (peer_static_pubkey (obj st i) = Some k \<longrightarrow> peer_static_pubkey (obj st' i) = Some k)
    \<and> (ps_is_valid (obj st' i) \<longrightarrow> ps_is_valid (obj st i))"
  using store_steps_go [OF assms(2) reachable_ok [OF assms(1)]] assms(3)
  by (auto simp: heap_evolves_def evolves_def)

definition key20 :: session_key where
  "key20 = \<lparr>sk_network_name = ''net'', sk_peer_id = 20\<rparr>"

definition node1 :: session_store where
  "node1 = snd (upsert_responder_session (replicate 32 1) 5 100 key20 None ''aes-gcm'' ''aes-gcm'' None store_new)"

lemma node1_eq: "node1 = \<lparr>st_sessions = [(key20, \<lparr>en_session = 0, en_last_used_at = 100\<rparr>)],
    st_objs = [ps_new 5 20 (replicate 32 1) 1 0 ''aes-gcm'' ''aes-gcm'' None]\<rparr>"
  by (simp add: node1_def upsert_responder_session_def store_new_def touch_def alloc_def store_insert_def kv_put_def
      key20_def)

lemma node1_reachable: "(store_step env)\<^sup>*\<^sup>* store_new node1"
  unfolding node1_def by (rule r_into_rtranclp) (rule step_upsert)

theorem session_identity_stable_witness:
  "ps_peer_id (obj (set_obj 0 (ps_invalidate (obj node1 0)) node1) 0) = 20 \<and> \<not> ps_is_valid (obj (set_obj 0 (ps_invalidate (obj node1 0)) node1) 0)"
proof -
  have i: "0 < length (st_objs node1)" by (simp add: node1_eq)
  have "(store_step toy_env)\<^sup>*\<^sup>* node1 (set_obj 0 (ps_invalidate (obj node1 0)) node1)"
    by (rule r_into_rtranclp, rule step_invalidate [OF i])
  from session_identity_stable [OF node1_reachable this i, of k for k] show ?thesis
    by (simp add: node1_eq obj_def set_obj_def ps_new_def ps_invalidate_def ps_is_valid_def)
qed

text \<open>
  C30: What the store hands out for a key is a valid session with the peer of that key, whose state only
  session operations have produced; after an eviction this still holds, and a valid session that is held
  by someone or was used within the last minute is still found.
\<close>

theorem store_get_sound:
  assumes "(store_step env)\<^sup>*\<^sup>* store_new st"
  shows "(case store_get inst key st of
      (Some i, st') \<Rightarrow> i < length (st_objs st') \<and> ps_is_valid (obj st' i) \<and> ps_peer_id (obj st' i) = sk_peer_id key
        \<and> session_reach env (datagram (obj st' i))
    | (None, st') \<Rightarrow> kv_get (st_sessions st') key = None)
    \<and> (\<forall>e. kv_get (st_sessions st) key = Some e \<and> ps_is_valid (obj st (en_session e))
          \<and> (held (en_session e) \<or> now - en_last_used_at e < 60000)
        \<longrightarrow> fst (store_get inst key (evict_unused_sessions held now st)) = Some (en_session e))"
proof (intro conjI)
  have ok: "store_ok env st" by (rule reachable_ok [OF assms])
  show "case store_get inst key st of
      (Some i, st') \<Rightarrow> i < length (st_objs st') \<and> ps_is_valid (obj st' i) \<and> ps_peer_id (obj st' i) = sk_peer_id key
        \<and> session_reach env (datagram (obj st' i))
    | (None, st') \<Rightarrow> kv_get (st_sessions st') key = None"
    using ok by (auto simp: store_ok_def store_get_def store_remove_def Let_def split: option.split)
  show "\<forall>e. kv_get (st_sessions st) key = Some e \<and> ps_is_valid (obj st (en_session e))
          \<and> (held (en_session e) \<or> now - en_last_used_at e < 60000)
        \<longrightarrow> fst (store_get inst key (evict_unused_sessions held now st)) = Some (en_session e)"
  proof (intro allI impI)
    fix e
    assume e: "kv_get (st_sessions st) key = Some e \<and> ps_is_valid (obj st (en_session e))
          \<and> (held (en_session e) \<or> now - en_last_used_at e < 60000)"
    let ?st = "evict_unused_sessions held now st"
    have "kv_get (st_sessions ?st) key = Some e"
      using ok e by (simp add: store_ok_def evict_unused_sessions_def evict_unused_sessions_idle_def kvm.get_retain
          SESSION_IDLE_TIMEOUT_def)
    moreover have "obj ?st (en_session e) = obj st (en_session e)"
      by (simp add: obj_def evict_unused_sessions_def evict_unused_sessions_idle_def)
    ultimately show "fst (store_get inst key ?st) = Some (en_session e)"
      using e by (simp add: store_get_def Let_def)
  qed
qed

theorem store_get_sound_witness:
  "fst (store_get 200 key20 (evict_unused_sessions (\<lambda>_. False) 150 node1)) = Some 0"
proof -
  have "kv_get (st_sessions node1) key20 = Some \<lparr>en_session = 0, en_last_used_at = 100\<rparr>" "ps_is_valid (obj node1 0)"
    by (simp_all add: node1_eq kv_get_def obj_def ps_new_def ps_is_valid_def session_new_def is_valid_def)
  with store_get_sound [OF node1_reachable, where key = key20 and held = "\<lambda>_. False" and now = 150 and inst = 200]
  show ?thesis by simp
qed

section \<open>What a handshake establishes\<close>

lemma sync_next_nonce:
  assumes "sat_sub now' now < ROTATE_AFTER_MS"
  shows "fst (next_nonce now' d (sync_root_key now root gen e pres s)) = (e, 0, u32_be e @ u64_be 0)"
proof -
  have "dget d (0, 0) = (0 :: u64)" by (cases d) simp_all
  then show ?thesis
    using assms by (simp add: next_nonce_def maybe_rotate_epoch_def sync_root_key_def Let_def ROTATE_AFTER_PACKETS_def)
qed

lemma sync_root_key_frame:
  "root_key (sync_root_key now root gen e pres s) = root"
  "session_generation (sync_root_key now root gen e pres s) = gen"
  "send_cipher_algorithm (sync_root_key now root gen e pres s) = send_cipher_algorithm s"
  "recv_cipher_algorithm (sync_root_key now root gen e pres s) = recv_cipher_algorithm s"
  "invalidated (sync_root_key now root gen e pres s) = invalidated s"
  by (simp_all add: sync_root_key_def Let_def)

lemma upsert_result:
  assumes ok: "store_ok env st"
    and u: "upsert_responder_session nr now inst key a_gen sa ra pk st = (Inr ret, st')"
    and b: "b = datagram (obj st' (ur_session ret))"
  shows "ps_is_valid (obj st' (ur_session ret))" "session_reach env b" "check_encrypt_algo_same sa ra b"
    "ur_generation ret = session_generation b"
    "ur_action ret \<noteq> Join \<Longrightarrow> ur_root_key ret = Some (root_key b)"
    "ur_action ret \<noteq> Join \<Longrightarrow> b = session_new now nr 1 0 sa ra \<and> ur_initial_epoch ret = 0
       \<or> ur_initial_epoch ret = next_sync_epoch b"
proof -
  have *: "ps_is_valid (obj st' (ur_session ret)) \<and> session_reach env b \<and> check_encrypt_algo_same sa ra b
     \<and> ur_generation ret = session_generation b \<and> (ur_action ret \<noteq> Join \<longrightarrow> ur_root_key ret = Some (root_key b)
     \<and> (b = session_new now nr 1 0 sa ra \<and> ur_initial_epoch ret = 0 \<or> ur_initial_epoch ret = next_sync_epoch b))"
    using u
  proof (cases rule: upsert_cases)
    case create
    have "obj st' (ur_session ret) = ps_new now (sk_peer_id key) nr 1 0 sa ra pk"
      using create by (simp add: obj_def store_insert_def)
    then show ?thesis
      using create b by (simp add: ps_new_def ps_is_valid_def is_valid_def session_new_def check_encrypt_algo_same_def
          reach_new [unfolded session_new_def])
  next
    case (found e s)
    have "en_session e < length (st_objs st)" using ok found(1) by (simp add: store_ok_def)
    then have "obj st' (en_session e) = s"
      using found(5) by (simp add: obj_def set_obj_def touch_def split: option.split)
    moreover note evolves_pubkey [OF found(4)] store_ok_reach [OF ok \<open>en_session e < length (st_objs st)\<close>]
    ultimately show ?thesis
      using found b by (auto simp: Let_def ps_is_valid_def)
  qed simp
  then show "ps_is_valid (obj st' (ur_session ret))" "session_reach env b" "check_encrypt_algo_same sa ra b"
    "ur_generation ret = session_generation b"
    "ur_action ret \<noteq> Join \<Longrightarrow> ur_root_key ret = Some (root_key b)"
    "ur_action ret \<noteq> Join \<Longrightarrow> b = session_new now nr 1 0 sa ra \<and> ur_initial_epoch ret = 0
       \<or> ur_initial_epoch ret = next_sync_epoch b"
    by blast+
qed

lemma or_insert_drop_valid:
  assumes "or_insert_session now inst key root gen ep sa ra pk (drop_invalid key st) = (i, st')"
  shows "ps_is_valid (obj st' i)"
  using assms
  by (auto simp: or_insert_session_def drop_invalid_def alloc_def store_insert_def store_remove_def obj_def
      ps_new_def ps_is_valid_def session_new_def is_valid_def touch_def nth_append split: option.splits if_splits)

lemma apply_result:
  assumes ok: "store_ok env st" and act: "action \<noteq> Join"
    and ap: "apply_initiator_action now inst key action gen root_opt ep sa ra pk st = (Inr i, st')"
  obtains root s where "root_opt = Some root" "datagram (obj st' i) = sync_root_key now root gen ep (action = Sync) s"
    "check_encrypt_algo_same sa ra s" "session_reach env s" "ps_is_valid (obj st' i)"
  using ap
proof (cases rule: apply_cases)
  case (sync root i' st1 s)
  have "store_goes env st st1"
    using goes_drop_invalid goes_or_insert sync(3) by (metis goes_trans snd_conv)
  with ok have ok1: "store_ok env st1" by (simp add: store_goes_def)
  obtain en where "kv_get (st_sessions st1) key = Some en" "en_session en = i'" using or_insert_entry [OF sync(3)] by metis
  with ok1 have i: "i' < length (st_objs st1)" by (auto simp: store_ok_def)
  note pk = evolves_pubkey [OF sync(5)] and v = or_insert_drop_valid [OF sync(3)]
  have "obj st' i = ps_sync_root_key now root gen ep (action = Sync) s" "i = i'"
    using sync i by (simp_all add: obj_def set_obj_def)
  with pk v sync(4) store_ok_reach [OF ok1 i] show thesis
    by (intro that [OF sync(2), of "datagram s"])
      (simp_all add: ps_sync_root_key_def ps_is_valid_def is_valid_def sync_root_key_frame)
qed (use act in auto)

text \<open>The epoch a responder chooses is one its replay check lets in.\<close>

lemma next_sync_epoch_accepted:
  assumes quiet: "sync_grace_expires_at_ms s = 0" "evict_old_rx_slots now (rx_slots s) = rx_slots s"
    and other: "\<And>d'. d' \<noteq> d \<Longrightarrow> \<not> rx_valid (fst (dget d' (rx_slots s))) \<and> \<not> rx_valid (snd (dget d' (rx_slots s)))"
    and wrap: "next_sync_epoch s \<noteq> 0"
  shows "fst (precheck_replay (next_sync_epoch s) seq d now s)"
proof -
  let ?rx = "dget d (rx_slots s)"
  define m where "m = (let b = (if rx_valid (fst ?rx) then max (send_epoch s) (rx_epoch (fst ?rx)) else send_epoch s)
    in if rx_valid (snd ?rx) then max b (rx_epoch (snd ?rx)) else b)"
  have e: "next_sync_epoch s = m + 1"
    using other [of AToB] other [of BToA]
    by (cases d) (auto simp: next_sync_epoch_def m_def Let_def max.commute)
  have lt: "m < m + 1" using wrap unatSuc [of m] by (simp add: e word_less_nat_alt add.commute)
  have "sat_add m 3 = (if unat m + 3 < 2 ^ 32 then m + 3 else - 1)" by (simp add: sat_add_def)
  moreover have "m + 1 \<le> m + 3" if "unat m + 3 < 2 ^ 32"
    using that by (simp add: word_le_nat_alt unat_word_ariths)
  ultimately have le: "m + 1 \<le> sat_add m 3" by simp
  have "refresh_rx now s = (False, s)"
    using quiet by (simp add: refresh_rx_def sync_rx_grace_active_def Let_def)
  moreover have "rx_decision (send_epoch s) (m + 1) seq ?rx"
    using lt le
    by (auto simp: rx_decision_def max_allowed_epoch_def m_def Let_def MAX_ACCEPTED_RX_EPOCH_AHEAD_def split: if_splits)
  ultimately show ?thesis using precheck_decision [of now s False s] e by simp
qed

lemma new_session_accepts: "fst (precheck_replay e seq d now (session_new t root gen ep sa ra))"
proof -
  let ?s = "session_new t root gen ep sa ra"
  have "evict_old_rx_slots now (rx_slots ?s) = rx_slots ?s" "\<not> rx_valid (fst (dget d (rx_slots ?s)))"
    by (cases d; simp add: session_new_def evict_old_rx_slots_def evict_slot_def rx_slot_default_def Let_def)+
  moreover from this have "refresh_rx now ?s = (False, ?s)"
    by (simp add: refresh_rx_def sync_rx_grace_active_def Let_def) (simp add: session_new_def)
  ultimately show ?thesis using precheck_decision [of now ?s False ?s] by (simp add: rx_decision_def)
qed

text \<open>
  C1: A handshake that creates or synchronises a session leaves both ends with the same root key and
  generation, and the first datagram the initiator then sends is accepted by the responder and opened to
  the same packet: the epoch the responder chose passes its own replay check. This holds whatever either
  node did before, provided the responder is not in the grace period of an earlier synchronisation, has
  dropped no idle slot in between, receives in one direction only, and its epochs have not wrapped around.
\<close>

theorem handshake_delivers:
  assumes law: "aead_law (ce_seal env) (ce_open env)" and rnd: "length rnd = AEAD_NONCE_SIZE"
    and sa: "(store_step env)\<^sup>*\<^sup>* store_new sa" and sb: "(store_step env)\<^sup>*\<^sup>* store_new sb"
    and u: "upsert_responder_session nr nowb instb keyb a_gen algb alga pkb sb = (Inr ret, sb')"
    and act: "ur_action ret \<noteq> Join"
    and ap: "apply_initiator_action nowa insta keya (ur_action ret) (ur_generation ret) (ur_root_key ret)
        (ur_initial_epoch ret) alga algb pka sa = (Inr i, sa')"
    and b: "b = obj sb' (ur_session ret)" and d: "d = dir_for_sender ida idb"
    and alg: "parse_algorithm alga = Some x" "is_aead_algorithm x" "algorithm_is_available (ce_features env) x"
    and quiet: "sync_grace_expires_at_ms (datagram b) = 0"
      "evict_old_rx_slots now' (rx_slots (datagram b)) = rx_slots (datagram b)"
    and one_way: "\<And>d'. d' \<noteq> d \<Longrightarrow> \<not> rx_valid (fst (dget d' (rx_slots (datagram b)))) \<and> \<not> rx_valid (snd (dget d' (rx_slots (datagram b))))"
    and wrap: "next_sync_epoch (datagram b) \<noteq> 0" and soon: "sat_sub now nowa < ROTATE_AFTER_MS"
    and h: "peer_manager_header p = Some h" "\<not> is_encrypted h"
    and enc: "ps_encrypt_payload env rnd now ida idb p (obj sa' i) = (Inr q, a')"
  shows "root_key (datagram (obj sa' i)) = root_key (datagram b)
    \<and> session_generation (datagram (obj sa' i)) = session_generation (datagram b)
    \<and> (\<exists>b'. ps_decrypt_payload env now' ida idb q b = (Inr p, b'))"
proof -
  note ub = upsert_result [OF reachable_ok [OF sb] u, of "datagram b", unfolded b, OF refl, folded b]
  obtain root s where root: "ur_root_key ret = Some root"
    and a: "datagram (obj sa' i) = sync_root_key nowa root (ur_generation ret) (ur_initial_epoch ret) (ur_action ret = Sync) s"
    and s: "check_encrypt_algo_same alga algb s" "session_reach env s" and va: "ps_is_valid (obj sa' i)"
    using apply_result [OF reachable_ok [OF sa] act ap] by metis
  let ?a = "datagram (obj sa' i)"
  note fr = sync_root_key_frame [of nowa root "ur_generation ret" "ur_initial_epoch ret" "ur_action ret = Sync" s, folded a]
  have reach: "session_reach env ?a" unfolding a by (rule reach_sync [OF s(2)])
  obtain a1 where e: "encrypt_payload env rnd now d p ?a = (Inr q, a1)"
    using enc va d by (auto simp: ps_encrypt_payload_def split: prod.splits)
  have n: "fst (next_nonce now d ?a) = (ur_initial_epoch ret, 0, u32_be (ur_initial_epoch ret) @ u64_be 0)"
    unfolding a by (rule sync_next_nonce [OF soon])
  have "fst (precheck_replay (ur_initial_epoch ret) 0 d now' (datagram b))"
    using ub(6) [OF act]
  proof
    assume "ur_initial_epoch ret = next_sync_epoch (datagram b)"
    with next_sync_epoch_accepted [OF quiet one_way wrap] show ?thesis by simp
  qed (simp add: new_session_accepts)
  moreover have "is_valid (datagram b)" using ub(1) by (simp add: ps_is_valid_def)
  moreover have "root_key (datagram b) = root_key ?a" using ub(5) [OF act] root fr by simp
  moreover have "recv_cipher_algorithm (datagram b) = send_cipher_algorithm ?a" "send_cipher_algorithm ?a = alga"
    using s(1) ub(3) fr by (simp_all add: check_encrypt_algo_same_def)
  ultimately obtain b1 where "decrypt_payload env now' d q (datagram b) = (Inr p, b1)"
    using datagram_delivered [OF law rnd reach ub(2) _ _ _ _ alg(2,3) h e n] alg(1) by metis
  then have "ps_decrypt_payload env now' ida idb q b = (Inr p, b\<lparr>datagram := b1\<rparr>)"
    using ub(1) d by (simp add: ps_decrypt_payload_def)
  with ub(4,5) act root fr show ?thesis by auto
qed

definition node2 :: session_store where
  "node2 = snd (apply_initiator_action 5 100 key20 Create 1 (Some (replicate 32 1)) 0 ''aes-gcm'' ''aes-gcm'' None store_new)"

lemma node2_apply: "apply_initiator_action 5 100 key20 Create 1 (Some (replicate 32 1)) 0 ''aes-gcm'' ''aes-gcm'' None store_new
    = (Inr 0, node2)"
  by (simp add: node2_def apply_initiator_action_def drop_invalid_def store_new_def or_insert_session_def alloc_def
      store_insert_def obj_def ps_new_def check_encrypt_algo_same_def session_new_def check_or_set_peer_static_pubkey_def)

lemma node1_upsert: "upsert_responder_session (replicate 32 1) 5 100 key20 None ''aes-gcm'' ''aes-gcm'' None store_new
    = (Inr \<lparr>ur_session = 0, ur_action = Create, ur_generation = 1, ur_root_key = Some (replicate 32 1), ur_initial_epoch = 0\<rparr>, node1)"
  by (simp add: node1_def upsert_responder_session_def store_new_def touch_def alloc_def)

lemma node1_session: "datagram (obj node1 0) = session_new 5 (replicate 32 1) 1 0 ''aes-gcm'' ''aes-gcm''"
  by (simp add: node1_eq obj_def ps_new_def)

lemma node2_session:
  obtains s where "datagram (obj node2 0) = sync_root_key 5 (replicate 32 1) 1 0 False s" "session_reach env s"
    "check_encrypt_algo_same ''aes-gcm'' ''aes-gcm'' s" "ps_is_valid (obj node2 0)"
  by (rule apply_result [OF store_ok_new _ node2_apply]) auto

lemma node2_encrypts: "\<exists>q a'. ps_encrypt_payload toy_env (replicate 12 0) 7 10 20 sample_packet (obj node2 0) = (Inr q, a')"
proof -
  obtain s where s: "datagram (obj node2 0) = sync_root_key 5 (replicate 32 1) 1 0 False s" "session_reach toy_env s"
    "check_encrypt_algo_same ''aes-gcm'' ''aes-gcm'' s" "ps_is_valid (obj node2 0)" by (rule node2_session)
  have "\<exists>q s'. encrypt_payload toy_env (replicate 12 0) 7 (dir_for_sender 10 20) sample_packet (datagram (obj node2 0)) = (Inr q, s')"
    by (rule toy_encrypts) (use s in \<open>simp_all add: cache_ok_sync ps_is_valid_def sync_root_key_frame check_encrypt_algo_same_def\<close>)
  with s(4) show ?thesis by (auto simp: ps_encrypt_payload_def)
qed

theorem handshake_delivers_witness:
  "\<exists>q a' b'. ps_encrypt_payload toy_env (replicate 12 0) 7 10 20 sample_packet (obj node2 0) = (Inr q, a')
    \<and> ps_decrypt_payload toy_env 9 10 20 q (obj node1 0) = (Inr sample_packet, b')"
proof -
  obtain q a' where e: "ps_encrypt_payload toy_env (replicate 12 0) 7 10 20 sample_packet (obj node2 0) = (Inr q, a')"
    using node2_encrypts by blast
  let ?ret = "\<lparr>ur_session = 0, ur_action = Create, ur_generation = 1, ur_root_key = Some (replicate 32 1), ur_initial_epoch = 0\<rparr>"
  have ap: "apply_initiator_action 5 100 key20 (ur_action ?ret) (ur_generation ?ret) (ur_root_key ?ret)
        (ur_initial_epoch ?ret) ''aes-gcm'' ''aes-gcm'' None store_new = (Inr 0, node2)"
    by (simp add: node2_apply)
  have "\<exists>b'. ps_decrypt_payload toy_env 9 10 20 q (obj node1 (ur_session ?ret)) = (Inr sample_packet, b')"
  proof (rule handshake_delivers [THEN conjunct2, THEN conjunct2, OF toy_env_law _ _ _ node1_upsert _ ap refl refl
        parse_plain_aes_gcm _ _ _ _ _ _ _ layout_header [OF sample_layout] sample_not_encrypted e])
    fix d'
    show "\<not> rx_valid (fst (dget d' (rx_slots (datagram (obj node1 (ur_session ?ret))))))
      \<and> \<not> rx_valid (snd (dget d' (rx_slots (datagram (obj node1 (ur_session ?ret))))))"
      by (cases d') (simp_all add: node1_session session_new_def rx_slot_default_def)
  qed (simp_all add: AEAD_NONCE_SIZE_def is_aead_algorithm_def toy_env_def default_features_def node1_session
      session_new_def evict_old_rx_slots_def evict_slot_def rx_slot_default_def next_sync_epoch_def sat_sub_def
      ROTATE_AFTER_MS_def)
  with e show ?thesis by auto
qed

text \<open>
  The epoch a responder chooses depends only on what it has sent and received. Two synchronisations
  with nothing received in between give the initiator the same epoch under the same root key, so the
  first datagram after each of them is sealed with the same key and the same nonce.
\<close>

theorem resync_repeats_nonce:
  assumes st: "(store_step env)\<^sup>*\<^sup>* store_new sb" "(store_step env)\<^sup>*\<^sup>* store_new sa" "(store_step env)\<^sup>*\<^sup>* store_new sa2"
    and u1: "upsert_responder_session nr nowb inst keyb g1 algb alga pkb sb = (Inr r1, sb1)" "ur_action r1 = Sync"
    and a1: "apply_initiator_action nowa insta keya Sync (ur_generation r1) (ur_root_key r1) (ur_initial_epoch r1)
        alga algb pka sa = (Inr i, sa1)"
    and u2: "upsert_responder_session nr' nowb' inst' keyb g2 algb alga pkb sb1 = (Inr r2, sb2)" "ur_action r2 = Sync"
    and a2: "apply_initiator_action nowa' insta' keya Sync (ur_generation r2) (ur_root_key r2) (ur_initial_epoch r2)
        alga algb pka sa2 = (Inr j, sa3)"
    and soon: "sat_sub now nowa < ROTATE_AFTER_MS" "sat_sub now' nowa' < ROTATE_AFTER_MS"
  shows "fst (next_nonce now' d (datagram (obj sa3 j))) = fst (next_nonce now d (datagram (obj sa1 i)))
    \<and> traffic_cipher env (datagram (obj sa3 j)) = traffic_cipher env (datagram (obj sa1 i))"
proof -
  have ok: "store_ok env sb" "store_ok env sa" "store_ok env sa2" by (rule reachable_ok, rule st)+
  have ok1: "store_ok env sb1"
    using goes_upsert [OF ok(1), of nr nowb inst keyb g1 algb alga pkb] ok(1) u1(1) by (simp add: store_goes_def)
  from u1(1) obtain e s where e: "kv_get (st_sessions sb) keyb = Some e"
    and s: "sb1 = set_obj (en_session e) s (touch inst keyb sb)"
    and r1: "ur_root_key r1 = Some (root_key (datagram s))" "ur_initial_epoch r1 = next_sync_epoch (datagram s)"
    by (cases rule: upsert_cases) (use u1(2) in \<open>auto simp: Let_def split: if_splits\<close>)
  from u2(1) obtain e' s' where e': "kv_get (st_sessions sb1) keyb = Some e'"
    and pk: "check_or_set_peer_static_pubkey pkb (obj sb1 (en_session e')) = Inr s'"
    and r2: "ur_root_key r2 = Some (root_key (datagram s'))" "ur_initial_epoch r2 = next_sync_epoch (datagram s')"
    by (cases rule: upsert_cases) (use u2(2) in \<open>auto simp: Let_def split: if_splits\<close>)
  have en: "en_session e' = en_session e"
    using e e' kv_get_touch [of inst keyb sb] by (auto simp: s set_obj_def)
  have "en_session e < length (st_objs sb)" using ok(1) e by (simp add: store_ok_def)
  then have "obj sb1 (en_session e) = s" by (simp add: s obj_def set_obj_def touch_def split: option.split)
  with evolves_pubkey(2) [OF pk] en have same: "datagram s' = datagram s" by simp
  obtain t1 where t1: "datagram (obj sa1 i) = sync_root_key nowa (root_key (datagram s)) (ur_generation r1)
      (next_sync_epoch (datagram s)) True t1" "check_encrypt_algo_same alga algb t1"
    using apply_result [OF ok(2) _ a1] r1 by (metis option.inject peer_session_action.distinct(1))
  obtain t2 where t2: "datagram (obj sa3 j) = sync_root_key nowa' (root_key (datagram s)) (ur_generation r2)
      (next_sync_epoch (datagram s)) True t2" "check_encrypt_algo_same alga algb t2"
    using apply_result [OF ok(3) _ a2] r2 same by (metis option.inject peer_session_action.distinct(1))
  have "traffic_cipher env (datagram (obj sa3 j)) = traffic_cipher env (datagram (obj sa1 i))"
    by (rule traffic_cipher_cong) (use t1 t2 in \<open>simp_all add: sync_root_key_frame check_encrypt_algo_same_def\<close>)
  then show ?thesis by (simp add: t1 t2 sync_next_nonce soon)
qed

lemma create_apply:
  assumes "kv_get (st_sessions st) key = None" "action \<noteq> Join"
  shows "\<exists>st'. apply_initiator_action now inst key action gen (Some root) ep sa ra pk st = (Inr (length (st_objs st)), st')"
proof -
  let ?s = "ps_new now (sk_peer_id key) root gen ep sa ra pk"
  have "check_or_set_peer_static_pubkey pk ?s = Inr ?s" "check_encrypt_algo_same sa ra (datagram ?s)"
    by (simp_all add: check_or_set_peer_static_pubkey_def ps_new_def check_encrypt_algo_same_def session_new_def split: option.split)
  with assms show ?thesis
    by (cases action) (simp_all add: apply_initiator_action_def drop_invalid_def or_insert_session_def alloc_def
        store_insert_def obj_def)
qed

theorem resync_repeats_nonce_witness:
  "\<exists>r1 sb1 sa1 r2 sb2 sa3. upsert_responder_session [] 50 200 key20 None ''aes-gcm'' ''aes-gcm'' None node1 = (Inr r1, sb1)
    \<and> apply_initiator_action 60 200 key20 Sync (ur_generation r1) (ur_root_key r1) (ur_initial_epoch r1) ''aes-gcm'' ''aes-gcm'' None store_new = (Inr 0, sa1)
    \<and> upsert_responder_session [] 70 300 key20 None ''aes-gcm'' ''aes-gcm'' None sb1 = (Inr r2, sb2)
    \<and> apply_initiator_action 80 300 key20 Sync (ur_generation r2) (ur_root_key r2) (ur_initial_epoch r2) ''aes-gcm'' ''aes-gcm'' None store_new = (Inr 0, sa3)
    \<and> fst (next_nonce 81 AToB (datagram (obj sa3 0))) = fst (next_nonce 61 AToB (datagram (obj sa1 0)))
    \<and> traffic_cipher toy_env (datagram (obj sa3 0)) = traffic_cipher toy_env (datagram (obj sa1 0))"
proof -
  let ?ret = "\<lparr>ur_session = 0, ur_action = Sync, ur_generation = 1, ur_root_key = Some (replicate 32 1), ur_initial_epoch = 1\<rparr>"
  define sb1 sb2 where "sb1 = snd (upsert_responder_session [] 50 200 key20 None ''aes-gcm'' ''aes-gcm'' None node1)"
    and "sb2 = snd (upsert_responder_session [] 70 300 key20 None ''aes-gcm'' ''aes-gcm'' None sb1)"
  note eval = upsert_responder_session_def node1_eq kv_get_def touch_def obj_def ps_new_def ps_is_valid_def is_valid_def
    session_new_def check_encrypt_algo_same_def check_or_set_peer_static_pubkey_def next_sync_epoch_def rx_slot_default_def
    set_obj_def kv_put_def Let_def
  have u1: "upsert_responder_session [] 50 200 key20 None ''aes-gcm'' ''aes-gcm'' None node1 = (Inr ?ret, sb1)"
    unfolding sb1_def by (simp add: eval)
  then have sb1: "sb1 = \<lparr>st_sessions = [(key20, \<lparr>en_session = 0, en_last_used_at = 200\<rparr>)], st_objs = st_objs node1\<rparr>"
    by (auto simp: eval)
  have u2: "upsert_responder_session [] 70 300 key20 None ''aes-gcm'' ''aes-gcm'' None sb1 = (Inr ?ret, sb2)"
    unfolding sb2_def by (simp add: sb1 eval)
  have none: "kv_get (st_sessions store_new) key20 = None" "length (st_objs store_new) = 0" by (simp_all add: store_new_def)
  obtain sa1 where a1: "apply_initiator_action 60 200 key20 Sync (ur_generation ?ret) (ur_root_key ?ret) (ur_initial_epoch ?ret)
      ''aes-gcm'' ''aes-gcm'' None store_new = (Inr 0, sa1)"
    using create_apply [OF none(1), of Sync] none(2) by fastforce
  obtain sa3 where a3: "apply_initiator_action 80 300 key20 Sync (ur_generation ?ret) (ur_root_key ?ret) (ur_initial_epoch ?ret)
      ''aes-gcm'' ''aes-gcm'' None store_new = (Inr 0, sa3)"
    using create_apply [OF none(1), of Sync] none(2) by fastforce
  have "fst (next_nonce 81 AToB (datagram (obj sa3 0))) = fst (next_nonce 61 AToB (datagram (obj sa1 0)))
    \<and> traffic_cipher toy_env (datagram (obj sa3 0)) = traffic_cipher toy_env (datagram (obj sa1 0))"
    by (rule resync_repeats_nonce [OF node1_reachable rtranclp.rtrancl_refl rtranclp.rtrancl_refl u1 _ a1 u2 _ a3])
      (simp_all add: sat_sub_def ROTATE_AFTER_MS_def)
  with u1 a1 u2 a3 show ?thesis by blast
qed

lemma upsert_create:
  assumes "kv_get (st_sessions st) key = None" "upsert_responder_session nr now inst key g sa ra pk st = (Inr ret, st')"
  shows "ret = \<lparr>ur_session = length (st_objs st), ur_action = Create, ur_generation = 1, ur_root_key = Some nr, ur_initial_epoch = 0\<rparr>"
    "kv_get (st_sessions st') key = Some \<lparr>en_session = length (st_objs st), en_last_used_at = inst\<rparr>"
    "st_objs st' = st_objs st @ [ps_new now (sk_peer_id key) nr 1 0 sa ra pk]"
  using assms by (auto simp: upsert_responder_session_def touch_def alloc_def store_insert_def)

definition holds_session :: "session_key \<Rightarrow> nat \<Rightarrow> session_store \<Rightarrow> bool" where
  "holds_session key i st \<longleftrightarrow> (\<exists>e. kv_get (st_sessions st) key = Some e \<and> en_session e = i)
     \<and> i < length (st_objs st) \<and> ps_is_valid (obj st i)"

lemma holds_set_obj:
  "holds_session key i st \<Longrightarrow> ps_is_valid s \<Longrightarrow> holds_session key i (set_obj i s st) \<and> obj (set_obj i s st) i = s"
  by (auto simp: holds_session_def set_obj_def obj_def)

lemma holds_touch: "holds_session key i (touch inst key st) \<longleftrightarrow> holds_session key i st"
  by (auto simp: holds_session_def kv_get_touch)

lemma apply_found:
  assumes "holds_session key i st" "action \<noteq> Join"
    and "apply_initiator_action now inst key action gen (Some root) ep sa ra pk st = (Inr j, st')"
  shows "j = i \<and> holds_session key i st' \<and> root_key (datagram (obj st' i)) = root
    \<and> session_generation (datagram (obj st' i)) = gen \<and> check_encrypt_algo_same sa ra (datagram (obj st' i))
    \<and> check_or_set_peer_static_pubkey pk (obj st' i) = Inr (obj st' i)"
proof -
  have "or_insert_session now inst key r gen ep sa ra pk (drop_invalid key st) = (i, touch inst key st)" for r
    using assms(1) by (auto simp: holds_session_def drop_invalid_def or_insert_session_def)
  with assms(3) obtain s where s: "check_encrypt_algo_same sa ra (datagram (obj st i))"
      "check_or_set_peer_static_pubkey pk (obj st i) = Inr s" "j = i"
      "st' = set_obj i (ps_sync_root_key now root gen ep (action = Sync) s) (touch inst key st)"
    by (cases rule: apply_cases) (use assms(2) in auto)
  note pk = evolves_pubkey [OF s(2)]
  have v: "ps_is_valid (ps_sync_root_key now root gen ep (action = Sync) s)"
    using assms(1) pk by (simp add: holds_session_def ps_sync_root_key_def ps_is_valid_def is_valid_def sync_root_key_frame)
  have "check_or_set_peer_static_pubkey pk (ps_sync_root_key now root gen ep (action = Sync) s) =
      Inr (ps_sync_root_key now root gen ep (action = Sync) s)"
    using s(2) by (auto simp: check_or_set_peer_static_pubkey_def ps_sync_root_key_def split: option.splits if_splits)
  with s holds_set_obj [OF _ v, of key i "touch inst key st"] holds_touch assms(1) pk show ?thesis
    by (simp add: ps_sync_root_key_def sync_root_key_frame check_encrypt_algo_same_def)
qed

lemma apply_join:
  assumes "holds_session key i st" "check_encrypt_algo_same sa ra (datagram (obj st i))"
    and "check_or_set_peer_static_pubkey pk (obj st i) = Inr (obj st i)" "session_generation (datagram (obj st i)) = gen"
  shows "\<exists>st'. apply_initiator_action now inst key Join gen root ep sa ra pk st = (Inr i, st') \<and> obj st' i = obj st i"
  using assms by (auto simp: holds_session_def apply_initiator_action_def store_get_def set_obj_def obj_def touch_def Let_def)

lemma upsert_join:
  assumes "holds_session key i st" "check_encrypt_algo_same sa ra (datagram (obj st i))"
  shows "\<exists>st'. upsert_responder_session nr now inst key (Some (session_generation (datagram (obj st i)))) sa ra None st =
      (Inr \<lparr>ur_session = i, ur_action = Join, ur_generation = session_generation (datagram (obj st i)),
            ur_root_key = None, ur_initial_epoch = 0\<rparr>, st') \<and> obj st' i = obj st i"
  using assms by (auto simp: holds_session_def upsert_responder_session_def check_or_set_peer_static_pubkey_def set_obj_def obj_def touch_def Let_def)

text \<open>
  Two nodes that answer each other's handshake before either has seen the answer end up with each
  other's root key: both sessions have generation one, so a later handshake joins them, on both sides
  without an error, although the root keys differ.
\<close>

theorem crossed_handshakes_diverge:
  assumes none: "kv_get (st_sessions sa) kb = None" "kv_get (st_sessions sb) ka = None"
    and ua: "upsert_responder_session ra t1 i1 kb None alga algb None sa = (Inr xa, sa1)"
    and ub: "upsert_responder_session rb t2 i2 ka None algb alga None sb = (Inr xb, sb1)"
    and aa: "apply_initiator_action t3 i3 kb (ur_action xb) (ur_generation xb) (ur_root_key xb) (ur_initial_epoch xb)
        alga algb pkb sa1 = (Inr i, sa2)"
    and ab: "apply_initiator_action t4 i4 ka (ur_action xa) (ur_generation xa) (ur_root_key xa) (ur_initial_epoch xa)
        algb alga pka sb1 = (Inr j, sb2)"
    and later: "upsert_responder_session rb' t5 i5 ka (Some (session_generation (datagram (obj sa2 i)))) algb alga None sb2 = (r, sb3)"
      "apply_initiator_action t6 i6 kb Join 1 None 0 alga algb pkb sa2 = (r', sa3)"
  shows "(\<exists>ret. r = Inr ret \<and> ur_action ret = Join \<and> ur_generation ret = 1 \<and> ur_session ret = j)
    \<and> r' = Inr i \<and> root_key (datagram (obj sa3 i)) = rb \<and> root_key (datagram (obj sb3 j)) = ra"
proof -
  note ca = upsert_create [OF none(1) ua] and cb = upsert_create [OF none(2) ub]
  have ha: "holds_session kb (length (st_objs sa)) sa1" and hb: "holds_session ka (length (st_objs sb)) sb1"
    using ca(2,3) cb(2,3)
    by (simp_all add: holds_session_def obj_def ps_new_def ps_is_valid_def is_valid_def session_new_def)
  have aa': "apply_initiator_action t3 i3 kb Create 1 (Some rb) 0 alga algb pkb sa1 = (Inr i, sa2)"
    and ab': "apply_initiator_action t4 i4 ka Create 1 (Some ra) 0 algb alga pka sb1 = (Inr j, sb2)"
    using aa ab ca(1) cb(1) by simp_all
  note a = apply_found [OF ha _ aa'] and b = apply_found [OF hb _ ab']
  have "\<exists>st'. apply_initiator_action t6 i6 kb Join 1 None 0 alga algb pkb sa2 = (Inr i, st') \<and> obj st' i = obj sa2 i"
    by (rule apply_join) (use a in simp_all)
  moreover have "\<exists>st'. upsert_responder_session rb' t5 i5 ka (Some (session_generation (datagram (obj sb2 j)))) algb alga None sb2 =
      (Inr \<lparr>ur_session = j, ur_action = Join, ur_generation = session_generation (datagram (obj sb2 j)),
            ur_root_key = None, ur_initial_epoch = 0\<rparr>, st') \<and> obj st' j = obj sb2 j"
    by (rule upsert_join) (use b in simp_all)
  ultimately show ?thesis using later a b by fastforce
qed

theorem crossed_handshakes_diverge_witness:
  "\<exists>xa sa1 xb sb1 i sa2 j sb2 ret sa3 sb3.
    upsert_responder_session [1] 1 1 key20 None ''aes-gcm'' ''aes-gcm'' None store_new = (Inr xa, sa1)
    \<and> upsert_responder_session [2] 1 1 key20 None ''aes-gcm'' ''aes-gcm'' None store_new = (Inr xb, sb1)
    \<and> apply_initiator_action 2 2 key20 (ur_action xb) (ur_generation xb) (ur_root_key xb) (ur_initial_epoch xb)
        ''aes-gcm'' ''aes-gcm'' None sa1 = (Inr i, sa2)
    \<and> apply_initiator_action 2 2 key20 (ur_action xa) (ur_generation xa) (ur_root_key xa) (ur_initial_epoch xa)
        ''aes-gcm'' ''aes-gcm'' None sb1 = (Inr j, sb2)
    \<and> upsert_responder_session [3] 4 4 key20 (Some (session_generation (datagram (obj sa2 i)))) ''aes-gcm'' ''aes-gcm'' None sb2
        = (Inr ret, sb3) \<and> ur_action ret = Join
    \<and> apply_initiator_action 4 4 key20 Join 1 None 0 ''aes-gcm'' ''aes-gcm'' None sa2 = (Inr i, sa3)
    \<and> root_key (datagram (obj sa3 i)) = [2] \<and> root_key (datagram (obj sb3 j)) = [1]"
proof -
  let ?al = "''aes-gcm''"
  have none: "kv_get (st_sessions store_new) key20 = None" by (simp add: store_new_def)
  have created: "\<exists>x st. upsert_responder_session root 1 1 key20 None ?al ?al None store_new = (Inr x, st)" for root
    by (simp add: upsert_responder_session_def store_new_def alloc_def Let_def)
  obtain xa sa1 where ua: "upsert_responder_session [1] 1 1 key20 None ?al ?al None store_new = (Inr xa, sa1)"
    using created by blast
  obtain xb sb1 where ub: "upsert_responder_session [2] 1 1 key20 None ?al ?al None store_new = (Inr xb, sb1)"
    using created by blast
  note ca = upsert_create [OF none ua] and cb = upsert_create [OF none ub]
  have applied: "\<exists>i st'. apply_initiator_action 2 2 key20 Create 1 (Some root) 0 ?al ?al None st = (Inr i, st')"
    if "kv_get (st_sessions st) key20 = Some e" "obj st (en_session e) = ps_new 1 20 r 1 0 ?al ?al None" for st e r root
    using that by (auto simp: apply_initiator_action_def drop_invalid_def or_insert_session_def ps_new_def
        check_encrypt_algo_same_def session_new_def check_or_set_peer_static_pubkey_def ps_is_valid_def is_valid_def)
  obtain i sa2 where aa: "apply_initiator_action 2 2 key20 (ur_action xb) (ur_generation xb) (ur_root_key xb) (ur_initial_epoch xb)
      ?al ?al None sa1 = (Inr i, sa2)"
    using applied [OF ca(2)] ca(3) cb(1) by (fastforce simp: obj_def key20_def)
  obtain j sb2 where ab: "apply_initiator_action 2 2 key20 (ur_action xa) (ur_generation xa) (ur_root_key xa) (ur_initial_epoch xa)
      ?al ?al None sb1 = (Inr j, sb2)"
    using applied [OF cb(2)] cb(3) ca(1) by (fastforce simp: obj_def key20_def)
  obtain r sb3 where l1: "upsert_responder_session [3] 4 4 key20 (Some (session_generation (datagram (obj sa2 i)))) ?al ?al None sb2 = (r, sb3)"
    by (metis prod.exhaust)
  obtain r' sa3 where l2: "apply_initiator_action 4 4 key20 Join 1 None 0 ?al ?al None sa2 = (r', sa3)"
    by (metis prod.exhaust)
  note div = crossed_handshakes_diverge [OF none none ua ub aa ab l1 l2]
  then obtain ret where "r = Inr ret" "ur_action ret = Join" by blast
  moreover have "r' = Inr i" "root_key (datagram (obj sa3 i)) = [2]" "root_key (datagram (obj sb3 j)) = [1]"
    using div by blast+
  ultimately show ?thesis using ua ub aa ab l1 l2 by blast
qed

section \<open>The two ends of a connection\<close>

lemma skip_set_encrypted [simp]: "should_skip_encrypt (set_encrypted b h) = should_skip_encrypt h"
  by (simp add: should_skip_encrypt_def set_encrypted_def flag_put_def)

lemma encrypt_payload_marks:
  assumes law: "aead_law (ce_seal env) (ce_open env)" and rnd: "length rnd = AEAD_NONCE_SIZE" and s: "session_reach env s"
    and alg: "parse_algorithm (send_cipher_algorithm s) = Some a" "is_aead_algorithm a" "algorithm_is_available (ce_features env) a"
    and h: "peer_manager_header p = Some h" "\<not> is_encrypted h"
    and e: "encrypt_payload env rnd now d p s = (Inr q, s')"
  shows "peer_manager_header q = Some (set_encrypted True h)"
proof -
  obtain epoch seq where enc: "encrypt_with_nonce (ce_seal env) rnd (traffic_cipher env s epoch d True) (Some (u32_be epoch @ u64_be seq)) p = Inr q"
    using encrypt_payload_result [OF session_reach_cache_ok [OF s] e] by metis
  obtain b key where ca: "traffic_cipher env s epoch d True = Enc_Aead b a key"
    by (rule aead_traffic_cipher [of True s, simplified, OF alg])
  have "cipher_ok (ce_seal env, ce_open env, rnd, Enc_Aead b a key, Some (u32_be epoch @ u64_be seq))" using law rnd by simp
  from cipher_enc_dec(1) [OF this h] enc ca show ?thesis by simp
qed

text \<open>
  The filters at the two ends of a connection are inverse to each other: a packet the sending filter
  lets through in encrypted form comes out of the receiving filter as it went in, for every pair of
  reachable sessions with the same root key and algorithm whose replay check has not seen the number.
\<close>

theorem tunnel_filter_roundtrip:
  fixes fb :: tunnel_filter
  assumes law: "aead_law (ce_seal env) (ce_open env)" and rnd: "length rnd = AEAD_NONCE_SIZE"
    and fa: "tf_enabled fa" "tf_my_peer_id fa = ida" "tf_peer_id fa = Some idb" "tf_session fa = Some i"
    and fb: "tf_enabled fb" "tf_my_peer_id fb = idb" "tf_peer_id fb = Some ida" "tf_session fb = Some j"
    and h: "peer_manager_header p = Some h" "\<not> is_encrypted h" "from_peer_id h = ida" "to_peer_id h = idb"
      "\<not> should_skip_encrypt h" "ida \<noteq> 0"
    and s: "s = datagram (obj sta i)" "session_reach env s" and r: "r = datagram (obj stb j)" "session_reach env r" "ps_is_valid (obj stb j)"
    and same: "root_key r = root_key s" "recv_cipher_algorithm r = send_cipher_algorithm s"
    and alg: "parse_algorithm (send_cipher_algorithm s) = Some a" "is_aead_algorithm a" "algorithm_is_available (ce_features env) a"
    and n: "fst (next_nonce now (dir_for_sender ida idb) s) = (epoch, seq, nonce)"
    and fresh: "fst (precheck_replay epoch seq (dir_for_sender ida idb) now' r)"
    and sent: "before_send env rnd now fa p sta = (Some q, sta')"
  shows "fst (after_received env now' fb (Inr q) stb) = Some (Inr p)"
proof -
  let ?d = "dir_for_sender ida idb"
  obtain s' where e: "encrypt_payload env rnd now ?d p s = (Inr q, s')"
    using sent fa h s(1)
    by (auto simp: before_send_def ps_encrypt_payload_def Let_def case_prod_beta prod_eq_iff split: sum.splits if_splits)
  have hq: "peer_manager_header q = Some (set_encrypted True h)"
    by (rule encrypt_payload_marks [OF law rnd s(2) alg h(1,2) e])
  have "is_valid r" using r by (simp add: ps_is_valid_def)
  from datagram_delivered [OF law rnd s(2) r(2) this same alg h(1,2) e n fresh]
  obtain r' where d: "decrypt_payload env now' ?d q r = (Inr p, r')" by metis
  have ft: "from_peer_id (set_encrypted True h) = ida" "to_peer_id (set_encrypted True h) = idb"
    using h by (simp_all add: set_encrypted_def)
  show ?thesis
    using fb hq h(5,6) d r by (simp add: after_received_def ft ps_decrypt_payload_def Let_def)
qed

definition filter_a :: tunnel_filter where
  "filter_a = set_session 0 (set_peer_id 2 (new_with_peer 1 True))"

definition filter_b :: tunnel_filter where
  "filter_b = set_session 0 (set_peer_id 1 (new_with_peer 2 True))"

lemmas filter_ab = filter_a_def filter_b_def set_session_def set_peer_id_def new_with_peer_def

lemma node1_alice: "datagram (obj node1 0) = alice" "ps_is_valid (obj node1 0)"
  by (simp_all add: node1_eq obj_def ps_new_def alice_def ps_is_valid_def is_valid_def session_new_def)

lemma sample_header_fields: "from_peer_id sample_header = 1" "to_peer_id sample_header = 2" "\<not> should_skip_encrypt sample_header"
  by (simp_all add: sample_header_def filled_header_def should_skip_encrypt_def)

theorem tunnel_filter_roundtrip_witness:
  "\<exists>q st'. before_send toy_env (replicate 12 0) 7 filter_a sample_packet node1 = (Some q, st')
    \<and> fst (after_received toy_env 9 filter_b (Inr q :: nat stream_error + zc_packet) node1) = Some (Inr sample_packet)"
proof -
  have dir: "dir_for_sender 1 2 = AToB" by (simp add: dir_for_sender_def)
  obtain q s' where e: "encrypt_payload toy_env (replicate 12 0) 7 AToB sample_packet alice = (Inr q, s')"
    using alice_encrypts by blast
  then have b: "\<exists>st'. before_send toy_env (replicate 12 0) 7 filter_a sample_packet node1 = (Some q, st')"
    using node1_alice layout_header [OF sample_layout] sample_header_fields dir
    by (simp add: before_send_def filter_ab ps_encrypt_payload_def)
  then obtain st' where b: "before_send toy_env (replicate 12 0) 7 filter_a sample_packet node1 = (Some q, st')" by blast
  have re: "session_reach toy_env alice" unfolding alice_def by (rule reach_new)
  have "fst (after_received toy_env 9 filter_b (Inr q :: nat stream_error + zc_packet) node1) = Some (Inr sample_packet)"
    by (rule tunnel_filter_roundtrip [where a = AesGcm, OF toy_env_law _ _ _ _ _ _ _ _ _ layout_header [OF sample_layout] sample_not_encrypted
          sample_header_fields _ node1_alice(1) [symmetric] re node1_alice(1) [symmetric] re node1_alice(2) _ _ _ _ _
          alice_nonce [folded dir] _ b])
      (simp_all add: AEAD_NONCE_SIZE_def filter_ab alice_def session_new_def parse_plain_aes_gcm is_aead_algorithm_def
        toy_env_def default_features_def new_session_accepts [unfolded session_new_def])
  with b show ?thesis by blast
qed

text \<open>
  The receiving filter authenticates only what is marked as encrypted. A packet without the mark that
  names the right peers, is no handshake or ping, and whose last twelve bytes read as an epoch and number
  the replay check lets in is passed on as it is, whatever its contents, when the session's algorithm is
  any of the AEAD algorithms.
\<close>

theorem filter_accepts_unmarked:
  assumes f: "tf_enabled f" "tf_my_peer_id f = me" "tf_peer_id f = Some peer" "tf_session f = Some i"
    and h: "peer_manager_header p = Some h" "\<not> is_encrypted h" "from_peer_id h = peer" "to_peer_id h = me" "peer \<noteq> 0"
    and s: "session_reach env (datagram (obj st i))" "ps_is_valid (obj st i)"
    and alg: "parse_algorithm (recv_cipher_algorithm (datagram (obj st i))) = Some a" "is_aead_algorithm a"
      "algorithm_is_available (ce_features env) a"
    and pl: "payload p = Some (pre @ tag @ u32_be epoch @ u64_be seq)" "length tag = 16"
    and fresh: "fst (precheck_replay epoch seq (dir_for_sender peer me) now (datagram (obj st i)))"
  shows "fst (after_received env now f (Inr p) st) = Some (Inr p)"
proof (cases "should_skip_encrypt h")
  case True
  with f h show ?thesis by (simp add: after_received_def)
next
  case False
  let ?s = "datagram (obj st i)" and ?d = "dir_for_sender peer me"
  have tail: "parse_tail (pre @ tag @ u32_be epoch @ u64_be seq) = Some (u32_be epoch @ u64_be seq)"
    using pl(2) by (simp add: parse_tail_def aead_tail_def size_defs)
  obtain b key where c: "traffic_cipher env ?s epoch ?d False = Enc_Aead b a key"
    by (rule aead_traffic_cipher [of False ?s, simplified, OF alg(1,2,3)])
  have dec: "enc_decrypt (ce_open env) (Enc_Aead b a key) p = Inr p"
    using h by (cases b) (simp_all add: aes_gcm_decrypt_def chacha20_decrypt_def ring_decrypt_def openssl_decrypt_def)
  have "\<exists>s'. decrypt_payload env now ?d p ?s = (Inr p, s')"
    by (rule decrypt_payload_accept [OF session_reach_cache_ok [OF s(1)] _ pl(1) tail])
      (use s(2) fresh c dec in \<open>simp_all add: ps_is_valid_def\<close>)
  with f h s(2) False show ?thesis by (auto simp: after_received_def ps_decrypt_payload_def Let_def)
qed

definition forged_packet :: zc_packet where
  "forged_packet = new_from_buf (pm_header_bytes sample_header @ replicate 16 0 @ u32_be 0 @ u64_be 0) DummyTunnel"

lemma forged_layout: "packet_layout forged_packet [] sample_header (replicate 16 0 @ u32_be 0 @ u64_be 0)"
  by (simp add: packet_layout_def forged_packet_def new_from_buf_def)

theorem filter_accepts_unmarked_witness:
  "fst (after_received toy_env 9 filter_b (Inr forged_packet :: nat stream_error + zc_packet) node1) = Some (Inr forged_packet)"
proof (rule filter_accepts_unmarked [where a = AesGcm and pre = "[]" and tag = "replicate 16 0" and me = 2 and peer = 1
      and i = 0 and epoch = 0 and seq = 0, OF _ _ _ _ layout_header [OF forged_layout]])
  show "session_reach toy_env (datagram (obj node1 0))" unfolding node1_session by (rule reach_new)
  show "fst (precheck_replay 0 0 (dir_for_sender 1 2) 9 (datagram (obj node1 0)))"
    unfolding node1_session by (rule new_session_accepts)
qed (simp_all add: filter_ab sample_header_fields sample_not_encrypted node1_alice alice_def session_new_def parse_plain_aes_gcm
    is_aead_algorithm_def layout_payload [OF forged_layout], simp add: toy_env_def default_features_def)

end
