(* ===== verification/TokenBucket.thy ===== *)
theory TokenBucket
  imports Prelude
begin

text \<open>
  The token bucket that limits rates (\<^verbatim>\<open>foundation/token_bucket.rs\<close>): refill on demand in integer
  nanoseconds with a remainder, charging, waiting for tokens, and the manager that shares buckets by key.

    \<^item> The \<^verbatim>\<open>u64\<close> fields are natural numbers below \<open>2 ^ 64\<close> and the \<^verbatim>\<open>u128\<close> intermediate results
      saturate at \<open>2 ^ 128 - 1\<close>; subtraction and casts wrap around as written (\<open>u64_sub\<close>, \<open>as_u64\<close>).
    \<^item> An \<^verbatim>\<open>Instant\<close> is a number of nanoseconds; the clock readings are arguments and need not increase.
    \<^item> The potential \<open>tokens_nanos\<close> (tokens and remainder in billionths) carries the rate bound.
\<close>

definition MIN_FILL_RATE :: nat where "MIN_FILL_RATE = 8196"
definition NANOS_PER_SECOND :: nat where "NANOS_PER_SECOND = 1000000000"
definition U64_MAX :: nat where "U64_MAX = 2 ^ 64 - 1"
definition U128_MAX :: nat where "U128_MAX = 2 ^ 128 - 1"

definition as_u64 :: "nat \<Rightarrow> nat" where "as_u64 n = n mod 2 ^ 64"
definition u64_sub :: "nat \<Rightarrow> nat \<Rightarrow> nat" where "u64_sub a b = (if b \<le> a then a - b else a + 2 ^ 64 - b)"
definition u128_sub :: "nat \<Rightarrow> nat \<Rightarrow> nat" where "u128_sub a b = (if b \<le> a then a - b else a + 2 ^ 128 - b)"
definition u64_add :: "nat \<Rightarrow> nat \<Rightarrow> nat" where "u64_add a b = (a + b) mod 2 ^ 64"

record bucket_config =
  capacity :: nat
  fill_rate :: nat

record bucket_state =
  available_tokens :: nat
  last_refill :: nat
  refill_remainder :: nat
  metered_bytes :: nat

record token_bucket =
  tb_state :: bucket_state
  tb_config :: bucket_config
  tb_stopped :: bool

definition config_with_default_capacity :: "nat \<Rightarrow> bucket_config" where
  "config_with_default_capacity rate = (let r = max rate MIN_FILL_RATE in \<lparr>capacity = r, fill_rate = r\<rparr>)"

definition bucket_new_from_cfg :: "nat \<Rightarrow> bucket_config \<Rightarrow> token_bucket" where
  "bucket_new_from_cfg now cfg =
     (let cfg = cfg\<lparr>capacity := max (capacity cfg) 1, fill_rate := max (fill_rate cfg) 1\<rparr>
      in \<lparr>tb_state = \<lparr>available_tokens = capacity cfg, last_refill = now, refill_remainder = 0, metered_bytes = 0\<rparr>,
          tb_config = cfg, tb_stopped = False\<rparr>)"

definition refill :: "bucket_config \<Rightarrow> nat \<Rightarrow> bucket_state \<Rightarrow> bucket_state" where
  "refill cfg now s =
     (let elapsed = now - last_refill s in
      if elapsed = 0 then s
      else let s = s\<lparr>last_refill := now\<rparr> in
        if available_tokens s = capacity cfg then s\<lparr>refill_remainder := 0\<rparr>
        else
          let generated = min U128_MAX (min U128_MAX (fill_rate cfg * elapsed) + refill_remainder s);
              tokens_to_add = generated div NANOS_PER_SECOND;
              remainder = generated mod NANOS_PER_SECOND;
              available_capacity = u64_sub (capacity cfg) (available_tokens s)
          in if available_capacity \<le> tokens_to_add
             then s\<lparr>available_tokens := capacity cfg, refill_remainder := 0\<rparr>
             else s\<lparr>available_tokens := u64_add (available_tokens s) (as_u64 tokens_to_add),
                    refill_remainder := as_u64 remainder\<rparr>)"

definition charge :: "nat \<Rightarrow> bucket_state \<Rightarrow> bucket_state" where
  "charge tokens s = s\<lparr>available_tokens := u64_sub (available_tokens s) tokens,
                       metered_bytes := min U64_MAX (metered_bytes s + tokens)\<rparr>"

definition try_consume_locked :: "bucket_config \<Rightarrow> nat \<Rightarrow> nat \<Rightarrow> bucket_state \<Rightarrow> bool \<times> bucket_state" where
  "try_consume_locked cfg tokens now s =
     (let s = refill cfg now s in
      if available_tokens s < tokens then (False, s) else (True, charge tokens s))"

definition try_consume :: "nat \<Rightarrow> nat \<Rightarrow> token_bucket \<Rightarrow> bool \<times> token_bucket" where
  "try_consume tokens now b =
     (if tb_stopped b then (True, b)
      else let (ok, s) = try_consume_locked (tb_config b) (min tokens (capacity (tb_config b))) now (tb_state b)
           in (ok, b\<lparr>tb_state := s\<rparr>))"

text \<open>One turn of the loop in \<^verbatim>\<open>consume_chunk\<close>: it returns, or it says how long to sleep.\<close>

datatype attempt = Finished | Sleep nat

definition consume_attempt :: "nat \<Rightarrow> nat \<Rightarrow> token_bucket \<Rightarrow> attempt \<times> token_bucket" where
  "consume_attempt tokens now b =
     (if tb_stopped b then (Finished, b)
      else
        let cfg = tb_config b; s = refill cfg now (tb_state b)
        in if tokens \<le> available_tokens s then (Finished, b\<lparr>tb_state := charge tokens s\<rparr>)
           else
             let deficit = u64_sub tokens (available_tokens s);
                 required = deficit * NANOS_PER_SECOND;
                 remaining = u128_sub required (refill_remainder s);
                 sleep_nanos = min U64_MAX ((remaining + fill_rate cfg - 1) div fill_rate cfg)
             in (Sleep (max sleep_nanos 1000000), b\<lparr>tb_state := s\<rparr>))"

text \<open>
  \<^verbatim>\<open>consume\<close> with a task that sleeps as long as it is told and is alone on the bucket. Every turn of the
  inner loop is one unit of fuel.
\<close>

fun consume :: "nat \<Rightarrow> nat \<Rightarrow> nat \<Rightarrow> token_bucket \<Rightarrow> (nat \<times> token_bucket) option" where
  "consume 0 remaining now b = None"
| "consume (Suc fuel) remaining now b =
     (if remaining = 0 \<or> tb_stopped b then Some (now, b)
      else
        let chunk = min remaining (capacity (tb_config b))
        in (case consume_attempt chunk now b of
              (Finished, b) \<Rightarrow> consume fuel (remaining - chunk) now b
            | (Sleep d, b) \<Rightarrow> consume fuel remaining (now + d) b))"

definition bucket_stop :: "token_bucket \<Rightarrow> token_bucket" where
  "bucket_stop b = b\<lparr>tb_stopped := True\<rparr>"

text \<open>
  The manager: a map from keys to shared buckets. As in the session store an \<^verbatim>\<open>Arc\<close> is an index into the
  list of all buckets made; \<open>held\<close> says which of them are held outside the map.
\<close>

record bucket_manager =
  bm_buckets :: "(string, nat) kvs"
  bm_objs :: "token_bucket list"

definition manager_new :: bucket_manager where
  "manager_new = \<lparr>bm_buckets = [], bm_objs = []\<rparr>"

definition manager_retain :: "(nat \<Rightarrow> bool) \<Rightarrow> bucket_manager \<Rightarrow> bucket_manager" where
  "manager_retain held m = m\<lparr>bm_buckets := kv_retain (\<lambda>_ i. held i) (bm_buckets m)\<rparr>"

definition get_or_create :: "nat \<Rightarrow> string \<Rightarrow> bucket_config \<Rightarrow> bucket_manager \<Rightarrow> nat \<times> bucket_manager" where
  "get_or_create now key cfg m =
     (case kv_get (bm_buckets m) key of
        Some i \<Rightarrow> (i, m)
      | None \<Rightarrow> (length (bm_objs m),
          m\<lparr>bm_buckets := kv_put key (length (bm_objs m)) (bm_buckets m),
            bm_objs := bm_objs m @ [bucket_new_from_cfg now cfg]\<rparr>))"

definition manager_stop :: "bucket_manager \<Rightarrow> bucket_manager" where
  "manager_stop m =
     m\<lparr>bm_objs := fold (\<lambda>i objs. objs[i := bucket_stop (objs ! i)]) (map snd (bm_buckets m)) (bm_objs m),
       bm_buckets := []\<rparr>"

section \<open>The bucket holds an exact amount\<close>

text \<open>
  Tokens and remainder together are an amount of billionths of a token. Refilling and charging act on it
  exactly: nothing is lost to the integer division.
\<close>

definition cfg_ok :: "bucket_config \<Rightarrow> bool" where
  "cfg_ok cfg \<longleftrightarrow> 1 \<le> capacity cfg \<and> capacity cfg < 2 ^ 64 \<and> 1 \<le> fill_rate cfg \<and> fill_rate cfg < 2 ^ 64"

definition tokens_nanos :: "bucket_state \<Rightarrow> nat" where
  "tokens_nanos s = available_tokens s * NANOS_PER_SECOND + refill_remainder s"

definition state_ok :: "bucket_config \<Rightarrow> bucket_state \<Rightarrow> bool" where
  "state_ok cfg s \<longleftrightarrow> tokens_nanos s \<le> capacity cfg * NANOS_PER_SECOND \<and> refill_remainder s < NANOS_PER_SECOND"

definition bucket_ok :: "token_bucket \<Rightarrow> bool" where
  "bucket_ok b \<longleftrightarrow> cfg_ok (tb_config b) \<and> state_ok (tb_config b) (tb_state b)"

lemma u64_sub_le [simp]: "b \<le> a \<Longrightarrow> u64_sub a b = a - b"
  by (simp add: u64_sub_def)

lemma nanos_pos [simp]: "0 < NANOS_PER_SECOND"
  by (simp add: NANOS_PER_SECOND_def)

lemma available_nanos:
  assumes "refill_remainder s < NANOS_PER_SECOND"
  shows "available_tokens s = tokens_nanos s div NANOS_PER_SECOND" "n \<le> available_tokens s \<longleftrightarrow> n * NANOS_PER_SECOND \<le> tokens_nanos s"
proof -
  show div: "available_tokens s = tokens_nanos s div NANOS_PER_SECOND" using assms by (simp add: tokens_nanos_def)
  show "n \<le> available_tokens s \<longleftrightarrow> n * NANOS_PER_SECOND \<le> tokens_nanos s"
    unfolding div by (simp add: less_eq_div_iff_mult_less_eq)
qed

lemma state_ok_available: "state_ok cfg s \<Longrightarrow> available_tokens s \<le> capacity cfg"
  unfolding state_ok_def by (metis available_nanos(1) div_le_mono nanos_pos nonzero_mult_div_cancel_right not_less0)

lemma capped_generated:
  assumes "c < 2 ^ 64"
  shows "c \<le> U128_MAX div NANOS_PER_SECOND"
proof -
  have "(2::nat) ^ 64 \<le> U128_MAX div NANOS_PER_SECOND" by (simp add: U128_MAX_def NANOS_PER_SECOND_def)
  with assms show ?thesis by linarith
qed

lemma refill_last: "last_refill (refill cfg now s) = max now (last_refill s)"
  by (simp add: refill_def Let_def max_def)

lemma refill_metered [simp]: "metered_bytes (refill cfg now s) = metered_bytes s"
  by (simp add: refill_def Let_def)

text \<open>The part of a refill that adds tokens, with the saturation and the casts out of the way.\<close>

lemma refill_partial:
  assumes cfg: "cfg_ok cfg" and ok: "state_ok cfg s" and now: "last_refill s < now" and part: "available_tokens s < capacity cfg"
    and few: "tokens_nanos s + fill_rate cfg * (now - last_refill s) < capacity cfg * NANOS_PER_SECOND"
  defines "g \<equiv> fill_rate cfg * (now - last_refill s) + refill_remainder s"
  shows "refill cfg now s = s\<lparr>last_refill := now, available_tokens := available_tokens s + g div NANOS_PER_SECOND,
      refill_remainder := g mod NANOS_PER_SECOND\<rparr>"
proof -
  have "available_tokens s * NANOS_PER_SECOND + g < capacity cfg * NANOS_PER_SECOND"
    using few by (simp add: tokens_nanos_def g_def)
  then have room: "available_tokens s + g div NANOS_PER_SECOND < capacity cfg"
    by (metis add.commute div_mult_self3 less_mult_imp_div_less nanos_pos not_less0)
  have cap: "capacity cfg < 2 ^ 64" using cfg by (simp add: cfg_ok_def)
  have "g < U128_MAX"
  proof (rule ccontr)
    assume "\<not> g < U128_MAX"
    then have "U128_MAX div NANOS_PER_SECOND \<le> g div NANOS_PER_SECOND" by (intro div_le_mono) simp
    with capped_generated [OF cap] room show False by linarith
  qed
  then have gen: "min U128_MAX (min U128_MAX (fill_rate cfg * (now - last_refill s)) + refill_remainder s) = g"
    by (simp add: g_def)
  have "g mod NANOS_PER_SECOND < 2 ^ 64" "g div NANOS_PER_SECOND < 2 ^ 64"
    using room cap by (simp_all add: NANOS_PER_SECOND_def less_trans [OF mod_less_divisor])
  with now part room cap show ?thesis
    by (simp add: refill_def Let_def gen u64_add_def as_u64_def)
qed

lemma refill_full:
  assumes cfg: "cfg_ok cfg" and ok: "state_ok cfg s" and now: "last_refill s < now"
    and many: "capacity cfg * NANOS_PER_SECOND \<le> tokens_nanos s + fill_rate cfg * (now - last_refill s)"
  shows "refill cfg now s = s\<lparr>last_refill := now, available_tokens := capacity cfg, refill_remainder := 0\<rparr>"
proof (cases "available_tokens s = capacity cfg")
  case True
  with now show ?thesis by (simp add: refill_def Let_def)
next
  case False
  let ?x = "fill_rate cfg * (now - last_refill s)"
  let ?g = "min U128_MAX (min U128_MAX ?x + refill_remainder s)"
  note le = state_ok_available [OF ok]
  have cap: "capacity cfg < 2 ^ 64" using cfg by (simp add: cfg_ok_def)
  have "(capacity cfg - available_tokens s) * NANOS_PER_SECOND \<le> ?x + refill_remainder s"
    using many by (simp add: tokens_nanos_def diff_mult_distrib)
  then have "capacity cfg - available_tokens s \<le> (?x + refill_remainder s) div NANOS_PER_SECOND"
    by (simp add: less_eq_div_iff_mult_less_eq)
  moreover have "capacity cfg - available_tokens s \<le> U128_MAX div NANOS_PER_SECOND"
    using capped_generated [OF cap] by linarith
  moreover have "?g = U128_MAX \<or> ?g = ?x + refill_remainder s" by (auto simp: min_def)
  ultimately have "capacity cfg - available_tokens s \<le> ?g div NANOS_PER_SECOND" by metis
  with now False le show ?thesis by (simp add: refill_def Let_def)
qed

lemma refill_nanos:
  assumes cfg: "cfg_ok cfg" and ok: "state_ok cfg s"
  shows "tokens_nanos (refill cfg now s) =
      min (capacity cfg * NANOS_PER_SECOND) (tokens_nanos s + fill_rate cfg * (now - last_refill s))"
    and "state_ok cfg (refill cfg now s)"
proof -
  let ?goal = "tokens_nanos (refill cfg now s) =
      min (capacity cfg * NANOS_PER_SECOND) (tokens_nanos s + fill_rate cfg * (now - last_refill s))
      \<and> refill_remainder (refill cfg now s) < NANOS_PER_SECOND"
  have ?goal
  proof (cases "last_refill s < now")
    case False
    with ok show ?thesis by (simp add: refill_def state_ok_def)
  next
    case now: True
    show ?thesis
    proof (cases "capacity cfg * NANOS_PER_SECOND \<le> tokens_nanos s + fill_rate cfg * (now - last_refill s)")
      case True
      with refill_full [OF cfg ok now] show ?thesis by (simp add: tokens_nanos_def)
    next
      case False
      then have few: "tokens_nanos s + fill_rate cfg * (now - last_refill s) < capacity cfg * NANOS_PER_SECOND" by simp
      then have "available_tokens s * NANOS_PER_SECOND < capacity cfg * NANOS_PER_SECOND"
        unfolding tokens_nanos_def by linarith
      then have part: "available_tokens s < capacity cfg" by simp
      note r = refill_partial [OF cfg ok now part few]
      show ?thesis
        using few unfolding r by (simp add: tokens_nanos_def add_mult_distrib div_mult_mod_eq)
    qed
  qed
  then show "tokens_nanos (refill cfg now s) =
      min (capacity cfg * NANOS_PER_SECOND) (tokens_nanos s + fill_rate cfg * (now - last_refill s))"
    and "state_ok cfg (refill cfg now s)" by (simp_all add: state_ok_def)
qed

lemma charge_nanos:
  assumes "state_ok cfg s" "n \<le> available_tokens s"
  shows "tokens_nanos (charge n s) + n * NANOS_PER_SECOND = tokens_nanos s" "state_ok cfg (charge n s)"
    "last_refill (charge n s) = last_refill s" "metered_bytes (charge n s) = min U64_MAX (metered_bytes s + n)"
proof -
  show eq: "tokens_nanos (charge n s) + n * NANOS_PER_SECOND = tokens_nanos s"
    using assms(2) by (simp add: charge_def tokens_nanos_def flip: add_mult_distrib)
  then show "state_ok cfg (charge n s)"
    using assms(1) by (simp add: state_ok_def) (simp add: charge_def)
qed (simp_all add: charge_def)

text \<open>The exact bucket: an amount of billionths and the time it was last brought up to date.\<close>

definition exact_try :: "bucket_config \<Rightarrow> nat \<Rightarrow> nat \<Rightarrow> nat \<times> nat \<Rightarrow> bool \<times> nat \<times> nat" where
  "exact_try cfg tokens now x =
     (let level = min (capacity cfg * NANOS_PER_SECOND) (fst x + fill_rate cfg * (now - snd x));
          need = min tokens (capacity cfg) * NANOS_PER_SECOND
      in if level < need then (False, level, max now (snd x)) else (True, level - need, max now (snd x)))"

fun exact_run :: "bucket_config \<Rightarrow> (nat \<times> nat) list \<Rightarrow> nat \<times> nat \<Rightarrow> bool list" where
  "exact_run cfg [] x = []"
| "exact_run cfg ((tokens, now) # rs) x =
     (let (ok, x') = exact_try cfg tokens now x in ok # exact_run cfg rs x')"

fun bucket_run :: "(nat \<times> nat) list \<Rightarrow> token_bucket \<Rightarrow> bool list" where
  "bucket_run [] b = []"
| "bucket_run ((tokens, now) # rs) b = (let (ok, b') = try_consume tokens now b in ok # bucket_run rs b')"

definition bucket_abs :: "token_bucket \<Rightarrow> nat \<times> nat" where
  "bucket_abs b = (tokens_nanos (tb_state b), last_refill (tb_state b))"

lemma try_consume_exact:
  assumes "bucket_ok b" "\<not> tb_stopped b" "try_consume tokens now b = (ok, b')"
  shows "exact_try (tb_config b) tokens now (bucket_abs b) = (ok, bucket_abs b')"
    "bucket_ok b'" "\<not> tb_stopped b'" "tb_config b' = tb_config b"
proof -
  let ?cfg = "tb_config b" and ?s = "refill (tb_config b) now (tb_state b)" and ?n = "min tokens (capacity (tb_config b))"
  have cfg: "cfg_ok ?cfg" and st: "state_ok ?cfg (tb_state b)" using assms(1) by (simp_all add: bucket_ok_def)
  note r = refill_nanos [OF cfg st, of now]
  have rem: "refill_remainder ?s < NANOS_PER_SECOND" using r(2) by (simp add: state_ok_def)
  note av = available_nanos(2) [OF rem, of ?n]
  have b': "ok \<longleftrightarrow> ?n \<le> available_tokens ?s" "b' = b\<lparr>tb_state := if ok then charge ?n ?s else ?s\<rparr>"
    using assms(2,3) by (auto simp: try_consume_def try_consume_locked_def Let_def split: if_splits)
  show "bucket_ok b'" "\<not> tb_stopped b'" "tb_config b' = ?cfg"
    using b' cfg r(2) charge_nanos(2) [OF r(2), of ?n] assms(2) by (simp_all add: bucket_ok_def)
  show "exact_try ?cfg tokens now (bucket_abs b) = (ok, bucket_abs b')"
  proof (cases ok)
    case True
    then have le: "?n \<le> available_tokens ?s" using b'(1) by simp
    have "tokens_nanos (charge ?n ?s) = tokens_nanos ?s - ?n * NANOS_PER_SECOND" using charge_nanos(1) [OF r(2) le] by simp
    with True le av b' r(1) show ?thesis
      by (simp add: exact_try_def bucket_abs_def Let_def charge_nanos(3) [OF r(2) le] refill_last not_less)
  next
    case False
    with av b' r(1) show ?thesis by (simp add: exact_try_def bucket_abs_def Let_def refill_last not_le)
  qed
qed

lemma bucket_run_is_exact:
  assumes "bucket_ok b" "\<not> tb_stopped b"
  shows "bucket_run rs b = exact_run (tb_config b) rs (bucket_abs b)"
  using assms
proof (induction rs arbitrary: b)
  case (Cons x rs)
  obtain tokens now where x: "x = (tokens, now)" by (cases x)
  obtain ok b' where t: "try_consume tokens now b = (ok, b')" by (metis prod.exhaust)
  note te = try_consume_exact [OF Cons.prems t]
  from Cons.IH [OF te(2,3)] te(1,4) t show ?case by (simp add: x)
qed simp

text \<open>
  C23: The integer bucket with its remainder decides like an exact one: on every sequence of requests and
  clock readings, increasing or not, it grants exactly what a bucket grants that holds a fractional
  amount, gains the fill rate continuously and is capped at its capacity.
\<close>

theorem bucket_run_exact:
  assumes "bucket_ok b" "\<not> tb_stopped b"
  shows "bucket_run rs b = exact_run (tb_config b) rs (bucket_abs b)"
  by (rule bucket_run_is_exact [OF assms])

theorem bucket_run_exact_witness:
  "bucket_run [(6, 0), (5, 0), (2, 1500000000)] (bucket_new_from_cfg 0 \<lparr>capacity = 10, fill_rate = 1\<rparr>) = [True, False, True]"
proof -
  let ?b = "bucket_new_from_cfg 0 \<lparr>capacity = 10, fill_rate = 1\<rparr>"
  have "bucket_ok ?b" "\<not> tb_stopped ?b"
    by (simp_all add: bucket_ok_def bucket_new_from_cfg_def cfg_ok_def state_ok_def tokens_nanos_def NANOS_PER_SECOND_def)
  from bucket_run_exact [OF this, of "[(6, 0), (5, 0), (2, 1500000000)]"] show ?thesis
    by (simp add: bucket_new_from_cfg_def bucket_abs_def tokens_nanos_def exact_try_def NANOS_PER_SECOND_def Let_def)
qed

lemma exact_try_rate:
  assumes "exact_try cfg tokens now x = (ok, y)"
  shows "(if ok then min tokens (capacity cfg) * NANOS_PER_SECOND else 0) + fst y \<le> fst x + fill_rate cfg * (snd y - snd x)"
    "snd y = max now (snd x)"
  using assms by (auto simp: exact_try_def Let_def max_def split: if_splits)

definition granted :: "bucket_config \<Rightarrow> (nat \<times> nat) list \<Rightarrow> bool list \<Rightarrow> nat" where
  "granted cfg rs oks = (\<Sum>(r, ok) \<leftarrow> zip rs oks. if ok then min (fst r) (capacity cfg) else 0)"

lemma exact_run_rate:
  assumes "\<And>t n. (t, n) \<in> set rs \<Longrightarrow> n \<le> until" "snd x \<le> until"
  shows "granted cfg rs (exact_run cfg rs x) * NANOS_PER_SECOND \<le> fst x + fill_rate cfg * (until - snd x)"
  using assms
proof (induction rs arbitrary: x)
  case (Cons r rs)
  obtain tokens now where r: "r = (tokens, now)" by (cases r)
  obtain ok y where t: "exact_try cfg tokens now x = (ok, y)" by (metis prod.exhaust)
  note e = exact_try_rate [OF t]
  have "now \<le> until" using Cons.prems(1) [of tokens now] r by simp
  then have y: "snd y \<le> until" "snd x \<le> snd y" using e(2) Cons.prems(2) by simp_all
  have "granted cfg rs (exact_run cfg rs y) * NANOS_PER_SECOND \<le> fst y + fill_rate cfg * (until - snd y)"
    by (rule Cons.IH) (use Cons.prems y in auto)
  moreover have "fill_rate cfg * (until - snd y) + fill_rate cfg * (snd y - snd x) = fill_rate cfg * (until - snd x)"
    using y by (simp flip: distrib_left)
  ultimately show ?case using e(1) by (simp add: r t granted_def add_mult_distrib split: if_splits)
qed (simp add: granted_def)

text \<open>
  C24: The rate limit: in every sequence of requests up to a point in time, the bucket charges at most
  its capacity plus the fill rate times the time that has passed, whatever the clock does in between.
\<close>

theorem bucket_rate_bound:
  assumes ok: "bucket_ok b" "\<not> tb_stopped b"
    and until: "\<And>t n. (t, n) \<in> set rs \<Longrightarrow> n \<le> until" "last_refill (tb_state b) \<le> until"
  shows "granted (tb_config b) rs (bucket_run rs b) * NANOS_PER_SECOND
    \<le> capacity (tb_config b) * NANOS_PER_SECOND + fill_rate (tb_config b) * (until - last_refill (tb_state b))"
  using exact_run_rate [of rs until "bucket_abs b" "tb_config b"] until ok bucket_run_is_exact [OF ok, of rs]
  by (fastforce simp: bucket_abs_def bucket_ok_def state_ok_def)

theorem bucket_rate_bound_witness:
  "granted \<lparr>capacity = 10, fill_rate = 1\<rparr> [(6, 0), (5, 1)] (bucket_run [(6, 0), (5, 1)] (bucket_new_from_cfg 0 \<lparr>capacity = 10, fill_rate = 1\<rparr>))
     * NANOS_PER_SECOND \<le> 10 * NANOS_PER_SECOND + 2"
proof -
  let ?b = "bucket_new_from_cfg 0 \<lparr>capacity = 10, fill_rate = 1\<rparr>"
  have "bucket_ok ?b" "\<not> tb_stopped ?b"
    by (simp_all add: bucket_ok_def bucket_new_from_cfg_def cfg_ok_def state_ok_def tokens_nanos_def NANOS_PER_SECOND_def)
  from bucket_rate_bound [OF this, of "[(6, 0), (5, 1)]" 2] show ?thesis
    by (fastforce simp: bucket_new_from_cfg_def)
qed

section \<open>Waiting for tokens\<close>

lemma attempt_finished:
  assumes ok: "bucket_ok b" and run: "\<not> tb_stopped b" and now: "last_refill (tb_state b) \<le> now"
    and a: "consume_attempt n now b = (Finished, b')"
  shows "bucket_ok b'" "\<not> tb_stopped b'" "tb_config b' = tb_config b" "last_refill (tb_state b') = now"
    "metered_bytes (tb_state b') = min U64_MAX (metered_bytes (tb_state b) + n)"
    "n * NANOS_PER_SECOND + tokens_nanos (tb_state b') \<le> tokens_nanos (tb_state b) + fill_rate (tb_config b) * (now - last_refill (tb_state b))"
proof -
  let ?s = "refill (tb_config b) now (tb_state b)"
  have cfg: "cfg_ok (tb_config b)" and st: "state_ok (tb_config b) (tb_state b)" using ok by (simp_all add: bucket_ok_def)
  note r = refill_nanos [OF cfg st, of now]
  have le: "n \<le> available_tokens ?s" and b': "b' = b\<lparr>tb_state := charge n ?s\<rparr>"
    using a run by (auto simp: consume_attempt_def Let_def split: if_splits)
  note c = charge_nanos [OF r(2) le]
  show "bucket_ok b'" "\<not> tb_stopped b'" "tb_config b' = tb_config b" "last_refill (tb_state b') = now"
    "metered_bytes (tb_state b') = min U64_MAX (metered_bytes (tb_state b) + n)"
    "n * NANOS_PER_SECOND + tokens_nanos (tb_state b') \<le> tokens_nanos (tb_state b) + fill_rate (tb_config b) * (now - last_refill (tb_state b))"
    using b' c cfg run now r(1) by (simp_all add: bucket_ok_def refill_last)
qed

text \<open>The wait is long enough, if nobody else takes tokens and the 64-bit limit of the wait is not reached.\<close>

lemma attempt_sleep:
  assumes ok: "bucket_ok b" and run: "\<not> tb_stopped b" and now: "last_refill (tb_state b) \<le> now"
    and n: "n \<le> capacity (tb_config b)" and rate: "n * NANOS_PER_SECOND \<le> fill_rate (tb_config b) * U64_MAX"
    and a: "consume_attempt n now b = (Sleep d, b')"
  shows "bucket_ok b'" "\<not> tb_stopped b'" "tb_config b' = tb_config b" "last_refill (tb_state b') = now"
    "metered_bytes (tb_state b') = metered_bytes (tb_state b)"
    "tokens_nanos (tb_state b') \<le> tokens_nanos (tb_state b) + fill_rate (tb_config b) * (now - last_refill (tb_state b))"
    "n * NANOS_PER_SECOND \<le> tokens_nanos (tb_state b') + fill_rate (tb_config b) * d"
proof -
  let ?cfg = "tb_config b" and ?s = "refill (tb_config b) now (tb_state b)"
  have cfg: "cfg_ok ?cfg" and st: "state_ok ?cfg (tb_state b)" using ok by (simp_all add: bucket_ok_def)
  note r = refill_nanos [OF cfg st, of now]
  let ?rem = "u128_sub (u64_sub n (available_tokens ?s) * NANOS_PER_SECOND) (refill_remainder ?s)"
  let ?w = "(?rem + fill_rate ?cfg - 1) div fill_rate ?cfg"
  have lt: "available_tokens ?s < n" and d: "d = max (min U64_MAX ?w) 1000000" and b': "b' = b\<lparr>tb_state := ?s\<rparr>"
    using a run by (auto simp: consume_attempt_def Let_def not_le split: if_splits)
  have pos: "0 < fill_rate ?cfg" using cfg by (simp add: cfg_ok_def)
  have lo: "refill_remainder ?s < NANOS_PER_SECOND" using r(2) by (simp add: state_ok_def)
  have "1 * NANOS_PER_SECOND \<le> (n - available_tokens ?s) * NANOS_PER_SECOND" using lt by (intro mult_right_mono) simp_all
  with lo have rem: "?rem = n * NANOS_PER_SECOND - tokens_nanos ?s"
    using lt by (simp add: u128_sub_def tokens_nanos_def diff_mult_distrib)
  have "?rem \<le> fill_rate ?cfg * ?w"
  proof -
    let ?k = "?rem + fill_rate ?cfg - 1"
    have "?k = fill_rate ?cfg * (?k div fill_rate ?cfg) + ?k mod fill_rate ?cfg" by simp
    moreover have "?k mod fill_rate ?cfg < fill_rate ?cfg" using pos by simp
    ultimately show ?thesis using pos by linarith
  qed
  moreover have "?rem \<le> fill_rate ?cfg * U64_MAX" using rem rate by linarith
  ultimately have "?rem \<le> fill_rate ?cfg * min U64_MAX ?w" by (simp add: min_def)
  also have "\<dots> \<le> fill_rate ?cfg * d" by (simp add: d)
  finally show "n * NANOS_PER_SECOND \<le> tokens_nanos (tb_state b') + fill_rate ?cfg * d" using rem b' by simp
  show "bucket_ok b'" "\<not> tb_stopped b'" "tb_config b' = ?cfg" "last_refill (tb_state b') = now"
    "metered_bytes (tb_state b') = metered_bytes (tb_state b)"
    "tokens_nanos (tb_state b') \<le> tokens_nanos (tb_state b) + fill_rate ?cfg * (now - last_refill (tb_state b))"
    using b' cfg r run now by (simp_all add: bucket_ok_def refill_last)
qed

lemma attempt_after_sleep:
  assumes ok: "bucket_ok b" and run: "\<not> tb_stopped b" and n: "n \<le> capacity (tb_config b)"
    and enough: "n * NANOS_PER_SECOND \<le> tokens_nanos (tb_state b) + fill_rate (tb_config b) * (now - last_refill (tb_state b))"
  shows "\<exists>b'. consume_attempt n now b = (Finished, b')"
proof -
  let ?s = "refill (tb_config b) now (tb_state b)"
  have cfg: "cfg_ok (tb_config b)" and st: "state_ok (tb_config b) (tb_state b)" using ok by (simp_all add: bucket_ok_def)
  note r = refill_nanos [OF cfg st, of now]
  have "n * NANOS_PER_SECOND \<le> tokens_nanos ?s" using enough n r(1) by simp
  moreover have "refill_remainder ?s < NANOS_PER_SECOND" using r(2) by (simp add: state_ok_def)
  ultimately have "n \<le> available_tokens ?s" by (simp add: available_nanos(2))
  with run show ?thesis by (simp add: consume_attempt_def Let_def)
qed

text \<open>One chunk takes one or two turns of the loop.\<close>

lemma consume_one_chunk:
  assumes b: "bucket_ok b" "\<not> tb_stopped b" "last_refill (tb_state b) \<le> now" and rem: "0 < remaining"
    and rate: "capacity (tb_config b) * NANOS_PER_SECOND \<le> fill_rate (tb_config b) * U64_MAX"
    and c: "c = min remaining (capacity (tb_config b))"
  obtains t g b' where "consume (Suc (Suc f)) remaining now b = consume g (remaining - c) t b'" "f \<le> g" "now \<le> t"
    "bucket_ok b'" "\<not> tb_stopped b'" "tb_config b' = tb_config b" "last_refill (tb_state b') = t"
    "metered_bytes (tb_state b') = min U64_MAX (metered_bytes (tb_state b) + c)"
    "c * NANOS_PER_SECOND + tokens_nanos (tb_state b') \<le> tokens_nanos (tb_state b) + fill_rate (tb_config b) * (t - last_refill (tb_state b))"
proof -
  let ?cfg = "tb_config b" and ?s = "tb_state b"
  have "c \<le> capacity ?cfg" by (simp add: c)
  moreover from this have "c * NANOS_PER_SECOND \<le> fill_rate ?cfg * U64_MAX"
    by (rule order_trans [OF mult_le_mono1 rate])
  ultimately have chunk: "c \<le> capacity ?cfg" "c * NANOS_PER_SECOND \<le> fill_rate ?cfg * U64_MAX" .
  obtain r b1 where a: "consume_attempt c now b = (r, b1)" by (metis prod.exhaust)
  show thesis
  proof (cases r)
    case Finished
    note fin = attempt_finished [OF b a [unfolded Finished]]
    show thesis
      by (rule that [of "Suc f" now b1]) (use a Finished rem b(2) c fin in \<open>simp_all add: Let_def\<close>)
  next
    case (Sleep d)
    note sl = attempt_sleep [OF b chunk a [unfolded Sleep]]
    obtain b2 where a2: "consume_attempt c (now + d) b1 = (Finished, b2)"
      using attempt_after_sleep [of b1 c "now + d"] sl chunk(1) by auto
    note fin = attempt_finished [OF sl(1,2) _ a2, unfolded sl(3,4,5)]
    have "fill_rate ?cfg * (now + d - last_refill ?s) = fill_rate ?cfg * d + fill_rate ?cfg * (now - last_refill ?s)"
      using b(3) by (simp add: add.commute flip: distrib_left)
    with fin sl(6) have "c * NANOS_PER_SECOND + tokens_nanos (tb_state b2)
        \<le> tokens_nanos ?s + fill_rate ?cfg * (now + d - last_refill ?s)" by simp
    then show thesis
      by (intro that [of f "now + d" b2]) (use a Sleep rem b(2) c fin sl a2 in \<open>simp_all add: Let_def\<close>)
  qed
qed

lemma consume_chunks:
  assumes "bucket_ok b" "\<not> tb_stopped b" "last_refill (tb_state b) \<le> now"
    and "capacity (tb_config b) * NANOS_PER_SECOND \<le> fill_rate (tb_config b) * U64_MAX"
    and "remaining \<le> k * capacity (tb_config b)" "2 * k < fuel"
  shows "\<exists>now' b'. consume fuel remaining now b = Some (now', b') \<and> now \<le> now'
    \<and> (0 < remaining \<longrightarrow> metered_bytes (tb_state b') = min U64_MAX (metered_bytes (tb_state b) + remaining))
    \<and> (remaining = 0 \<longrightarrow> b' = b)
    \<and> remaining * NANOS_PER_SECOND + tokens_nanos (tb_state b')
        \<le> tokens_nanos (tb_state b) + fill_rate (tb_config b) * (now' - last_refill (tb_state b))"
  using assms
proof (induction k arbitrary: b now remaining fuel)
  case 0
  then obtain f where "fuel = Suc f" by (cases fuel) auto
  with 0 show ?case by simp
next
  case (Suc k)
  let ?cfg = "tb_config b" and ?s = "tb_state b"
  obtain f where f: "fuel = Suc (Suc f)" "2 * k < f" using Suc.prems(6) by (cases fuel; cases "fuel - 1") auto
  show ?case
  proof (cases "remaining = 0")
    case True
    with f show ?thesis by simp
  next
    case False
    define c where "c = min remaining (capacity ?cfg)"
    obtain t g b2 where st: "consume fuel remaining now b = consume g (remaining - c) t b2" "f \<le> g" "now \<le> t"
      and b2: "bucket_ok b2" "\<not> tb_stopped b2" "tb_config b2 = ?cfg" "last_refill (tb_state b2) = t"
        "metered_bytes (tb_state b2) = min U64_MAX (metered_bytes ?s + c)"
        "c * NANOS_PER_SECOND + tokens_nanos (tb_state b2) \<le> tokens_nanos ?s + fill_rate ?cfg * (t - last_refill ?s)"
      unfolding f(1) using consume_one_chunk [OF Suc.prems(1-3) _ Suc.prems(4) c_def, of f] False by blast
    have left: "remaining - c \<le> k * capacity ?cfg" using Suc.prems(5) by (simp add: c_def)
    obtain now' b' where r: "consume g (remaining - c) t b2 = Some (now', b')" "t \<le> now'"
      "0 < remaining - c \<longrightarrow> metered_bytes (tb_state b') = min U64_MAX (metered_bytes (tb_state b2) + (remaining - c))"
      "remaining - c = 0 \<longrightarrow> b' = b2"
      "(remaining - c) * NANOS_PER_SECOND + tokens_nanos (tb_state b') \<le> tokens_nanos (tb_state b2) + fill_rate ?cfg * (now' - t)"
      using Suc.IH [of b2 t "remaining - c" g] b2 left Suc.prems(4) st(2) f(2) by auto
    have "fill_rate ?cfg * (now' - last_refill ?s) = fill_rate ?cfg * (now' - t) + fill_rate ?cfg * (t - last_refill ?s)"
      using st(3) r(2) Suc.prems(3) by (simp flip: distrib_left)
    moreover have "remaining * NANOS_PER_SECOND = (remaining - c) * NANOS_PER_SECOND + c * NANOS_PER_SECOND"
      by (simp add: c_def flip: add_mult_distrib)
    moreover have "metered_bytes (tb_state b') = min U64_MAX (metered_bytes ?s + remaining)"
      using r(3,4) b2(5) by (cases "remaining - c = 0") (auto simp: c_def min_def split: if_splits)
    ultimately show ?thesis using st(1,3) r(1,2,5) b2(6) False by auto
  qed
qed

text \<open>
  C25: Waiting for tokens ends: a task that is alone on a running bucket and sleeps as it is told gets any
  number of tokens after at most two turns of the loop per chunk of one capacity, has then been charged
  exactly that number, and has waited at least the time the fill rate needs beyond what the bucket held.
  The bucket must fill within the \<open>2 ^ 64\<close> nanoseconds a single wait is limited to.
\<close>

theorem consume_completes:
  assumes "bucket_ok b" "\<not> tb_stopped b" "last_refill (tb_state b) \<le> now" "0 < remaining"
    and "capacity (tb_config b) * NANOS_PER_SECOND \<le> fill_rate (tb_config b) * U64_MAX"
    and "2 * (remaining div capacity (tb_config b) + 1) < fuel"
  shows "\<exists>now' b'. consume fuel remaining now b = Some (now', b') \<and> now \<le> now'
    \<and> metered_bytes (tb_state b') = min U64_MAX (metered_bytes (tb_state b) + remaining)
    \<and> remaining * NANOS_PER_SECOND
        \<le> tokens_nanos (tb_state b) + fill_rate (tb_config b) * (now' - last_refill (tb_state b))"
proof -
  have "0 < capacity (tb_config b)" using assms(1) by (simp add: bucket_ok_def cfg_ok_def)
  then have "remaining mod capacity (tb_config b) < capacity (tb_config b)" by simp
  then have "remaining \<le> (remaining div capacity (tb_config b) + 1) * capacity (tb_config b)"
    by (metis add_mult_distrib div_mult_mod_eq less_imp_le mult_1 add_left_mono)
  from consume_chunks [OF assms(1-3,5) this assms(6)] assms(4) show ?thesis by (auto dest: add_leD1)
qed

theorem consume_completes_witness:
  "\<exists>now' b'. consume 7 25 0 (bucket_new_from_cfg 0 \<lparr>capacity = 10, fill_rate = 1\<rparr>) = Some (now', b') \<and> 15000000000 \<le> now'"
proof -
  let ?b = "bucket_new_from_cfg 0 \<lparr>capacity = 10, fill_rate = 1\<rparr>"
  have b: "bucket_ok ?b" "\<not> tb_stopped ?b"
    by (simp_all add: bucket_ok_def bucket_new_from_cfg_def cfg_ok_def state_ok_def tokens_nanos_def NANOS_PER_SECOND_def)
  have "\<exists>now' b'. consume 7 25 0 ?b = Some (now', b') \<and> 0 \<le> now'
    \<and> metered_bytes (tb_state b') = min U64_MAX (metered_bytes (tb_state ?b) + 25)
    \<and> 25 * NANOS_PER_SECOND \<le> tokens_nanos (tb_state ?b) + fill_rate (tb_config ?b) * (now' - last_refill (tb_state ?b))"
    by (rule consume_completes [OF b])
      (simp_all add: bucket_new_from_cfg_def NANOS_PER_SECOND_def U64_MAX_def)
  then obtain now' b' where "consume 7 25 0 ?b = Some (now', b')"
    "25 * NANOS_PER_SECOND \<le> tokens_nanos (tb_state ?b) + fill_rate (tb_config ?b) * (now' - last_refill (tb_state ?b))" by blast
  then show ?thesis by (auto simp: bucket_new_from_cfg_def tokens_nanos_def NANOS_PER_SECOND_def)
qed

section \<open>The manager\<close>

definition manager_ok :: "bucket_manager \<Rightarrow> bool" where
  "manager_ok m \<longleftrightarrow> kv_ok (bm_buckets m) \<and> (\<forall>k i. kv_get (bm_buckets m) k = Some i \<longrightarrow> i < length (bm_objs m))
     \<and> (\<forall>i < length (bm_objs m). bucket_ok (bm_objs m ! i))"

lemma bucket_ok_new: "capacity cfg < 2 ^ 64 \<Longrightarrow> fill_rate cfg < 2 ^ 64 \<Longrightarrow> bucket_ok (bucket_new_from_cfg now cfg)"
  by (simp add: bucket_ok_def bucket_new_from_cfg_def cfg_ok_def state_ok_def tokens_nanos_def Let_def)

lemma manager_ok_new: "manager_ok manager_new"
  by (auto simp: manager_ok_def manager_new_def)

lemma manager_ok_retain: "manager_ok m \<Longrightarrow> manager_ok (manager_retain held m)"
  by (auto simp: manager_ok_def manager_retain_def kvm.get_retain)

lemma get_or_create_ok:
  assumes "manager_ok m" "capacity cfg < 2 ^ 64" "fill_rate cfg < 2 ^ 64" "get_or_create now key cfg m = (i, m')"
  shows "manager_ok m' \<and> kv_get (bm_buckets m') key = Some i \<and> take (length (bm_objs m)) (bm_objs m') = bm_objs m"
  using assms bucket_ok_new [OF assms(2,3), of now]
  by (auto simp: manager_ok_def get_or_create_def nth_append less_Suc_eq split: option.splits if_splits)

text \<open>Stopping the manager stops every bucket it knows; a stopped bucket grants everything.\<close>

lemma bucket_stop_simps [simp]: "bucket_stop (bucket_stop b) = bucket_stop b" "bucket_ok (bucket_stop b) = bucket_ok b"
  by (simp_all add: bucket_stop_def bucket_ok_def)

lemma stop_all:
  "length (fold (\<lambda>i objs. objs[i := bucket_stop (objs ! i)]) is objs) = length objs"
  "i < length objs \<Longrightarrow> fold (\<lambda>i objs. objs[i := bucket_stop (objs ! i)]) is objs ! i =
     (if i \<in> set is then bucket_stop (objs ! i) else objs ! i)"
proof (induction "is" arbitrary: objs)
  case (Cons a "is")
  { case 1 show ?case by (simp add: Cons) }
  { case 2 then show ?case using Cons(2) [of "objs[a := bucket_stop (objs ! a)]"] by (cases "a = i") auto }
qed simp_all

lemma manager_stop_grants:
  assumes "manager_ok m" "kv_get (bm_buckets m) key = Some i"
  shows "fst (try_consume tokens now (bm_objs (manager_stop m) ! i))" "manager_ok (manager_stop m)"
proof -
  have i: "i < length (bm_objs m)" "i \<in> set (map snd (bm_buckets m))"
    using assms by (auto simp: manager_ok_def kv_get_def dest!: map_of_SomeD intro: image_eqI [of _ _ "(key, i)"])
  from stop_all(2) [OF i(1)] i(2) show "fst (try_consume tokens now (bm_objs (manager_stop m) ! i))"
    by (simp add: manager_stop_def try_consume_def bucket_stop_def)
  show "manager_ok (manager_stop m)"
    using assms(1) by (auto simp: manager_ok_def manager_stop_def stop_all)
qed

end
