(* ===== verification/GraphAlgo.thy ===== *)
theory GraphAlgo
  imports Prelude "HOL-Library.Multiset"
begin

text \<open>
  Shortest paths with the first hop of the path (\<^verbatim>\<open>peers/route/graph_algo.rs\<close>).

    \<^item> A graph is what the code reads of it: the list of outgoing edges of a node, in the order in which
      \<^verbatim>\<open>graph.edges\<close> yields them, each with its target and cost.
    \<^item> Scores are \<^verbatim>\<open>usize\<close>: the addition wraps around at \<open>2 ^ 64\<close>.
    \<^item> The binary heap is used through \<^verbatim>\<open>push\<close> and \<^verbatim>\<open>pop\<close> only. Which of several entries with the same
      score comes first is not specified, so \<open>pop\<close> is an argument; \<open>min_queue\<close> states what it promises,
      and \<open>pop_min\<close> is an implementation.
    \<^item> \<open>None\<close> stands for a panic (the map index \<^verbatim>\<open>first_hop[&node]\<close>) or a loop that does not end; the
      theorem shows that neither happens.
\<close>

section \<open>The heap\<close>

text \<open>\<^verbatim>\<open>MinScored\<close> compares by the score in reverse, so that the maximum of the heap has the least score.\<close>

datatype 'n min_scored = MinScored (score: nat) (scored: 'n)

definition min_scored_le :: "'n min_scored \<Rightarrow> 'n min_scored \<Rightarrow> bool" where
  "min_scored_le a b \<longleftrightarrow> score b \<le> score a"

locale min_queue =
  fixes pop :: "'n min_scored list \<Rightarrow> ('n min_scored \<times> 'n min_scored list) option"
  assumes pop_None: "pop h = None \<longleftrightarrow> h = []"
    and pop_mset: "pop h = Some (x, h') \<Longrightarrow> mset h = add_mset x (mset h')"
    and pop_max: "pop h = Some (x, h') \<Longrightarrow> y \<in> set h \<Longrightarrow> min_scored_le y x"
begin

lemma pop_set: "pop h = Some (x, h') \<Longrightarrow> set h = insert x (set h')"
  by (metis pop_mset set_mset_add_mset_insert set_mset_mset)

lemma pop_length: "pop h = Some (x, h') \<Longrightarrow> length h = Suc (length h')"
  by (metis pop_mset size_add_mset size_mset)

end

definition pop_min :: "'n min_scored list \<Rightarrow> ('n min_scored \<times> 'n min_scored list) option" where
  "pop_min h =
     (case h of
        [] \<Rightarrow> None
      | x # xs \<Rightarrow> let y = foldl (\<lambda>a b. if score b < score a then b else a) x xs in Some (y, remove1 y h))"

lemma foldl_min:
  "foldl (\<lambda>a b. if score b < score a then b else a) x xs \<in> set (x # xs)
   \<and> (\<forall>y \<in> set (x # xs). score (foldl (\<lambda>a b. if score b < score a then b else a) x xs) \<le> score y)"
proof (induction xs arbitrary: x)
  case (Cons b xs)
  from Cons.IH [of "if score b < score x then b else x"] show ?case by (auto split: if_splits)
qed simp

interpretation binary_heap: min_queue pop_min
proof
  fix h h' :: "'n min_scored list" and x y :: "'n min_scored"
  show "pop_min h = None \<longleftrightarrow> h = []" by (simp add: pop_min_def Let_def split: list.split)
  have *: "x \<in> set h \<and> h' = remove1 x h \<and> (\<forall>y \<in> set h. score x \<le> score y)" if "pop_min h = Some (x, h')"
    using that foldl_min by (fastforce simp: pop_min_def Let_def split: list.splits)
  show "mset h = add_mset x (mset h')" if "pop_min h = Some (x, h')"
    using * [OF that] by simp
  show "min_scored_le y x" if "pop_min h = Some (x, h')" "y \<in> set h"
    using * [OF that(1)] that(2) by (simp add: min_scored_le_def)
qed

section \<open>The algorithm\<close>

record 'n dijkstra_state =
  visited :: "'n list"
  scores :: "('n, nat) kvs"
  first_hop :: "('n, 'n \<times> nat) kvs"
  visit_next :: "'n min_scored list"

definition record_hop :: "'n \<Rightarrow> 'n \<Rightarrow> 'n \<Rightarrow> nat \<Rightarrow> 'n dijkstra_state \<Rightarrow> 'n dijkstra_state option" where
  "record_hop start node next next_score st =
     (case (if node = start then Some (next, 0) else kv_get (first_hop st) node) of
        None \<Rightarrow> None
      | Some hop \<Rightarrow>
          Some (st\<lparr>scores := kv_put next next_score (scores st),
                   visit_next := MinScored next_score next # visit_next st,
                   first_hop := kv_put next (fst hop, snd hop + 1) (first_hop st)\<rparr>))"

definition relax_edge :: "'n \<Rightarrow> 'n \<Rightarrow> nat \<Rightarrow> 'n \<times> nat \<Rightarrow> 'n dijkstra_state \<Rightarrow> 'n dijkstra_state option" where
  "relax_edge start node node_score edge st =
     (let next = fst edge in
      if next \<in> set (visited st) then Some st
      else
        let next_score = (node_score + snd edge) mod 2 ^ 64
        in case kv_get (scores st) next of
             Some old \<Rightarrow> if next_score < old then record_hop start node next next_score st else Some st
           | None \<Rightarrow> record_hop start node next next_score st)"

fun relax_edges :: "'n \<Rightarrow> 'n \<Rightarrow> nat \<Rightarrow> ('n \<times> nat) list \<Rightarrow> 'n dijkstra_state \<Rightarrow> 'n dijkstra_state option" where
  "relax_edges start node node_score [] st = Some st"
| "relax_edges start node node_score (e # es) st =
     Option.bind (relax_edge start node node_score e st) (relax_edges start node node_score es)"

partial_function (option) dijkstra_loop ::
  "('n min_scored list \<Rightarrow> ('n min_scored \<times> 'n min_scored list) option) \<Rightarrow> ('n \<Rightarrow> ('n \<times> nat) list) \<Rightarrow> 'n
    \<Rightarrow> 'n dijkstra_state \<Rightarrow> 'n dijkstra_state option" where
  "dijkstra_loop pop edges start st =
     (case pop (visit_next st) of
        None \<Rightarrow> Some st
      | Some (m, h) \<Rightarrow>
          let st = st\<lparr>visit_next := h\<rparr>
          in if scored m \<in> set (visited st) then dijkstra_loop pop edges start st
             else Option.bind (relax_edges start (scored m) (score m) (edges (scored m)) st)
                    (\<lambda>st. dijkstra_loop pop edges start (st\<lparr>visited := scored m # visited st\<rparr>)))"

definition dijkstra_init :: "'n \<Rightarrow> 'n dijkstra_state" where
  "dijkstra_init start =
     \<lparr>visited = [], scores = [(start, 0)], first_hop = [(start, (start, 0))], visit_next = [MinScored 0 start]\<rparr>"

definition dijkstra_with_first_hop ::
  "('n min_scored list \<Rightarrow> ('n min_scored \<times> 'n min_scored list) option) \<Rightarrow> ('n \<Rightarrow> ('n \<times> nat) list) \<Rightarrow> 'n
    \<Rightarrow> (('n, nat) kvs \<times> ('n, 'n \<times> nat) kvs) option" where
  "dijkstra_with_first_hop pop edges start =
     map_option (\<lambda>st. (scores st, first_hop st)) (dijkstra_loop pop edges start (dijkstra_init start))"

text \<open>The loop by the outcome of \<open>pop\<close>: these equations also evaluate it.\<close>

lemma loop_done: "pop (visit_next st) = None \<Longrightarrow> dijkstra_loop pop edges s st = Some st"
  by (subst dijkstra_loop.simps) simp

lemma loop_skip:
  "pop (visit_next st) = Some (m, h) \<Longrightarrow> scored m \<in> set (visited st) \<Longrightarrow>
   dijkstra_loop pop edges s st = dijkstra_loop pop edges s (st\<lparr>visit_next := h\<rparr>)"
  by (subst dijkstra_loop.simps) simp

lemma loop_visit:
  "pop (visit_next st) = Some (m, h) \<Longrightarrow> scored m \<notin> set (visited st) \<Longrightarrow>
   relax_edges s (scored m) (score m) (edges (scored m)) (st\<lparr>visit_next := h\<rparr>) = Some st' \<Longrightarrow>
   dijkstra_loop pop edges s st = dijkstra_loop pop edges s (st'\<lparr>visited := scored m # visited st'\<rparr>)"
  by (subst dijkstra_loop.simps) simp

section \<open>Walks\<close>

text \<open>A walk from the start node: the nodes after the start, where it ends, and what it costs.\<close>

inductive walk :: "('n \<Rightarrow> ('n \<times> nat) list) \<Rightarrow> 'n \<Rightarrow> 'n list \<Rightarrow> 'n \<Rightarrow> nat \<Rightarrow> bool" for edges s where
  walk_nil: "walk edges s [] s 0"
| walk_snoc: "walk edges s p v w \<Longrightarrow> (x, c) \<in> set (edges v) \<Longrightarrow> walk edges s (p @ [x]) x (w + c)"

text \<open>The first hop recorded for a node and the number of hops, for a walk of that shape.\<close>

definition hop_of :: "'n \<Rightarrow> 'n list \<Rightarrow> 'n \<times> nat" where
  "hop_of s p = (if p = [] then s else hd p, length p)"

lemma walk_start: "walk edges s [] v w \<longleftrightarrow> v = s \<and> w = 0"
  by (auto elim: walk.cases intro: walk_nil)

section \<open>Invariant\<close>

text \<open>
  \<open>A\<close> holds the visited nodes and, while its edges are relaxed, the node just popped; \<open>B\<close> bounds the
  scores. The conjuncts: recorded scores belong to walks, visited nodes are settled, the heap holds every
  other score, and its stale entries are larger.
\<close>

definition scores_ok :: "('n \<Rightarrow> ('n \<times> nat) list) \<Rightarrow> 'n \<Rightarrow> 'n set \<Rightarrow> nat \<Rightarrow> 'n dijkstra_state \<Rightarrow> bool" where
  "scores_ok edges s V B st \<longleftrightarrow> kv_get (scores st) s = Some 0 \<and> kv_get (first_hop st) s = Some (s, 0) \<and>
     (\<forall>v x. kv_get (scores st) v = Some x \<longrightarrow> v \<in> V \<and> x \<le> B \<and>
        (\<exists>p. walk edges s p v x \<and> kv_get (first_hop st) v = Some (hop_of s p))) \<and>
     (\<forall>v. kv_get (scores st) v = None \<longrightarrow> kv_get (first_hop st) v = None)"

definition settled :: "('n \<Rightarrow> ('n \<times> nat) list) \<Rightarrow> 'n dijkstra_state \<Rightarrow> bool" where
  "settled edges st \<longleftrightarrow> distinct (visited st) \<and>
     (\<forall>v \<in> set (visited st). \<exists>x. kv_get (scores st) v = Some x \<and>
        (\<forall>y c. (y, c) \<in> set (edges v) \<longrightarrow> (\<exists>z. kv_get (scores st) y = Some z \<and> z \<le> x + c)) \<and>
        (\<forall>u y. kv_get (scores st) u = Some y \<longrightarrow> u \<notin> set (visited st) \<longrightarrow> x \<le> y))"

definition heap_ok :: "'n set \<Rightarrow> 'n dijkstra_state \<Rightarrow> bool" where
  "heap_ok A st \<longleftrightarrow>
     (\<forall>u y. kv_get (scores st) u = Some y \<longrightarrow> u \<notin> A \<longrightarrow> MinScored y u \<in> set (visit_next st)) \<and>
     (\<forall>m \<in> set (visit_next st). \<exists>y. kv_get (scores st) (scored m) = Some y \<and> y \<le> score m)"

definition dij_inv :: "('n \<Rightarrow> ('n \<times> nat) list) \<Rightarrow> 'n \<Rightarrow> 'n set \<Rightarrow> nat \<Rightarrow> 'n set \<Rightarrow> 'n dijkstra_state \<Rightarrow> bool" where
  "dij_inv edges s V B A st \<longleftrightarrow> scores_ok edges s V B st \<and> settled edges st \<and> heap_ok A st"

lemma dij_inv_init: "start \<in> V \<Longrightarrow> dij_inv edges start V 0 {} (dijkstra_init start)"
  by (auto simp: dij_inv_def scores_ok_def settled_def heap_ok_def dijkstra_init_def kv_get_def hop_of_def
      intro: walk_nil split: if_splits)

text \<open>The node whose edges are relaxed: its score is final and no score outside the visited set is smaller.\<close>

definition current :: "'n \<Rightarrow> nat \<Rightarrow> 'n dijkstra_state \<Rightarrow> bool" where
  "current node x st \<longleftrightarrow> node \<notin> set (visited st) \<and> kv_get (scores st) node = Some x
     \<and> (\<forall>u y. kv_get (scores st) u = Some y \<longrightarrow> u \<notin> set (visited st) \<longrightarrow> x \<le> y)
     \<and> (\<forall>u y. kv_get (scores st) u = Some y \<longrightarrow> u \<in> set (visited st) \<longrightarrow> y \<le> x)"

definition improves :: "'n dijkstra_state \<Rightarrow> 'n dijkstra_state \<Rightarrow> bool" where
  "improves st st' \<longleftrightarrow> visited st' = visited st \<and>
     (\<forall>v x. kv_get (scores st) v = Some x \<longrightarrow> (\<exists>x' \<le> x. kv_get (scores st') v = Some x'))"

lemma improves_refl [simp]: "improves st st"
  by (auto simp: improves_def)

lemma improves_trans: "improves st st' \<Longrightarrow> improves st' st'' \<Longrightarrow> improves st st''"
  unfolding improves_def by (metis le_trans)

text \<open>A shorter way to an unvisited node is recorded.\<close>

lemma record_hop_inv:
  assumes inv: "dij_inv edges s V B A st" and cur: "current node x st" and "node \<in> A"
    and e: "(next, c) \<in> set (edges node)" "next \<in> V" "next \<notin> set (visited st)" "x + c \<le> B"
    and new: "\<And>old. kv_get (scores st) next = Some old \<Longrightarrow> x + c < old"
  shows "\<exists>st'. record_hop s node next (x + c) st = Some st' \<and> dij_inv edges s V B A st' \<and> current node x st'
    \<and> improves st st' \<and> kv_get (scores st') next = Some (x + c)"
proof -
  from inv cur obtain p where p: "walk edges s p node x" "kv_get (first_hop st) node = Some (hop_of s p)"
    unfolding dij_inv_def scores_ok_def current_def by blast
  define q where "q = (if node = s then [] else p)"
  have x: "x = 0" if "node = s" using inv cur that by (auto simp: dij_inv_def scores_ok_def current_def)
  have q: "walk edges s q node x" using p x by (auto simp: q_def intro: walk_nil)
  have "hop_of s (q @ [next]) = (if node = s then (next, 1) else (fst (hop_of s p), snd (hop_of s p) + 1))"
    using p(1) walk_start [of edges s node x] by (auto simp: q_def hop_of_def)
  then obtain st' where r: "record_hop s node next (x + c) st = Some st'"
    and st': "st' = st\<lparr>scores := kv_put next (x + c) (scores st), visit_next := MinScored (x + c) next # visit_next st,
        first_hop := kv_put next (hop_of s (q @ [next])) (first_hop st)\<rparr>"
    using p(2) by (auto simp: record_hop_def)
  have ne: "next \<noteq> node" using cur new by (auto simp: current_def)
  have start: "next \<noteq> s"
  proof
    assume "next = s"
    then have "x + c < 0" using new [of 0] inv by (simp add: dij_inv_def scores_ok_def)
    then show False by simp
  qed
  have "scores_ok edges s V B st'"
    using inv e walk_snoc [OF q e(1)] start by (auto simp: st' dij_inv_def scores_ok_def split: if_splits)
  moreover have "settled edges st'"
  proof -
    have mono: "\<exists>z. kv_get (scores st') y = Some z \<and> z \<le> w" if "\<exists>z. kv_get (scores st) y = Some z \<and> z \<le> w" for y w
      using that new by (fastforce simp: st')
    have low: "v \<le> y" if "v \<le> x" "kv_get (scores st') u = Some y" "u \<notin> set (visited st)" for v u y
      using that cur by (auto simp: st' current_def split: if_splits intro: order_trans)
    have vis: "visited st' = visited st" by (simp add: st')
    have "\<exists>w. kv_get (scores st') v = Some w
        \<and> (\<forall>y c. (y, c) \<in> set (edges v) \<longrightarrow> (\<exists>z. kv_get (scores st') y = Some z \<and> z \<le> w + c))
        \<and> (\<forall>u y. kv_get (scores st') u = Some y \<longrightarrow> u \<notin> set (visited st) \<longrightarrow> w \<le> y)"
      if v: "v \<in> set (visited st)" for v
    proof -
      obtain w where w: "kv_get (scores st) v = Some w"
        "\<forall>y c. (y, c) \<in> set (edges v) \<longrightarrow> (\<exists>z. kv_get (scores st) y = Some z \<and> z \<le> w + c)"
        using inv v unfolding dij_inv_def settled_def by blast
      have "w \<le> x" using cur w(1) v unfolding current_def by blast
      moreover have "kv_get (scores st') v = Some w" using v e(3) w(1) by (auto simp: st')
      ultimately show ?thesis using w(2) mono low by blast
    qed
    then show ?thesis using inv by (simp add: dij_inv_def settled_def vis)
  qed
  moreover have "heap_ok A st'"
    using inv new by (fastforce simp: st' dij_inv_def heap_ok_def split: if_splits)
  moreover have "current node x st'" using cur ne e(3) by (auto simp: st' current_def split: if_splits)
  moreover have "improves st st'" using new by (auto simp: st' improves_def split: if_splits)
  ultimately show ?thesis using r by (auto simp: dij_inv_def st')
qed

lemma relax_edge_inv:
  assumes inv: "dij_inv edges s V B A st" and cur: "current node x st" and A: "node \<in> A"
    and e: "(y, c) \<in> set (edges node)" "y \<in> V" "x + c \<le> B" "B < 2 ^ 64"
  shows "\<exists>st'. relax_edge s node x (y, c) st = Some st' \<and> dij_inv edges s V B A st' \<and> current node x st'
    \<and> improves st st' \<and> (\<exists>z. kv_get (scores st') y = Some z \<and> z \<le> x + c)"
proof (cases "y \<in> set (visited st)")
  case True
  then obtain z where "kv_get (scores st) y = Some z" using inv unfolding dij_inv_def settled_def by blast
  moreover from this have "z \<le> x" using cur True unfolding current_def by blast
  ultimately show ?thesis using inv cur True by (auto simp: relax_edge_def)
next
  case False
  have w: "(x + c) mod 2 ^ 64 = x + c" using e by simp
  show ?thesis
  proof (cases "\<exists>old. kv_get (scores st) y = Some old \<and> old \<le> x + c")
    case True
    with inv cur False w show ?thesis by (auto simp: relax_edge_def Let_def)
  next
    case new: False
    then have "\<And>old. kv_get (scores st) y = Some old \<Longrightarrow> x + c < old" by force
    from record_hop_inv [OF inv cur A e(1,2) False e(3) this]
    obtain st' where st': "record_hop s node y (x + c) st = Some st'" "dij_inv edges s V B A st'" "current node x st'"
      "improves st st'" "kv_get (scores st') y = Some (x + c)" by blast
    have "relax_edge s node x (y, c) st = record_hop s node y (x + c) st"
      using False new w by (auto simp: relax_edge_def Let_def split: option.split)
    with st' show ?thesis by auto
  qed
qed

lemma relax_edges_inv:
  assumes "dij_inv edges s V B A st" "current node x st" "node \<in> A" "set es \<subseteq> set (edges node)"
    and V: "\<And>y c. (y, c) \<in> set (edges node) \<Longrightarrow> y \<in> V \<and> x + c \<le> B" and B: "B < 2 ^ 64"
  shows "\<exists>st'. relax_edges s node x es st = Some st' \<and> dij_inv edges s V B A st' \<and> current node x st' \<and> improves st st'
    \<and> (\<forall>y c. (y, c) \<in> set es \<longrightarrow> (\<exists>z. kv_get (scores st') y = Some z \<and> z \<le> x + c))"
  using assms(1-4)
proof (induction es arbitrary: st)
  case (Cons e es)
  obtain y c where e: "e = (y, c)" by (cases e)
  have y: "(y, c) \<in> set (edges node)" using Cons.prems(4) e by simp
  obtain st1 where st1: "relax_edge s node x (y, c) st = Some st1" "dij_inv edges s V B A st1" "current node x st1"
    "improves st st1" "\<exists>z. kv_get (scores st1) y = Some z \<and> z \<le> x + c"
    using relax_edge_inv [OF Cons.prems(1-3) y] V [OF y] B by blast
  obtain st2 where st2: "relax_edges s node x es st1 = Some st2" "dij_inv edges s V B A st2" "current node x st2"
    "improves st1 st2" "\<forall>y c. (y, c) \<in> set es \<longrightarrow> (\<exists>z. kv_get (scores st2) y = Some z \<and> z \<le> x + c)"
    using Cons.IH [OF st1(2,3) Cons.prems(3)] Cons.prems(4) by auto
  have "\<exists>z. kv_get (scores st2) y = Some z \<and> z \<le> x + c"
    using st1(5) st2(4) unfolding improves_def by (meson le_trans)
  moreover have "relax_edges s node x (e # es) st = Some st2" using st1(1) st2(1) e by simp
  ultimately show ?case using st2 improves_trans [OF st1(4) st2(4)] e by auto
qed auto

text \<open>Once its edges are relaxed a node joins the visited ones.\<close>

lemma visit_inv:
  assumes inv: "dij_inv edges s V B (insert node (set (visited st))) st" and cur: "current node x st"
    and rel: "\<forall>y c. (y, c) \<in> set (edges node) \<longrightarrow> (\<exists>z. kv_get (scores st) y = Some z \<and> z \<le> x + c)"
  shows "dij_inv edges s V B (set (node # visited st)) (st\<lparr>visited := node # visited st\<rparr>)"
proof -
  have "scores_ok edges s V B (st\<lparr>visited := node # visited st\<rparr>)" "heap_ok (set (node # visited st)) (st\<lparr>visited := node # visited st\<rparr>)"
    using inv by (simp_all add: dij_inv_def scores_ok_def heap_ok_def)
  moreover have "settled edges (st\<lparr>visited := node # visited st\<rparr>)"
  proof -
    have "distinct (node # visited st)" using inv cur by (simp add: dij_inv_def settled_def current_def)
    moreover have "\<exists>w. kv_get (scores st) v = Some w
        \<and> (\<forall>y c. (y, c) \<in> set (edges v) \<longrightarrow> (\<exists>z. kv_get (scores st) y = Some z \<and> z \<le> w + c))
        \<and> (\<forall>u y. kv_get (scores st) u = Some y \<longrightarrow> u \<notin> set (node # visited st) \<longrightarrow> w \<le> y)"
      if "v \<in> set (node # visited st)" for v
    proof (cases "v = node")
      case True
      with cur rel show ?thesis by (auto simp: current_def)
    next
      case False
      then have "v \<in> set (visited st)" using that by simp
      then show ?thesis using inv unfolding dij_inv_def settled_def by (metis list.set_intros(2))
    qed
    ultimately show ?thesis by (simp add: settled_def)
  qed
  ultimately show ?thesis by (simp add: dij_inv_def)
qed

context min_queue
begin

lemma pop_visited:
  assumes inv: "dij_inv edges s V B (set (visited st)) st" and p: "pop (visit_next st) = Some (m, h)"
    and v: "scored m \<in> set (visited st)"
  shows "dij_inv edges s V B (set (visited st)) (st\<lparr>visit_next := h\<rparr>)"
proof -
  note set = pop_set [OF p]
  have "MinScored y u \<in> set h" if "kv_get (scores st) u = Some y" "u \<notin> set (visited st)" for u y
    using inv set v that unfolding dij_inv_def heap_ok_def by (metis insertE min_scored.sel(2))
  with inv set show ?thesis by (simp add: dij_inv_def scores_ok_def settled_def heap_ok_def)
qed

lemma pop_current:
  assumes inv: "dij_inv edges s V B (set (visited st)) st" and p: "pop (visit_next st) = Some (m, h)"
    and v: "scored m \<notin> set (visited st)" and B: "B \<le> B'"
  shows "dij_inv edges s V B' (insert (scored m) (set (visited st))) (st\<lparr>visit_next := h\<rparr>)"
    "current (scored m) (score m) (st\<lparr>visit_next := h\<rparr>)"
proof -
  note set = pop_set [OF p]
  have least: "score m \<le> y" if "kv_get (scores st) u = Some y" "u \<notin> set (visited st)" for u y
  proof -
    have "MinScored y u \<in> set (visit_next st)" using inv that by (simp add: dij_inv_def heap_ok_def)
    from pop_max [OF p this] show ?thesis by (simp add: min_scored_le_def)
  qed
  obtain y where y: "kv_get (scores st) (scored m) = Some y" "y \<le> score m"
    using inv set unfolding dij_inv_def heap_ok_def by blast
  with least v have x: "kv_get (scores st) (scored m) = Some (score m)" by (metis le_antisym)
  have "u \<in> set (visited st) \<Longrightarrow> kv_get (scores st) u = Some z \<Longrightarrow> z \<le> score m" for u z
    using inv x v unfolding dij_inv_def settled_def by (metis option.inject)
  with least x v show "current (scored m) (score m) (st\<lparr>visit_next := h\<rparr>)" by (simp add: current_def)
  have "MinScored y u \<in> set h" if "kv_get (scores st) u = Some y" "u \<notin> insert (scored m) (set (visited st))" for u y
    using inv set that unfolding dij_inv_def heap_ok_def by (metis insertE insertI1 insertI2 min_scored.sel(2))
  moreover have "scores_ok edges s V B' (st\<lparr>visit_next := h\<rparr>)"
    using inv B unfolding dij_inv_def scores_ok_def by (auto intro: order_trans)
  ultimately show "dij_inv edges s V B' (insert (scored m) (set (visited st))) (st\<lparr>visit_next := h\<rparr>)"
    using inv set by (simp add: dij_inv_def settled_def heap_ok_def)
qed

lemma dijkstra_loop_inv:
  assumes V: "finite V" "\<And>v y c. v \<in> V \<Longrightarrow> (y, c) \<in> set (edges v) \<Longrightarrow> y \<in> V \<and> c \<le> C" and C: "card V * C < 2 ^ 64"
    and "dij_inv edges s V (length (visited st) * C) (set (visited st)) st"
  shows "\<exists>st'. dijkstra_loop pop edges s st = Some st' \<and> visit_next st' = []
    \<and> dij_inv edges s V (length (visited st') * C) (set (visited st')) st'"
  using assms(4)
proof (induction st rule: wf_induct_rule [OF wf_measures [of "[\<lambda>st. card V - length (visited st), \<lambda>st. length (visit_next st)]"]])
  case (1 st)
  note inv = 1(2)
  show ?case
  proof (cases "pop (visit_next st)")
    case None
    then have "visit_next st = []" by (simp add: pop_None)
    with inv show ?thesis using loop_done [of pop st edges s] None by auto
  next
    case (Some mh)
    obtain m h where mh: "mh = (m, h)" by (cases mh)
    note p = Some [unfolded mh]
    let ?st = "st\<lparr>visit_next := h\<rparr>"
    show ?thesis
    proof (cases "scored m \<in> set (visited st)")
      case True
      have "\<exists>st'. dijkstra_loop pop edges s ?st = Some st' \<and> visit_next st' = []
          \<and> dij_inv edges s V (length (visited st') * C) (set (visited st')) st'"
        by (rule 1(1)) (use pop_visited [OF inv p True] pop_length [OF p] in simp_all)
      with loop_skip [of pop st m h edges s] p True show ?thesis by simp
    next
      case False
      let ?B = "Suc (length (visited st)) * C"
      have dom: "kv_get (scores st) v = Some x \<Longrightarrow> v \<in> V \<and> x \<le> length (visited st) * C" for v x
        using inv unfolding dij_inv_def scores_ok_def by blast
      note cur = pop_current [OF inv p False, of ?B, simplified]
      have m: "scored m \<in> V" "score m \<le> length (visited st) * C"
        using cur(2) dom by (auto simp: current_def)
      have "set (visited st) \<subseteq> V" using inv dom unfolding dij_inv_def settled_def by blast
      moreover have "distinct (visited st)" using inv by (simp add: dij_inv_def settled_def)
      ultimately have card: "Suc (length (visited st)) \<le> card V"
        using False m(1) V(1) by (metis card_mono card_insert_disjoint distinct_card finite_set insert_subset)
      then have B: "?B < 2 ^ 64" using C by (meson le_less_trans mult_le_mono1)
      have edges: "y \<in> V \<and> score m + c \<le> ?B" if "(y, c) \<in> set (edges (scored m))" for y c
        using V(2) [OF m(1) that] m(2) by simp
      obtain st1 where st1: "relax_edges s (scored m) (score m) (edges (scored m)) ?st = Some st1"
        "dij_inv edges s V ?B (insert (scored m) (set (visited st))) st1" "current (scored m) (score m) st1" "improves ?st st1"
        "\<forall>y c. (y, c) \<in> set (edges (scored m)) \<longrightarrow> (\<exists>z. kv_get (scores st1) y = Some z \<and> z \<le> score m + c)"
        using relax_edges_inv [OF _ cur(2) insertI1 order_refl edges B, of edges s "set (visited st)"] cur(1) by auto
      have vis: "visited st1 = visited st" using st1(4) by (simp add: improves_def)
      let ?st2 = "st1\<lparr>visited := scored m # visited st1\<rparr>"
      have inv2: "dij_inv edges s V ?B (set (visited ?st2)) ?st2"
        using visit_inv [of edges s V ?B "scored m" st1] st1(2,3,5) vis by simp
      have less: "card V - Suc (length (visited st)) < card V - length (visited st)" using card by linarith
      have "\<exists>st'. dijkstra_loop pop edges s ?st2 = Some st' \<and> visit_next st' = []
          \<and> dij_inv edges s V (length (visited st') * C) (set (visited st')) st'"
        by (rule 1(1)) (use inv2 less vis in simp_all)
      with loop_visit [of pop st m h s edges st1] p False st1(1) show ?thesis by simp
    qed
  qed
qed

lemma dijkstra_optimal:
  assumes V: "finite V" "start \<in> V" "\<And>v y c. v \<in> V \<Longrightarrow> (y, c) \<in> set (edges v) \<Longrightarrow> y \<in> V \<and> c \<le> C" and C: "card V * C < 2 ^ 64"
  obtains sc fh where "dijkstra_with_first_hop pop edges start = Some (sc, fh)"
    "\<And>p v w. walk edges start p v w \<Longrightarrow> \<exists>d. kv_get sc v = Some d \<and> d \<le> w"
    "\<And>v d. kv_get sc v = Some d \<Longrightarrow> \<exists>p. walk edges start p v d \<and> kv_get fh v = Some (hop_of start p)"
    "\<And>v. kv_get sc v = None \<Longrightarrow> kv_get fh v = None"
    "\<And>v d. kv_get sc v = Some d \<Longrightarrow> d \<le> card V * C"
    "kv_get fh start = Some (start, 0)"
proof -
  have "dij_inv edges start V (length (visited (dijkstra_init start)) * C) (set (visited (dijkstra_init start))) (dijkstra_init start)"
    using dij_inv_init [OF V(2)] by (simp add: dijkstra_init_def)
  with dijkstra_loop_inv [OF V(1) _ C] V(3) obtain st where
    st: "dijkstra_loop pop edges start (dijkstra_init start) = Some st" "visit_next st = []"
    and inv: "dij_inv edges start V (length (visited st) * C) (set (visited st)) st" by metis
  have sc: "\<exists>p. walk edges start p v d \<and> kv_get (first_hop st) v = Some (hop_of start p)" if "kv_get (scores st) v = Some d" for v d
    using inv that unfolding dij_inv_def scores_ok_def by blast
  have all: "v \<in> set (visited st)" if "kv_get (scores st) v = Some d" for v d
    using inv that st(2) by (auto simp: dij_inv_def heap_ok_def)
  have "\<exists>d. kv_get (scores st) v = Some d \<and> d \<le> w" if "walk edges start p v w" for p v w
    using that
  proof (induction rule: walk.induct)
    case walk_nil
    then show ?case using inv by (auto simp: dij_inv_def scores_ok_def)
  next
    case (walk_snoc p v w x c)
    then obtain d where d: "kv_get (scores st) v = Some d" "d \<le> w" by blast
    obtain z where "kv_get (scores st) x = Some z" "z \<le> d + c"
      using inv all [OF d(1)] d(1) walk_snoc(2) unfolding dij_inv_def settled_def by (metis option.inject)
    with d(2) show ?case by auto
  qed
  moreover have "\<And>v. kv_get (scores st) v = None \<Longrightarrow> kv_get (first_hop st) v = None"
    using inv by (simp add: dij_inv_def scores_ok_def)
  moreover have "d \<le> card V * C" if "kv_get (scores st) v = Some d" for v d
  proof -
    have dom: "kv_get (scores st) v = Some x \<Longrightarrow> v \<in> V \<and> x \<le> length (visited st) * C" for v x
      using inv unfolding dij_inv_def scores_ok_def by blast
    have "set (visited st) \<subseteq> V" using inv dom unfolding dij_inv_def settled_def by blast
    moreover have "distinct (visited st)" using inv by (simp add: dij_inv_def settled_def)
    ultimately have "length (visited st) \<le> card V" using V(1) by (metis card_mono distinct_card)
    then show ?thesis using dom [OF that] by (meson le_trans mult_le_mono1)
  qed
  moreover have "kv_get (first_hop st) start = Some (start, 0)"
    using inv by (simp add: dij_inv_def scores_ok_def)
  moreover have "dijkstra_with_first_hop pop edges start = Some (scores st, first_hop st)"
    using st(1) by (simp add: dijkstra_with_first_hop_def)
  ultimately show thesis using sc that by blast
qed

end

text \<open>The map of first hops has one entry per node.\<close>

lemma record_hop_kv_ok:
  "record_hop start node next next_score st = Some st' \<Longrightarrow> kv_ok (first_hop st) \<Longrightarrow> kv_ok (first_hop st')"
  by (auto simp: record_hop_def split: option.splits if_splits)

lemma relax_edges_kv_ok:
  "relax_edges start node node_score es st = Some st' \<Longrightarrow> kv_ok (first_hop st) \<Longrightarrow> kv_ok (first_hop st')"
proof (induction es arbitrary: st)
  case (Cons e es)
  then obtain st1 where st1: "relax_edge start node node_score e st = Some st1" "relax_edges start node node_score es st1 = Some st'"
    by (auto simp: bind_eq_Some_conv)
  have "kv_ok (first_hop st1)"
    using st1(1) Cons.prems(2) record_hop_kv_ok
    by (auto simp: relax_edge_def Let_def split: if_splits option.splits)
  with Cons.IH [OF st1(2)] show ?case .
qed simp

lemma dijkstra_loop_kv_ok:
  "dijkstra_loop pop edges start st = Some st' \<Longrightarrow> kv_ok (first_hop st) \<longrightarrow> kv_ok (first_hop st')"
proof (erule dijkstra_loop.raw_induct [rotated])
  fix loop pop edges start st st'
  assume IH: "\<And>pop edges start st st'. loop pop edges start st = Some st' \<Longrightarrow> kv_ok (first_hop st) \<longrightarrow> kv_ok (first_hop st')"
    and run: "(case pop (visit_next st) of None \<Rightarrow> Some st
       | Some (m, h) \<Rightarrow> let st = st\<lparr>visit_next := h\<rparr>
           in if scored m \<in> set (visited st) then loop pop edges start st
              else Option.bind (relax_edges start (scored m) (score m) (edges (scored m)) st)
                     (\<lambda>st. loop pop edges start (st\<lparr>visited := scored m # visited st\<rparr>))) = Some st'"
  show "kv_ok (first_hop st) \<longrightarrow> kv_ok (first_hop st')"
    using run by (auto simp: Let_def bind_eq_Some_conv split: option.splits if_splits dest!: IH relax_edges_kv_ok)
qed

lemma dijkstra_kv_ok: "dijkstra_with_first_hop pop edges start = Some (sc, fh) \<Longrightarrow> kv_ok fh"
  using dijkstra_loop_kv_ok [of pop edges start "dijkstra_init start"]
  by (auto simp: dijkstra_with_first_hop_def dijkstra_init_def kv_ok_def)

text \<open>
  C16: The search returns, without a panic, for every finite graph whose scores cannot reach \<open>2 ^ 64\<close>,
  whatever the heap does with equal scores: the score of a node is the least cost of a walk to it, a node
  without a walk has none, and the first hop recorded with it is the first node of a cheapest walk, with
  the number of hops of that walk.
\<close>

theorem dijkstra_shortest:
  assumes "min_queue pop" and "finite V" "start \<in> V"
    and "\<And>v y c. v \<in> V \<Longrightarrow> (y, c) \<in> set (edges v) \<Longrightarrow> y \<in> V \<and> c \<le> C" and "card V * C < 2 ^ 64"
  shows "\<exists>sc fh. dijkstra_with_first_hop pop edges start = Some (sc, fh)
    \<and> (\<forall>v d. kv_get sc v = Some d \<longleftrightarrow>
         (\<exists>p. walk edges start p v d \<and> (\<forall>q w. walk edges start q v w \<longrightarrow> d \<le> w)))
    \<and> (\<forall>v d. kv_get sc v = Some d \<longrightarrow> (\<exists>p. walk edges start p v d \<and> kv_get fh v = Some (hop_of start p)))"
proof (rule min_queue.dijkstra_optimal [OF assms])
  fix sc fh
  assume r: "dijkstra_with_first_hop pop edges start = Some (sc, fh)"
    and low: "\<And>p v w. walk edges start p v w \<Longrightarrow> \<exists>d. kv_get sc v = Some d \<and> d \<le> w"
    and sc: "\<And>v d. kv_get sc v = Some d \<Longrightarrow> \<exists>p. walk edges start p v d \<and> kv_get fh v = Some (hop_of start p)"
  have "kv_get sc v = Some d \<longleftrightarrow> (\<exists>p. walk edges start p v d \<and> (\<forall>q w. walk edges start q v w \<longrightarrow> d \<le> w))" for v d
    using low sc by (metis le_antisym option.inject)
  with r sc show ?thesis by blast
qed assumption+

definition sample_edges :: "nat \<Rightarrow> (nat \<times> nat) list" where
  "sample_edges v = (if v = 0 then [(1, 10), (2, 1)] else if v = 2 then [(1, 2)] else if v = 1 then [(3, 1)] else [])"

lemma sample_run: "dijkstra_with_first_hop pop_min sample_edges 0 =
    Some ([(0, 0), (1, 3), (2, 1), (3, 4)], [(0, (0, 0)), (1, (2, 2)), (2, (2, 1)), (3, (2, 3))])"
  by (simp add: dijkstra_with_first_hop_def dijkstra_init_def loop_done loop_skip loop_visit pop_min_def sample_edges_def
      relax_edge_def record_hop_def kv_get_def kv_put_def Let_def)

theorem dijkstra_shortest_witness:
  "\<exists>p. walk sample_edges 0 p 3 4 \<and> (\<forall>q w. walk sample_edges 0 q 3 w \<longrightarrow> 4 \<le> w)"
proof -
  have "\<exists>sc fh. dijkstra_with_first_hop pop_min sample_edges 0 = Some (sc, fh)
    \<and> (\<forall>v d. kv_get sc v = Some d \<longleftrightarrow>
         (\<exists>p. walk sample_edges 0 p v d \<and> (\<forall>q w. walk sample_edges 0 q v w \<longrightarrow> d \<le> w)))
    \<and> (\<forall>v d. kv_get sc v = Some d \<longrightarrow> (\<exists>p. walk sample_edges 0 p v d \<and> kv_get fh v = Some (hop_of 0 p)))"
    by (rule dijkstra_shortest [where V = "{0, 1, 2, 3}" and C = 10, OF binary_heap.min_queue_axioms])
      (auto simp: sample_edges_def split: if_splits)
  then have "kv_get [(0, 0), (1, 3), (2, 1), (3, 4)] (3 :: nat) = Some (4 :: nat) \<longleftrightarrow>
      (\<exists>p. walk sample_edges 0 p 3 4 \<and> (\<forall>q w. walk sample_edges 0 q 3 w \<longrightarrow> 4 \<le> w))"
    unfolding sample_run by blast
  then show ?thesis by (simp add: kv_get_def)
qed

end
