(* ===== verification/AclTypes.thy ===== *)
theory AclTypes
  imports TokenBucket StdText
begin

text \<open>
  Data of the access control lists: the messages of \<^verbatim>\<open>acl.proto\<close> and the types of
  \<^verbatim>\<open>peers/acl/processor.rs\<close>.

    \<^item> An enumeration in a message is an \<^verbatim>\<open>i32\<close>; its accessor falls back to the zero value.
    \<^item> The \<^verbatim>\<open>Arc<RuleStats>\<close> that rules and cache entries share and that the code mutates through a
      raw pointer is an index into \<open>ap_rule_stats\<close>, the list of all statistics a processor made.
    \<^item> \<open>ck_instant\<close> is the monotonic clock in nanoseconds, \<open>ck_unix\<close> the wall clock in seconds.
    \<^item> The \<^verbatim>\<open>cidr\<close> crate enters as \<open>cidr_ops\<close>.
\<close>

section \<open>Messages\<close>

datatype protocol =
  Protocol_Unspecified | Protocol_Tcp | Protocol_Udp | Protocol_Icmp | Protocol_IcmPv6 | Protocol_Any

datatype action = Action_Noop | Action_Allow | Action_Drop

datatype chain_type = UnspecifiedChain | Inbound | Outbound | Forward

datatype conn_state = Conn_New | Conn_Established | Conn_Related | Conn_Invalid

fun protocol_i32 :: "protocol \<Rightarrow> int" where
  "protocol_i32 Protocol_Unspecified = 0"
| "protocol_i32 Protocol_Tcp = 1"
| "protocol_i32 Protocol_Udp = 2"
| "protocol_i32 Protocol_Icmp = 3"
| "protocol_i32 Protocol_IcmPv6 = 4"
| "protocol_i32 Protocol_Any = 5"

definition protocol_of_i32 :: "int \<Rightarrow> protocol" where
  "protocol_of_i32 n =
     (if n = 1 then Protocol_Tcp else if n = 2 then Protocol_Udp else if n = 3 then Protocol_Icmp
      else if n = 4 then Protocol_IcmPv6 else if n = 5 then Protocol_Any else Protocol_Unspecified)"

definition action_of_i32 :: "int \<Rightarrow> action" where
  "action_of_i32 n = (if n = 1 then Action_Allow else if n = 2 then Action_Drop else Action_Noop)"

fun chain_type_i32 :: "chain_type \<Rightarrow> int" where
  "chain_type_i32 UnspecifiedChain = 0"
| "chain_type_i32 Inbound = 1"
| "chain_type_i32 Outbound = 2"
| "chain_type_i32 Forward = 3"

definition chain_type_of_i32 :: "int \<Rightarrow> chain_type" where
  "chain_type_of_i32 n =
     (if n = 1 then Inbound else if n = 2 then Outbound else if n = 3 then Forward else UnspecifiedChain)"

fun conn_state_i32 :: "conn_state \<Rightarrow> int" where
  "conn_state_i32 Conn_New = 0"
| "conn_state_i32 Conn_Established = 1"
| "conn_state_i32 Conn_Related = 2"
| "conn_state_i32 Conn_Invalid = 3"

record acl_rule =
  ar_name :: string
  ar_description :: string
  ar_priority :: u32
  ar_enabled :: bool
  ar_protocol :: int
  ar_ports :: "string list"
  ar_source_ips :: "string list"
  ar_destination_ips :: "string list"
  ar_source_ports :: "string list"
  ar_action :: int
  ar_rate_limit :: u32
  ar_burst_limit :: u32
  ar_stateful :: bool
  ar_source_groups :: "string list"
  ar_destination_groups :: "string list"

record acl_chain =
  ac_name :: string
  ac_chain_type :: int
  ac_description :: string
  ac_enabled :: bool
  ac_rules :: "acl_rule list"
  ac_default_action :: int

record group_identity =
  gi_group_name :: string
  gi_group_secret :: string

record group_info =
  gr_declares :: "group_identity list"
  gr_members :: "string list"

record acl_v1 =
  av_chains :: "acl_chain list"
  av_group :: "group_info option"

record acl_config =
  acl_v1_of :: "acl_v1 option"

definition acl_default :: acl_config where
  "acl_default = \<lparr>acl_v1_of = None\<rparr>"

record conn_track_entry =
  ct_src_addr :: socket_addr
  ct_dst_addr :: socket_addr
  ct_protocol :: int
  ct_state :: int
  ct_created_at :: u64
  ct_last_seen :: u64
  ct_packet_count :: u64
  ct_byte_count :: u64

record stat_item =
  si_packet_count :: u64
  si_byte_count :: u64

record rule_stats =
  rs_rule :: "acl_rule option"
  rs_stat :: "stat_item option"

section \<open>Processor state\<close>

record rate_limit_key =
  rl_chain_type :: chain_type
  rl_rule_priority :: u32

record rate_limit_value =
  rv_token_bucket :: token_bucket
  rv_last_update :: nat

datatype rule_id = Rule_Priority u32 | Rule_Stateful u32 | Rule_Default

record 'c cidr_ops =
  co_from_str :: "string \<Rightarrow> 'c ip_cidr option"
  co_contains_v4 :: "'c \<Rightarrow> u32 \<Rightarrow> bool"
  co_contains_v6 :: "'c \<Rightarrow> 128 word \<Rightarrow> bool"

record 'c fast_rule =
  fr_priority :: u32
  fr_protocol :: protocol
  fr_src_ip_ranges :: "'c ip_cidr list"
  fr_dst_ip_ranges :: "'c ip_cidr list"
  fr_src_port_ranges :: "(u16 \<times> u16) list"
  fr_dst_port_ranges :: "(u16 \<times> u16) list"
  fr_source_groups :: "string set"
  fr_destination_groups :: "string set"
  fr_action :: action
  fr_enabled :: bool
  fr_stateful :: bool
  fr_rate_limit :: u32
  fr_burst_limit :: u32
  fr_rule_stats :: nat

record packet_info =
  pi_src_ip :: ip_addr
  pi_dst_ip :: ip_addr
  pi_src_port :: "u16 option"
  pi_dst_port :: "u16 option"
  pi_protocol :: protocol
  pi_packet_size :: u64
  pi_src_groups :: "string list"
  pi_dst_groups :: "string list"

record acl_cache_key =
  ck_chain_type :: chain_type
  ck_protocol :: protocol
  ck_src_ip :: ip_addr
  ck_dst_ip :: ip_addr
  ck_src_port :: u16
  ck_dst_port :: u16
  ck_src_groups :: "string list"
  ck_dst_groups :: "string list"

datatype acl_log_context =
    StatefulMatch ip_addr ip_addr
  | RuleMatch ip_addr ip_addr action
  | DefaultDrop
  | DefaultAllow
  | UnsupportedChainType
  | RateLimitDrop

record acl_result =
  re_action :: action
  re_matched_rule :: "rule_id option"
  re_should_log :: bool
  re_log_context :: "acl_log_context option"

record acl_cache_entry =
  ce_matched_rule :: rule_id
  ce_last_access :: nat
  ce_conn_track_key :: "string option"
  ce_rate_limit_keys :: "rate_limit_key list"
  ce_acl_result :: "acl_result option"
  ce_rule_stats_vec :: "nat list"

datatype acl_stat_key =
    CacheHits | CacheSize | CacheMaxSize | RuleMatches | DefaultAllows | DefaultDrops
  | PacketsTotal | PacketsAllowed | PacketsDropped | PacketsNoop
  | InboundPacketsTotal | InboundPacketsAllowed | InboundPacketsDropped | InboundPacketsNoop
  | OutboundPacketsTotal | OutboundPacketsAllowed | OutboundPacketsDropped | OutboundPacketsNoop
  | ForwardPacketsTotal | ForwardPacketsAllowed | ForwardPacketsDropped | ForwardPacketsNoop
  | UnknownPacketsTotal | UnknownPacketsAllowed | UnknownPacketsDropped | UnknownPacketsNoop

datatype acl_stat_type = Stat_Total | Stat_Allowed | Stat_Dropped | Stat_Noop

record 'c acl_processor =
  ap_inbound_rules :: "'c fast_rule list"
  ap_outbound_rules :: "'c fast_rule list"
  ap_forward_rules :: "'c fast_rule list"
  ap_default_inbound_action :: action
  ap_default_outbound_action :: action
  ap_default_forward_action :: action
  ap_default_rule_stats :: nat
  ap_conn_track :: "(string, conn_track_entry) kvs"
  ap_rate_limiters :: "(rate_limit_key, rate_limit_value) kvs"
  ap_rule_cache :: "(acl_cache_key, acl_cache_entry) kvs"
  ap_cache_max_size :: nat
  ap_cache_cleanup_interval :: nat
  ap_stats :: "(acl_stat_key, u64) kvs"
  ap_rule_stats :: "rule_stats list"

record acl_clock =
  ck_instant :: nat
  ck_unix :: u64

end
