(* ===== verification/Acl.thy ===== *)
theory Acl
  imports AclTypes
begin

text \<open>
  The rule engine of the access control lists (\<^verbatim>\<open>peers/acl/processor.rs\<close>): building the rule
  vectors, matching, rate limits, connection tracking, the cache of decisions with its periodic cleanup,
  and the counters.

    \<^item> Outer \<^const>\<open>None\<close> is a panic; counters wrap around.
    \<^item> The clock readings inside one call coincide; the two readings of a cleanup tick are separate.
    \<^item> The order of an association list is the iteration order of the \<^verbatim>\<open>DashMap\<close>.
    \<^item> \<open>ref_entry\<close> is the specification: the first enabled rule that matches decides. The lemmas show that
      the cached engine decides like it, does not panic and keeps its cache bounded.
\<close>

section \<open>Text\<close>

fun to_string_cached :: "rule_id \<Rightarrow> string" where
  "to_string_cached (Rule_Priority p) = show_nat (unat p)"
| "to_string_cached (Rule_Stateful p) = ''stateful-'' @ show_nat (unat p)"
| "to_string_cached Rule_Default = ''default''"

definition matched_rule_str :: "acl_result \<Rightarrow> string option" where
  "matched_rule_str r = map_option to_string_cached (re_matched_rule r)"

fun show_action :: "action \<Rightarrow> string" where
  "show_action Action_Noop = ''Noop''"
| "show_action Action_Allow = ''Allow''"
| "show_action Action_Drop = ''Drop''"

fun to_message :: "acl_log_context \<Rightarrow> string" where
  "to_message (StatefulMatch s d) = ''Stateful match: '' @ show_ip s @ '' -> '' @ show_ip d"
| "to_message (RuleMatch s d a) =
     ''Rule match: '' @ show_ip s @ '' -> '' @ show_ip d @ '' action: '' @ show_action a"
| "to_message DefaultDrop = ''No matching rule, default drop''"
| "to_message DefaultAllow = ''No matching rule, default allow''"
| "to_message UnsupportedChainType = ''Unsupported chain type''"
| "to_message RateLimitDrop = ''Rate limit drop''"

definition parse_port_range :: "string \<Rightarrow> (u16 \<times> u16) option" where
  "parse_port_range s =
     (case split_once (CHR ''-'') s of
        Some (a, b) \<Rightarrow> do {
          start \<leftarrow> parse_u16 (str_trim a);
          e \<leftarrow> parse_u16 (str_trim b);
          Some (start, e) }
      | None \<Rightarrow> do {
          port \<leftarrow> parse_u16 (str_trim s);
          Some (port, port) })"

section \<open>Building a processor\<close>

definition convert_ip_inet_to_cidr :: "'c cidr_ops \<Rightarrow> string \<Rightarrow> 'c ip_cidr option" where
  "convert_ip_inet_to_cidr ops s = co_from_str ops s"

definition convert_to_fast_lookup_rule ::
  "'c cidr_ops \<Rightarrow> acl_rule \<Rightarrow> rule_stats list \<Rightarrow> 'c fast_rule \<times> rule_stats list" where
  "convert_to_fast_lookup_rule ops rule objs =
     (\<lparr>fr_priority = ar_priority rule,
       fr_protocol = protocol_of_i32 (ar_protocol rule),
       fr_src_ip_ranges = List.map_filter (convert_ip_inet_to_cidr ops) (ar_source_ips rule),
       fr_dst_ip_ranges = List.map_filter (convert_ip_inet_to_cidr ops) (ar_destination_ips rule),
       fr_src_port_ranges = List.map_filter parse_port_range (ar_source_ports rule),
       fr_dst_port_ranges = List.map_filter parse_port_range (ar_ports rule),
       fr_source_groups = set (ar_source_groups rule),
       fr_destination_groups = set (ar_destination_groups rule),
       fr_action = action_of_i32 (ar_action rule),
       fr_enabled = ar_enabled rule,
       fr_stateful = ar_stateful rule,
       fr_rate_limit = ar_rate_limit rule,
       fr_burst_limit = ar_burst_limit rule,
       fr_rule_stats = length objs\<rparr>,
      objs @ [\<lparr>rs_rule = Some rule, rs_stat = Some \<lparr>si_packet_count = 0, si_byte_count = 0\<rparr>\<rparr>])"

fun convert_rules ::
  "'c cidr_ops \<Rightarrow> acl_rule list \<Rightarrow> rule_stats list \<Rightarrow> 'c fast_rule list \<times> rule_stats list" where
  "convert_rules ops [] objs = ([], objs)"
| "convert_rules ops (r # rs) objs =
     (let (fr, objs) = convert_to_fast_lookup_rule ops r objs;
          (frs, objs) = convert_rules ops rs objs
      in (fr # frs, objs))"

type_synonym 'c rule_vectors = "'c fast_rule list \<times> 'c fast_rule list \<times> 'c fast_rule list"

fun build_chains ::
  "'c cidr_ops \<Rightarrow> acl_chain list \<Rightarrow> 'c rule_vectors \<Rightarrow> rule_stats list \<Rightarrow> 'c rule_vectors \<times> rule_stats list" where
  "build_chains ops [] v objs = (v, objs)"
| "build_chains ops (c # cs) (i, out, f) objs =
     (if \<not> ac_enabled c then build_chains ops cs (i, out, f) objs
      else
        let (rules, objs) = convert_rules ops (filter ar_enabled (ac_rules c)) objs;
            rules = sort_key (\<lambda>r. - int (unat (fr_priority r))) rules
        in build_chains ops cs
             (case chain_type_of_i32 (ac_chain_type c) of
                Inbound \<Rightarrow> (i @ rules, out, f)
              | Outbound \<Rightarrow> (i, out @ rules, f)
              | Forward \<Rightarrow> (i, out, f @ rules)
              | _ \<Rightarrow> (i, out, f)) objs)"

definition build_rules :: "'c cidr_ops \<Rightarrow> acl_config \<Rightarrow> 'c rule_vectors \<times> rule_stats list" where
  "build_rules ops cfg =
     (case acl_v1_of cfg of
        None \<Rightarrow> (([], [], []), [])
      | Some v1 \<Rightarrow> build_chains ops (av_chains v1) ([], [], []) [])"

definition default_action_of :: "acl_config \<Rightarrow> chain_type \<Rightarrow> action" where
  "default_action_of cfg t =
     (case acl_v1_of cfg \<bind> (\<lambda>v1. find (\<lambda>c. ac_chain_type c = chain_type_i32 t) (av_chains v1)) of
        Some c \<Rightarrow> action_of_i32 (ac_default_action c)
      | None \<Rightarrow> Action_Allow)"

definition build_default_actions :: "acl_config \<Rightarrow> action \<times> action \<times> action" where
  "build_default_actions cfg =
     (default_action_of cfg Inbound, default_action_of cfg Outbound, default_action_of cfg Forward)"

type_synonym shared_state =
  "(string, conn_track_entry) kvs \<times> (rate_limit_key, rate_limit_value) kvs \<times> (acl_stat_key, u64) kvs"

definition new_with_shared_state ::
  "'c cidr_ops \<Rightarrow> acl_config \<Rightarrow> (string, conn_track_entry) kvs option
   \<Rightarrow> (rate_limit_key, rate_limit_value) kvs option \<Rightarrow> (acl_stat_key, u64) kvs option \<Rightarrow> 'c acl_processor" where
  "new_with_shared_state ops cfg conn_track rate_limiters stats =
     (let ((i, out, f), objs) = build_rules ops cfg;
          (d_in, d_out, d_fwd) = build_default_actions cfg
      in \<lparr>ap_inbound_rules = i, ap_outbound_rules = out, ap_forward_rules = f,
          ap_default_inbound_action = d_in, ap_default_outbound_action = d_out, ap_default_forward_action = d_fwd,
          ap_default_rule_stats = length objs,
          ap_conn_track = (case conn_track of Some c \<Rightarrow> c | None \<Rightarrow> []),
          ap_rate_limiters = (case rate_limiters of Some r \<Rightarrow> r | None \<Rightarrow> []),
          ap_rule_cache = [],
          ap_cache_max_size = 1024,
          ap_cache_cleanup_interval = secs 20,
          ap_stats = (case stats of Some s \<Rightarrow> s | None \<Rightarrow> []),
          ap_rule_stats = objs @ [\<lparr>rs_rule = None, rs_stat = Some \<lparr>si_packet_count = 0, si_byte_count = 0\<rparr>\<rparr>]\<rparr>)"

definition processor_new :: "'c cidr_ops \<Rightarrow> acl_config \<Rightarrow> 'c acl_processor" where
  "processor_new ops cfg = new_with_shared_state ops cfg None None None"

definition get_shared_state :: "'c acl_processor \<Rightarrow> shared_state" where
  "get_shared_state p = (ap_conn_track p, ap_rate_limiters p, ap_stats p)"

section \<open>Matching\<close>

definition cidr_matches :: "'c cidr_ops \<Rightarrow> ip_addr \<Rightarrow> 'c ip_cidr \<Rightarrow> bool" where
  "cidr_matches ops ip cidr =
     (case (cidr, ip) of
        (Cidr_V4 c, V4 a) \<Rightarrow> co_contains_v4 ops c a
      | (Cidr_V6 c, V6 a) \<Rightarrow> co_contains_v6 ops c a
      | _ \<Rightarrow> False)"

definition port_matches :: "u16 option \<Rightarrow> (u16 \<times> u16) list \<Rightarrow> bool" where
  "port_matches port ranges =
     (case port of
        Some p \<Rightarrow> ranges = [] \<or> list_ex (\<lambda>(s, e). s \<le> p \<and> p \<le> e) ranges
      | None \<Rightarrow> True)"

definition rule_matches :: "'c cidr_ops \<Rightarrow> 'c fast_rule \<Rightarrow> packet_info \<Rightarrow> bool" where
  "rule_matches ops rule pkt =
     (if fr_protocol rule \<noteq> Protocol_Any
         \<and> protocol_i32 (fr_protocol rule) \<noteq> protocol_i32 (pi_protocol pkt) then False
      else if fr_src_ip_ranges rule \<noteq> [] \<and> \<not> list_ex (cidr_matches ops (pi_src_ip pkt)) (fr_src_ip_ranges rule)
      then False
      else if fr_dst_ip_ranges rule \<noteq> [] \<and> \<not> list_ex (cidr_matches ops (pi_dst_ip pkt)) (fr_dst_ip_ranges rule)
      then False
      else if \<not> port_matches (pi_src_port pkt) (fr_src_port_ranges rule) then False
      else if \<not> port_matches (pi_dst_port pkt) (fr_dst_port_ranges rule) then False
      else if fr_source_groups rule \<noteq> {} \<and> \<not> list_ex (\<lambda>g. g \<in> fr_source_groups rule) (pi_src_groups pkt)
      then False
      else if fr_destination_groups rule \<noteq> {}
              \<and> \<not> list_ex (\<lambda>g. g \<in> fr_destination_groups rule) (pi_dst_groups pkt) then False
      else True)"

section \<open>Counters, connections and rate limits\<close>

fun stat_from_chain_and_action :: "chain_type \<Rightarrow> acl_stat_type \<Rightarrow> acl_stat_key" where
  "stat_from_chain_and_action Inbound Stat_Total = InboundPacketsTotal"
| "stat_from_chain_and_action Inbound Stat_Allowed = InboundPacketsAllowed"
| "stat_from_chain_and_action Inbound Stat_Dropped = InboundPacketsDropped"
| "stat_from_chain_and_action Inbound Stat_Noop = InboundPacketsNoop"
| "stat_from_chain_and_action Outbound Stat_Total = OutboundPacketsTotal"
| "stat_from_chain_and_action Outbound Stat_Allowed = OutboundPacketsAllowed"
| "stat_from_chain_and_action Outbound Stat_Dropped = OutboundPacketsDropped"
| "stat_from_chain_and_action Outbound Stat_Noop = OutboundPacketsNoop"
| "stat_from_chain_and_action Forward Stat_Total = ForwardPacketsTotal"
| "stat_from_chain_and_action Forward Stat_Allowed = ForwardPacketsAllowed"
| "stat_from_chain_and_action Forward Stat_Dropped = ForwardPacketsDropped"
| "stat_from_chain_and_action Forward Stat_Noop = ForwardPacketsNoop"
| "stat_from_chain_and_action UnspecifiedChain Stat_Total = UnknownPacketsTotal"
| "stat_from_chain_and_action UnspecifiedChain Stat_Allowed = UnknownPacketsAllowed"
| "stat_from_chain_and_action UnspecifiedChain Stat_Dropped = UnknownPacketsDropped"
| "stat_from_chain_and_action UnspecifiedChain Stat_Noop = UnknownPacketsNoop"

definition increment_stat :: "acl_stat_key \<Rightarrow> 'c acl_processor \<Rightarrow> 'c acl_processor" where
  "increment_stat k p =
     p\<lparr>ap_stats := kv_put k (case kv_get (ap_stats p) k of Some c \<Rightarrow> c + 1 | None \<Rightarrow> 1) (ap_stats p)\<rparr>"

fun stat_as_str :: "acl_stat_key \<Rightarrow> string" where
  "stat_as_str CacheHits = ''CacheHits''"
| "stat_as_str CacheSize = ''CacheSize''"
| "stat_as_str CacheMaxSize = ''CacheMaxSize''"
| "stat_as_str RuleMatches = ''RuleMatches''"
| "stat_as_str DefaultAllows = ''DefaultAllows''"
| "stat_as_str DefaultDrops = ''DefaultDrops''"
| "stat_as_str PacketsTotal = ''PacketsTotal''"
| "stat_as_str PacketsAllowed = ''PacketsAllowed''"
| "stat_as_str PacketsDropped = ''PacketsDropped''"
| "stat_as_str PacketsNoop = ''PacketsNoop''"
| "stat_as_str InboundPacketsTotal = ''InboundPacketsTotal''"
| "stat_as_str InboundPacketsAllowed = ''InboundPacketsAllowed''"
| "stat_as_str InboundPacketsDropped = ''InboundPacketsDropped''"
| "stat_as_str InboundPacketsNoop = ''InboundPacketsNoop''"
| "stat_as_str OutboundPacketsTotal = ''OutboundPacketsTotal''"
| "stat_as_str OutboundPacketsAllowed = ''OutboundPacketsAllowed''"
| "stat_as_str OutboundPacketsDropped = ''OutboundPacketsDropped''"
| "stat_as_str OutboundPacketsNoop = ''OutboundPacketsNoop''"
| "stat_as_str ForwardPacketsTotal = ''ForwardPacketsTotal''"
| "stat_as_str ForwardPacketsAllowed = ''ForwardPacketsAllowed''"
| "stat_as_str ForwardPacketsDropped = ''ForwardPacketsDropped''"
| "stat_as_str ForwardPacketsNoop = ''ForwardPacketsNoop''"
| "stat_as_str UnknownPacketsTotal = ''UnknownPacketsTotal''"
| "stat_as_str UnknownPacketsAllowed = ''UnknownPacketsAllowed''"
| "stat_as_str UnknownPacketsDropped = ''UnknownPacketsDropped''"
| "stat_as_str UnknownPacketsNoop = ''UnknownPacketsNoop''"

text \<open>The statistics of a processor, by the name of the key; the cache sizes are added to the stored counters.\<close>

definition get_stats :: "'c acl_processor \<Rightarrow> (string, u64) kvs" where
  "get_stats p =
     kv_put (stat_as_str CacheMaxSize) (word_of_nat (ap_cache_max_size p))
       (kv_put (stat_as_str CacheSize) (word_of_nat (length (ap_rule_cache p)))
         (map (\<lambda>(k, v). (stat_as_str k, v)) (ap_stats p)))"

definition get_rules_stats :: "'c acl_processor \<Rightarrow> rule_stats list" where
  "get_rules_stats p =
     map (\<lambda>r. ap_rule_stats p ! fr_rule_stats r) (ap_inbound_rules p @ ap_outbound_rules p @ ap_forward_rules p)"

fun inc_stats :: "u64 \<Rightarrow> nat list \<Rightarrow> rule_stats list \<Rightarrow> rule_stats list option" where
  "inc_stats sz [] objs = Some objs"
| "inc_stats sz (i # js) objs = do {
     obj \<leftarrow> nth_opt objs i;
     s \<leftarrow> rs_stat obj;
     inc_stats sz js
       (objs[i := obj\<lparr>rs_stat := Some \<lparr>si_packet_count = si_packet_count s + 1,
                                          si_byte_count = si_byte_count s + sz\<rparr>\<rparr>]) }"

definition inc_cache_entry_stats ::
  "acl_cache_entry \<Rightarrow> packet_info \<Rightarrow> 'c acl_processor \<Rightarrow> 'c acl_processor option" where
  "inc_cache_entry_stats e pkt p = do {
     objs \<leftarrow> inc_stats (pi_packet_size pkt) (ce_rule_stats_vec e) (ap_rule_stats p);
     Some (p\<lparr>ap_rule_stats := objs\<rparr>) }"

definition unwrap_port :: "u16 option \<Rightarrow> u16" where
  "unwrap_port port = (case port of Some n \<Rightarrow> n | None \<Rightarrow> 0)"

definition conn_track_key :: "packet_info \<Rightarrow> string" where
  "conn_track_key pkt =
     show_ip (pi_src_ip pkt) @ '':'' @ show_nat (unat (unwrap_port (pi_src_port pkt))) @ ''->''
     @ show_ip (pi_dst_ip pkt) @ '':'' @ show_nat (unat (unwrap_port (pi_dst_port pkt)))"

definition check_connection_state ::
  "acl_clock \<Rightarrow> string \<Rightarrow> packet_info \<Rightarrow> 'c acl_processor \<Rightarrow> 'c acl_processor" where
  "check_connection_state clk key pkt p =
     p\<lparr>ap_conn_track := kv_put key
         (case kv_get (ap_conn_track p) key of
            Some x \<Rightarrow> x\<lparr>ct_last_seen := ck_unix clk, ct_packet_count := ct_packet_count x + 1,
                        ct_byte_count := ct_byte_count x + pi_packet_size pkt,
                        ct_state := conn_state_i32 Conn_Established\<rparr>
          | None \<Rightarrow> \<lparr>ct_src_addr = \<lparr>sa_ip = pi_src_ip pkt, sa_port = unwrap_port (pi_src_port pkt)\<rparr>,
                     ct_dst_addr = \<lparr>sa_ip = pi_dst_ip pkt, sa_port = unwrap_port (pi_dst_port pkt)\<rparr>,
                     ct_protocol = protocol_i32 (pi_protocol pkt), ct_state = conn_state_i32 Conn_New,
                     ct_created_at = ck_unix clk, ct_last_seen = ck_unix clk, ct_packet_count = 1,
                     ct_byte_count = pi_packet_size pkt\<rparr>)
         (ap_conn_track p)\<rparr>"

definition check_rate_limit ::
  "acl_clock \<Rightarrow> rate_limit_key \<Rightarrow> u32 \<Rightarrow> u32 \<Rightarrow> bool \<Rightarrow> 'c acl_processor \<Rightarrow> (bool \<times> 'c acl_processor) option" where
  "check_rate_limit clk key rate burst allow_create p =
     (if rate = 0 then Some (True, p)
      else do {
        v \<leftarrow> (case kv_get (ap_rate_limiters p) key of
               Some v \<Rightarrow> Some v
             | None \<Rightarrow>
                 if \<not> allow_create then None
                 else Some \<lparr>rv_token_bucket = bucket_new_from_cfg (ck_instant clk)
                                \<lparr>capacity = unat burst, fill_rate = unat rate\<rparr>,
                            rv_last_update = ck_instant clk\<rparr>);
        let (ok, b) = try_consume 1 (ck_instant clk) (rv_token_bucket v);
        Some (ok, p\<lparr>ap_rate_limiters :=
                kv_put key \<lparr>rv_token_bucket = b, rv_last_update = ck_instant clk\<rparr> (ap_rate_limiters p)\<rparr>) })"

section \<open>The cache and the packet path\<close>

definition from_packet_info :: "packet_info \<Rightarrow> chain_type \<Rightarrow> acl_cache_key" where
  "from_packet_info pkt t =
     \<lparr>ck_chain_type = t, ck_protocol = pi_protocol pkt, ck_src_ip = pi_src_ip pkt, ck_dst_ip = pi_dst_ip pkt,
      ck_src_port = unwrap_port (pi_src_port pkt), ck_dst_port = unwrap_port (pi_dst_port pkt),
      ck_src_groups = pi_src_groups pkt, ck_dst_groups = pi_dst_groups pkt\<rparr>"

definition cleanup_cache ::
  "nat \<Rightarrow> nat \<Rightarrow> (acl_cache_key, acl_cache_entry) kvs \<Rightarrow> (acl_cache_key, acl_cache_entry) kvs" where
  "cleanup_cache now max_size cache =
     (let expired_timepoint = (if secs 15 \<le> now then now - secs 15 else now);
          cache = kv_retain (\<lambda>_ e. expired_timepoint < ce_last_access e) cache;
          current_size = length cache
      in if current_size \<le> max_size then cache
         else
           let entries = sort_key snd (map (\<lambda>(k, e). (k, ce_last_access e)) cache);
               to_remove = current_size - max_size + max_size div 5
           in fold kv_remove (map fst (take to_remove entries)) cache)"

definition cache_result :: "nat \<Rightarrow> acl_cache_key \<Rightarrow> acl_cache_entry \<Rightarrow> 'c acl_processor \<Rightarrow> 'c acl_processor" where
  "cache_result now key e p =
     (let p = p\<lparr>ap_rule_cache := kv_put key e (ap_rule_cache p)\<rparr>
      in if ap_cache_max_size p * 2 < length (ap_rule_cache p)
         then p\<lparr>ap_rule_cache := cleanup_cache now (ap_cache_max_size p) (ap_rule_cache p)\<rparr>
         else p)"

text \<open>The body of the cleanup task: one reading of the clock for the cache, a later one for the buckets.\<close>

definition cache_cleanup_tick :: "nat \<Rightarrow> nat \<Rightarrow> 'c acl_processor \<Rightarrow> 'c acl_processor" where
  "cache_cleanup_tick now now' p =
     p\<lparr>ap_rule_cache := cleanup_cache now (ap_cache_max_size p) (ap_rule_cache p),
       ap_rate_limiters := kv_retain (\<lambda>_ v. now' - rv_last_update v < ap_cache_cleanup_interval p)
         (ap_rate_limiters p)\<rparr>"

definition cleanup_expired_connections ::
  "u64 \<Rightarrow> u64 \<Rightarrow> (string, conn_track_entry) kvs \<Rightarrow> (string, conn_track_entry) kvs" where
  "cleanup_expired_connections current timeout_secs conns =
     fold kv_remove (map fst (filter (\<lambda>(_, e). timeout_secs < current - ct_last_seen e) conns)) conns"

definition conn_cleanup_tick :: "u64 \<Rightarrow> 'c acl_processor \<Rightarrow> 'c acl_processor" where
  "conn_cleanup_tick current p =
     p\<lparr>ap_conn_track := cleanup_expired_connections current 60 (ap_conn_track p)\<rparr>"

fun check_rate_limits ::
  "acl_clock \<Rightarrow> rate_limit_key list \<Rightarrow> 'c acl_processor \<Rightarrow> (bool \<times> 'c acl_processor) option" where
  "check_rate_limits clk [] p = Some (True, p)"
| "check_rate_limits clk (k # ks) p =
     (case check_rate_limit clk k 1 1 False p of
        None \<Rightarrow> None
      | Some (ok, p) \<Rightarrow> if ok then check_rate_limits clk ks p else Some (False, p))"

definition process_packet_with_cache_entry ::
  "acl_clock \<Rightarrow> packet_info \<Rightarrow> acl_cache_entry \<Rightarrow> 'c acl_processor \<Rightarrow> (acl_result \<times> 'c acl_processor) option" where
  "process_packet_with_cache_entry clk pkt e p =
     (case check_rate_limits clk (ce_rate_limit_keys e) p of
        None \<Rightarrow> None
      | Some (False, p) \<Rightarrow>
          Some (\<lparr>re_action = Action_Drop, re_matched_rule = Some (ce_matched_rule e), re_should_log = False,
                 re_log_context = Some RateLimitDrop\<rparr>, p)
      | Some (True, p) \<Rightarrow>
          let p = (case ce_conn_track_key e of Some k \<Rightarrow> check_connection_state clk k pkt p | None \<Rightarrow> p)
          in do {
            p \<leftarrow> inc_cache_entry_stats e pkt p;
            r \<leftarrow> ce_acl_result e;
            Some (r, p) })"

definition default_action :: "chain_type \<Rightarrow> 'c acl_processor \<Rightarrow> action" where
  "default_action t p =
     (case t of
        Inbound \<Rightarrow> ap_default_inbound_action p
      | Outbound \<Rightarrow> ap_default_outbound_action p
      | Forward \<Rightarrow> ap_default_forward_action p
      | _ \<Rightarrow> Action_Allow)"

definition chain_rules :: "chain_type \<Rightarrow> 'c acl_processor \<Rightarrow> 'c fast_rule list option" where
  "chain_rules t p =
     (case t of
        Inbound \<Rightarrow> Some (ap_inbound_rules p)
      | Outbound \<Rightarrow> Some (ap_outbound_rules p)
      | Forward \<Rightarrow> Some (ap_forward_rules p)
      | _ \<Rightarrow> None)"

text \<open>What a matching rule writes into the cache entry, rate limit keys apart.\<close>

definition fill_entry :: "'c fast_rule \<Rightarrow> packet_info \<Rightarrow> acl_cache_entry \<Rightarrow> acl_cache_entry" where
  "fill_entry rule pkt e =
     (if fr_stateful rule \<and> fr_action rule = Action_Allow then
        e\<lparr>ce_rule_stats_vec := ce_rule_stats_vec e @ [fr_rule_stats rule],
          ce_matched_rule := Rule_Stateful (fr_priority rule),
          ce_conn_track_key := Some (conn_track_key pkt),
          ce_acl_result := Some
            \<lparr>re_action = Action_Allow, re_matched_rule = Some (Rule_Stateful (fr_priority rule)),
             re_should_log = False, re_log_context = Some (StatefulMatch (pi_src_ip pkt) (pi_dst_ip pkt))\<rparr>\<rparr>
      else
        e\<lparr>ce_rule_stats_vec := ce_rule_stats_vec e @ [fr_rule_stats rule],
          ce_matched_rule := Rule_Priority (fr_priority rule),
          ce_acl_result := Some
            \<lparr>re_action = fr_action rule, re_matched_rule = Some (Rule_Priority (fr_priority rule)),
             re_should_log = False,
             re_log_context = Some (RuleMatch (pi_src_ip pkt) (pi_dst_ip pkt) (fr_action rule))\<rparr>\<rparr>)"

text \<open>The limit of a matching rule: whether the packet may go on, and the entry with the key of the limit.\<close>

definition limit_entry :: "chain_type \<Rightarrow> 'c fast_rule \<Rightarrow> acl_cache_entry \<Rightarrow> acl_cache_entry" where
  "limit_entry t rule e =
     (if 0 < fr_rate_limit rule then
        e\<lparr>ce_rate_limit_keys := ce_rate_limit_keys e
            @ [\<lparr>rl_chain_type = t, rl_rule_priority = fr_priority rule\<rparr>],
          ce_rule_stats_vec := ce_rule_stats_vec e @ [fr_rule_stats rule]\<rparr>
      else e)"

definition check_rule_limit ::
  "acl_clock \<Rightarrow> chain_type \<Rightarrow> 'c fast_rule \<Rightarrow> 'c acl_processor \<Rightarrow> (bool \<times> 'c acl_processor) option" where
  "check_rule_limit clk t rule p =
     (if 0 < fr_rate_limit rule then
        check_rate_limit clk \<lparr>rl_chain_type = t, rl_rule_priority = fr_priority rule\<rparr>
          (fr_rate_limit rule) (fr_burst_limit rule) True p
      else Some (True, p))"

definition finish_entry ::
  "acl_clock \<Rightarrow> packet_info \<Rightarrow> acl_cache_key \<Rightarrow> acl_cache_entry \<Rightarrow> 'c acl_processor
   \<Rightarrow> (acl_result \<times> 'c acl_processor) option" where
  "finish_entry clk pkt key e p = do {
     p \<leftarrow> inc_cache_entry_stats e pkt p;
     r \<leftarrow> ce_acl_result e;
     Some (r, cache_result (ck_instant clk) key e p) }"

definition apply_default ::
  "acl_clock \<Rightarrow> packet_info \<Rightarrow> chain_type \<Rightarrow> acl_cache_key \<Rightarrow> acl_cache_entry \<Rightarrow> 'c acl_processor
   \<Rightarrow> (acl_result \<times> 'c acl_processor) option" where
  "apply_default clk pkt t key e p =
     (let a = default_action t p;
          p = increment_stat (if a = Action_Drop then DefaultDrops else DefaultAllows) p;
          e = e\<lparr>ce_rule_stats_vec := ce_rule_stats_vec e @ [ap_default_rule_stats p],
                ce_matched_rule := Rule_Default,
                ce_acl_result := Some
                  \<lparr>re_action = a, re_matched_rule = Some Rule_Default, re_should_log = False,
                   re_log_context = Some (if a = Action_Drop then DefaultDrop else DefaultAllow)\<rparr>\<rparr>
      in finish_entry clk pkt key e p)"

fun process_rules ::
  "'c cidr_ops \<Rightarrow> acl_clock \<Rightarrow> packet_info \<Rightarrow> chain_type \<Rightarrow> acl_cache_key \<Rightarrow> acl_cache_entry
   \<Rightarrow> 'c fast_rule list \<Rightarrow> 'c acl_processor \<Rightarrow> (acl_result \<times> 'c acl_processor) option" where
  "process_rules ops clk pkt t key e [] p = apply_default clk pkt t key e p"
| "process_rules ops clk pkt t key e (rule # rules) p =
     (if \<not> fr_enabled rule \<or> \<not> rule_matches ops rule pkt
      then process_rules ops clk pkt t key e rules p
      else case check_rule_limit clk t rule p of
          None \<Rightarrow> None
        | Some (False, p) \<Rightarrow>
            Some (\<lparr>re_action = Action_Drop, re_matched_rule = Some (Rule_Priority (fr_priority rule)),
                   re_should_log = False, re_log_context = Some RateLimitDrop\<rparr>, p)
        | Some (True, p) \<Rightarrow>
            let p = (if fr_stateful rule \<and> fr_action rule = Action_Allow
                     then check_connection_state clk (conn_track_key pkt) pkt p else p);
                e = fill_entry rule pkt (limit_entry t rule e)
            in finish_entry clk pkt key e (increment_stat RuleMatches p))"

definition empty_entry :: "nat \<Rightarrow> acl_cache_entry" where
  "empty_entry now =
     \<lparr>ce_matched_rule = Rule_Default, ce_last_access = now, ce_conn_track_key = None,
      ce_rate_limit_keys = [], ce_acl_result = None, ce_rule_stats_vec = []\<rparr>"

definition process_packet ::
  "'c cidr_ops \<Rightarrow> acl_clock \<Rightarrow> packet_info \<Rightarrow> chain_type \<Rightarrow> 'c acl_processor
   \<Rightarrow> (acl_result \<times> 'c acl_processor) option" where
  "process_packet ops clk pkt t p =
     (let key = from_packet_info pkt t in
      case kv_get (ap_rule_cache p) key of
        Some e \<Rightarrow>
          let e = e\<lparr>ce_last_access := ck_instant clk\<rparr>;
              p = increment_stat CacheHits (p\<lparr>ap_rule_cache := kv_put key e (ap_rule_cache p)\<rparr>)
          in process_packet_with_cache_entry clk pkt e p
      | None \<Rightarrow>
          (case chain_rules t p of
             None \<Rightarrow> Some (\<lparr>re_action = Action_Drop, re_matched_rule = Some Rule_Default,
                            re_should_log = False, re_log_context = Some UnsupportedChainType\<rparr>, p)
           | Some rules \<Rightarrow>
               process_rules ops clk pkt t key (empty_entry (ck_instant clk)) rules p))"

section \<open>Specification: the first match decides\<close>

definition first_match :: "'c cidr_ops \<Rightarrow> 'c fast_rule list \<Rightarrow> packet_info \<Rightarrow> 'c fast_rule option" where
  "first_match ops rules pkt = find (\<lambda>r. fr_enabled r \<and> rule_matches ops r pkt) rules"

definition acl_decision :: "'c cidr_ops \<Rightarrow> 'c acl_processor \<Rightarrow> chain_type \<Rightarrow> packet_info \<Rightarrow> acl_result" where
  "acl_decision ops p t pkt =
     (let result = (\<lambda>a m c. \<lparr>re_action = a, re_matched_rule = Some m, re_should_log = False, re_log_context = Some c\<rparr>)
      in case chain_rules t p of
           None \<Rightarrow> result Action_Drop Rule_Default UnsupportedChainType
         | Some rules \<Rightarrow>
             (case first_match ops rules pkt of
                None \<Rightarrow>
                  let a = default_action t p
                  in result a Rule_Default (if a = Action_Drop then DefaultDrop else DefaultAllow)
              | Some r \<Rightarrow>
                  if fr_stateful r \<and> fr_action r = Action_Allow
                  then result Action_Allow (Rule_Stateful (fr_priority r)) (StatefulMatch (pi_src_ip pkt) (pi_dst_ip pkt))
                  else result (fr_action r) (Rule_Priority (fr_priority r))
                         (RuleMatch (pi_src_ip pkt) (pi_dst_ip pkt) (fr_action r))))"

definition rate_limited :: "'c cidr_ops \<Rightarrow> 'c acl_processor \<Rightarrow> chain_type \<Rightarrow> packet_info \<Rightarrow> bool" where
  "rate_limited ops p t pkt =
     (case chain_rules t p \<bind> (\<lambda>rules. first_match ops rules pkt) of
        None \<Rightarrow> False | Some r \<Rightarrow> 0 < fr_rate_limit r)"

definition limit_dropped :: "acl_result \<Rightarrow> bool" where
  "limit_dropped r \<longleftrightarrow> re_action r = Action_Drop \<and> re_log_context r = Some RateLimitDrop"

text \<open>The entry that the packet path builds for a packet.\<close>

definition ref_entry :: "'c cidr_ops \<Rightarrow> 'c acl_processor \<Rightarrow> chain_type \<Rightarrow> packet_info \<Rightarrow> nat \<Rightarrow> acl_cache_entry" where
  "ref_entry ops p t pkt now =
     (case chain_rules t p \<bind> (\<lambda>rules. first_match ops rules pkt) of
        Some r \<Rightarrow> fill_entry r pkt (limit_entry t r (empty_entry now))
      | None \<Rightarrow>
          (empty_entry now)\<lparr>ce_rule_stats_vec := [ap_default_rule_stats p],
            ce_acl_result := Some (acl_decision ops p t pkt)\<rparr>)"

lemma process_rules_default:
  "first_match ops rules pkt = None \<Longrightarrow>
    process_rules ops clk pkt t key e rules p = apply_default clk pkt t key e p"
  by (induction rules) (auto simp: first_match_def split: if_splits)

lemma process_rules_match:
  "first_match ops rules pkt = Some r \<Longrightarrow>
    process_rules ops clk pkt t key e rules p =
      (case check_rule_limit clk t r p of
          None \<Rightarrow> None
        | Some (False, p) \<Rightarrow>
            Some (\<lparr>re_action = Action_Drop, re_matched_rule = Some (Rule_Priority (fr_priority r)),
                   re_should_log = False, re_log_context = Some RateLimitDrop\<rparr>, p)
        | Some (True, p) \<Rightarrow>
            let p = (if fr_stateful r \<and> fr_action r = Action_Allow
                     then check_connection_state clk (conn_track_key pkt) pkt p else p)
            in finish_entry clk pkt key (fill_entry r pkt (limit_entry t r e)) (increment_stat RuleMatches p))"
  by (induction rules) (auto simp: first_match_def Let_def split: if_splits option.splits bool.splits)

text \<open>What stays fixed for the life of a processor.\<close>

definition config_of ::
  "'c acl_processor \<Rightarrow> 'c fast_rule list list \<times> action list \<times> nat \<times> nat \<times> nat" where
  "config_of p =
     ([ap_inbound_rules p, ap_outbound_rules p, ap_forward_rules p],
      [ap_default_inbound_action p, ap_default_outbound_action p, ap_default_forward_action p],
      ap_default_rule_stats p, ap_cache_max_size p, ap_cache_cleanup_interval p)"

lemma config_update [simp]:
  "config_of (p\<lparr>ap_conn_track := c\<rparr>) = config_of p" "config_of (p\<lparr>ap_rate_limiters := l\<rparr>) = config_of p"
  "config_of (p\<lparr>ap_rule_cache := r\<rparr>) = config_of p" "config_of (p\<lparr>ap_stats := s\<rparr>) = config_of p"
  "config_of (p\<lparr>ap_rule_stats := o'\<rparr>) = config_of p"
  by (simp_all add: config_of_def)

lemma config_determines:
  assumes "config_of p' = config_of p"
  shows "chain_rules t p' = chain_rules t p" "default_action t p' = default_action t p"
    "ap_default_rule_stats p' = ap_default_rule_stats p" "ap_cache_max_size p' = ap_cache_max_size p"
    "ap_cache_cleanup_interval p' = ap_cache_cleanup_interval p"
    "acl_decision ops p' t pkt = acl_decision ops p t pkt" "rate_limited ops p' t pkt = rate_limited ops p t pkt"
    "ref_entry ops p' t pkt now = ref_entry ops p t pkt now"
proof -
  show cr: "chain_rules t p' = chain_rules t p" and da: "default_action t p' = default_action t p"
    and ds: "ap_default_rule_stats p' = ap_default_rule_stats p"
    and "ap_cache_max_size p' = ap_cache_max_size p"
    and "ap_cache_cleanup_interval p' = ap_cache_cleanup_interval p"
    using assms by (auto simp: config_of_def chain_rules_def default_action_def split: chain_type.splits)
  show ad: "acl_decision ops p' t pkt = acl_decision ops p t pkt"
    unfolding acl_decision_def cr da ..
  show "rate_limited ops p' t pkt = rate_limited ops p t pkt"
    unfolding rate_limited_def cr ..
  show "ref_entry ops p' t pkt now = ref_entry ops p t pkt now"
    unfolding ref_entry_def cr ds ad ..
qed

lemma ref_entry_simps [simp]:
  "ce_last_access (ref_entry ops p t pkt now) = now"
  "(ref_entry ops p t pkt now)\<lparr>ce_last_access := now'\<rparr> = ref_entry ops p t pkt now'"
  by (simp_all add: ref_entry_def fill_entry_def limit_entry_def empty_entry_def split: option.splits)

lemma ref_entry_result:
  "chain_rules t p \<noteq> None \<Longrightarrow> ce_acl_result (ref_entry ops p t pkt now) = Some (acl_decision ops p t pkt)"
  by (auto simp: ref_entry_def fill_entry_def acl_decision_def Let_def split: option.splits)

lemma ref_entry_keys:
  "ce_rate_limit_keys (ref_entry ops p t pkt now) = [] \<or>
   rate_limited ops p t pkt \<and>
   (\<exists>k. ce_rate_limit_keys (ref_entry ops p t pkt now) = [k])"
  by (auto simp: ref_entry_def fill_entry_def limit_entry_def empty_entry_def rate_limited_def
      split: option.splits)

section \<open>The invariant of a processor\<close>

definition heap_ok :: "'c acl_processor \<Rightarrow> bool" where
  "heap_ok p \<longleftrightarrow>
     (\<forall>s \<in> set (ap_rule_stats p). rs_stat s \<noteq> None)
     \<and> ap_default_rule_stats p < length (ap_rule_stats p)
     \<and> (\<forall>t rules r. chain_rules t p = Some rules \<longrightarrow> r \<in> set rules \<longrightarrow> fr_rule_stats r < length (ap_rule_stats p))"

definition entry_ok ::
  "(packet_info \<Rightarrow> bool) \<Rightarrow> 'c cidr_ops \<Rightarrow> nat \<Rightarrow> 'c acl_processor \<Rightarrow> acl_cache_key \<Rightarrow> acl_cache_entry \<Rightarrow> bool" where
  "entry_ok Q ops now p key e \<longleftrightarrow>
     (\<exists>pkt t. Q pkt \<and> chain_rules t p \<noteq> None \<and> key = from_packet_info pkt t
        \<and> e = ref_entry ops p t pkt (ce_last_access e))
     \<and> ce_last_access e \<le> now
     \<and> (\<forall>k \<in> set (ce_rate_limit_keys e).
          \<exists>v. kv_get (ap_rate_limiters p) k = Some v \<and> ce_last_access e \<le> rv_last_update v)"

text \<open>
  Every cached entry is the one the rules give for some packet with its key, and the bucket of its limit
  was used at least as recently as the entry, so that the cleanup never takes the bucket first.
\<close>

definition acl_inv :: "(packet_info \<Rightarrow> bool) \<Rightarrow> 'c cidr_ops \<Rightarrow> nat \<Rightarrow> 'c acl_processor \<Rightarrow> bool" where
  "acl_inv Q ops now p \<longleftrightarrow>
     kv_ok (ap_rule_cache p) \<and> kv_ok (ap_rate_limiters p) \<and> heap_ok p
     \<and> ap_cache_cleanup_interval p = secs 20
     \<and> length (ap_rule_cache p) \<le> 2 * ap_cache_max_size p
     \<and> (\<forall>k e. kv_get (ap_rule_cache p) k = Some e \<longrightarrow> entry_ok Q ops now p k e)"

definition limits_go :: "nat \<Rightarrow> (rate_limit_key, rate_limit_value) kvs \<Rightarrow> (rate_limit_key, rate_limit_value) kvs \<Rightarrow> bool" where
  "limits_go now l l' \<longleftrightarrow>
     (\<forall>k v. kv_get l k = Some v \<longrightarrow> (\<exists>v'. kv_get l' k = Some v' \<and> (v' = v \<or> rv_last_update v' = now)))"

lemma limits_go_refl [simp]: "limits_go now l l"
  by (simp add: limits_go_def)

lemma entry_ok_mono:
  assumes "entry_ok Q ops now p key e" "now \<le> now'" "config_of p' = config_of p"
    "limits_go now' (ap_rate_limiters p) (ap_rate_limiters p')"
  shows "entry_ok Q ops now' p' key e"
proof -
  have "\<exists>v. kv_get (ap_rate_limiters p') k = Some v \<and> ce_last_access e \<le> rv_last_update v"
    if "k \<in> set (ce_rate_limit_keys e)" for k
    using assms that unfolding entry_ok_def limits_go_def by (metis le_trans)
  then show ?thesis
    using assms(1,2) unfolding entry_ok_def config_determines [OF assms(3)] by auto
qed

lemma acl_inv_step:
  assumes "acl_inv Q ops now p" "now \<le> now'" "config_of p' = config_of p"
    and "limits_go now' (ap_rate_limiters p) (ap_rate_limiters p')" "kv_ok (ap_rate_limiters p')"
    and "length (ap_rule_stats p') = length (ap_rule_stats p)" "\<forall>s \<in> set (ap_rule_stats p'). rs_stat s \<noteq> None"
    and "kv_ok (ap_rule_cache p')" "length (ap_rule_cache p') \<le> 2 * ap_cache_max_size p"
    and "\<And>k e. kv_get (ap_rule_cache p') k = Some e \<Longrightarrow>
           kv_get (ap_rule_cache p) k = Some e \<or> entry_ok Q ops now' p' k e"
  shows "acl_inv Q ops now' p'"
proof -
  have "entry_ok Q ops now' p' k e" if "kv_get (ap_rule_cache p') k = Some e" for k e
    using assms(10) [OF that] entry_ok_mono [OF _ assms(2,3,4), of Q ops k e] assms(1)
    unfolding acl_inv_def by blast
  moreover have "heap_ok p'"
    using assms(1,6,7) unfolding acl_inv_def heap_ok_def config_determines [OF assms(3)] by simp
  ultimately show ?thesis
    using assms unfolding acl_inv_def config_determines [OF assms(3)] by simp
qed

section \<open>Every operation keeps the invariant\<close>

lemma inc_stats_total:
  assumes "\<forall>s \<in> set objs. rs_stat s \<noteq> None" "\<forall>i \<in> set js. i < length objs"
  shows "\<exists>objs'. inc_stats sz js objs = Some objs' \<and> length objs' = length objs
           \<and> (\<forall>s \<in> set objs'. rs_stat s \<noteq> None)"
  using assms
proof (induction js arbitrary: objs)
  case (Cons i js)
  then obtain s where s: "rs_stat (objs ! i) = Some s" "i < length objs"
    by (metis list.set_intros(1) not_Some_eq nth_mem)
  let ?objs = "objs[i := (objs ! i)\<lparr>rs_stat := Some \<lparr>si_packet_count = si_packet_count s + 1,
      si_byte_count = si_byte_count s + sz\<rparr>\<rparr>]"
  have "\<forall>s \<in> set ?objs. rs_stat s \<noteq> None"
    using Cons.prems(1) by (auto dest!: subsetD [OF set_update_subset_insert])
  from Cons.IH [OF this] Cons.prems(2) s show ?case by (simp add: nth_opt_def)
qed simp

lemma ref_entry_stats:
  assumes "heap_ok p" "chain_rules t p \<noteq> None"
  shows "\<forall>i \<in> set (ce_rule_stats_vec (ref_entry ops p t pkt now)). i < length (ap_rule_stats p)"
  using assms
  by (auto simp: heap_ok_def ref_entry_def fill_entry_def limit_entry_def empty_entry_def first_match_def
      find_Some_iff split: option.splits)

lemma inc_entry_total:
  assumes "heap_ok p" "chain_rules t p \<noteq> None" "ap_rule_stats p' = ap_rule_stats p"
  shows "\<exists>objs. inc_cache_entry_stats (ref_entry ops p t pkt now) pkt' p' = Some (p'\<lparr>ap_rule_stats := objs\<rparr>)
           \<and> length objs = length (ap_rule_stats p) \<and> (\<forall>s \<in> set objs. rs_stat s \<noteq> None)"
  using inc_stats_total [OF _ ref_entry_stats [OF assms(1,2)], of "pi_packet_size pkt'" ops pkt now] assms
  by (auto simp: inc_cache_entry_stats_def heap_ok_def)

lemma check_rate_limit_total:
  assumes "kv_ok (ap_rate_limiters p)" "rate \<noteq> 0"
    "allow_create \<or> kv_get (ap_rate_limiters p) key \<noteq> None"
  shows "\<exists>ok l v. check_rate_limit clk key rate burst allow_create p = Some (ok, p\<lparr>ap_rate_limiters := l\<rparr>)
           \<and> kv_ok l \<and> kv_get l key = Some v \<and> rv_last_update v = ck_instant clk
           \<and> limits_go (ck_instant clk) (ap_rate_limiters p) l"
proof -
  obtain v where v: "(case kv_get (ap_rate_limiters p) key of
        Some v \<Rightarrow> Some v
      | None \<Rightarrow>
          if \<not> allow_create then None
          else Some \<lparr>rv_token_bucket = bucket_new_from_cfg (ck_instant clk)
                         \<lparr>capacity = unat burst, fill_rate = unat rate\<rparr>,
                     rv_last_update = ck_instant clk\<rparr>) = Some v"
    using assms(3) by (cases "kv_get (ap_rate_limiters p) key") auto
  obtain ok b where "try_consume 1 (ck_instant clk) (rv_token_bucket v) = (ok, b)" by fastforce
  with v assms(1,2) show ?thesis
    by (auto simp: check_rate_limit_def limits_go_def)
qed

lemma check_rule_limit_total:
  assumes "kv_ok (ap_rate_limiters p)"
  shows "\<exists>ok l. check_rule_limit clk t r p = Some (ok, p\<lparr>ap_rate_limiters := l\<rparr>)
           \<and> kv_ok l \<and> limits_go (ck_instant clk) (ap_rate_limiters p) l
           \<and> (ok \<or> 0 < fr_rate_limit r)
           \<and> (0 < fr_rate_limit r \<longrightarrow> (\<exists>v. kv_get l \<lparr>rl_chain_type = t, rl_rule_priority = fr_priority r\<rparr> = Some v
                \<and> rv_last_update v = ck_instant clk))"
proof (cases "0 < fr_rate_limit r")
  case True
  then have "fr_rate_limit r \<noteq> 0" by auto
  from check_rate_limit_total [OF assms this, of True "\<lparr>rl_chain_type = t, rl_rule_priority = fr_priority r\<rparr>"
      clk "fr_burst_limit r"]
  obtain ok l v where "check_rate_limit clk \<lparr>rl_chain_type = t, rl_rule_priority = fr_priority r\<rparr>
      (fr_rate_limit r) (fr_burst_limit r) True p = Some (ok, p\<lparr>ap_rate_limiters := l\<rparr>)"
    "kv_ok l" "kv_get l \<lparr>rl_chain_type = t, rl_rule_priority = fr_priority r\<rparr> = Some v"
    "rv_last_update v = ck_instant clk" "limits_go (ck_instant clk) (ap_rate_limiters p) l"
    by blast
  with True show ?thesis by (intro exI [of _ ok] exI [of _ l]) (simp add: check_rule_limit_def)
next
  case False
  then show ?thesis
    using assms by (intro exI [of _ True] exI [of _ "ap_rate_limiters p"]) (simp add: check_rule_limit_def)
qed

lemma kv_remove_facts:
  "kv_ok c \<Longrightarrow> kv_ok (fold kv_remove ks c)"
  "kv_get (fold kv_remove ks c) k = Some e \<Longrightarrow> kv_get c k = Some e"
  "length (fold kv_remove ks c) \<le> length c"
proof (induction ks arbitrary: c)
  case (Cons a ks)
  { case 1 then show ?case using Cons by auto }
  { case 2 then show ?case using Cons(2) [of "kv_remove a c"] by (auto split: if_splits) }
  { case 3
    have "length (kv_remove a c) \<le> length c" by (simp add: kv_remove_def)
    with Cons(3) [of "kv_remove a c"] show ?case by simp }
qed simp_all

lemma cleanup_cache_facts:
  assumes "kv_ok c"
  shows "kv_ok (cleanup_cache now m c)"
    "kv_get (cleanup_cache now m c) k = Some e \<Longrightarrow>
       kv_get c k = Some e \<and> (if secs 15 \<le> now then now - secs 15 else now) < ce_last_access e"
proof -
  let ?c = "kv_retain (\<lambda>_ e. (if secs 15 \<le> now then now - secs 15 else now) < ce_last_access e) c"
  have ok: "kv_ok ?c" using assms by auto
  have shape: "cleanup_cache now m c = ?c \<or> (\<exists>ks. cleanup_cache now m c = fold kv_remove ks ?c)"
    unfolding cleanup_cache_def Let_def by (cases "length ?c \<le> m") (simp_all, blast)
  with ok show "kv_ok (cleanup_cache now m c)"
    using kv_remove_facts(1) by metis
  assume "kv_get (cleanup_cache now m c) k = Some e"
  then have "kv_get ?c k = Some e"
    using shape kv_remove_facts(2) by metis
  then show "kv_get c k = Some e \<and> (if secs 15 \<le> now then now - secs 15 else now) < ce_last_access e"
    using kvm.get_retain [OF assms] by auto
qed

text \<open>The cleanup leaves at most the allowed number of entries.\<close>

lemma map_sort_key:
  "distinct (map f (sort_key g xs)) = distinct (map f xs)" "set (map f (sort_key g xs)) = set (map f xs)"
  by (simp_all only: distinct_map distinct_sort set_map set_sort)

lemma length_remove_key: "a \<in> set (map fst c) \<Longrightarrow> kv_ok c \<Longrightarrow> length (kv_remove a c) + 1 = length c"
proof (induction c)
  case (Cons x c)
  then have "fst x \<notin> set (map fst c)" "kv_ok c" by (simp_all add: kv_ok_def)
  moreover have "filter (\<lambda>e. fst e \<noteq> a) c = c" if "a \<notin> set (map fst c)"
    using that by (auto simp: filter_id_conv)
  ultimately show ?case using Cons by (cases "fst x = a") (auto simp: kv_remove_def)
qed simp

lemma length_remove_keys:
  "distinct ks \<Longrightarrow> set ks \<subseteq> set (map fst c) \<Longrightarrow> kv_ok c \<Longrightarrow>
    length (fold kv_remove ks c) + length ks = length c"
proof (induction ks arbitrary: c)
  case (Cons a ks)
  have "length (kv_remove a c) + 1 = length c"
    using Cons.prems(2,3) by (intro length_remove_key) simp_all
  moreover have "set ks \<subseteq> set (map fst (kv_remove a c))"
    using Cons.prems(1,2) by (force simp: kv_remove_def)
  moreover have "kv_ok (kv_remove a c)" using Cons.prems(3) by auto
  ultimately show ?case using Cons.IH [of "kv_remove a c"] Cons.prems(1) by simp
qed simp

lemma length_cleanup_cache:
  assumes "kv_ok c"
  shows "length (cleanup_cache now m c) \<le> m"
proof -
  define c1 where "c1 = kv_retain (\<lambda>_ e. (if secs 15 \<le> now then now - secs 15 else now) < ce_last_access e) c"
  define ks where "ks = map fst (take (length c1 - m + m div 5) (sort_key snd (map (\<lambda>(k, e). (k, ce_last_access e)) c1)))"
  show ?thesis
  proof (cases "length c1 \<le> m")
    case True
    then show ?thesis unfolding cleanup_cache_def c1_def [symmetric] Let_def by simp
  next
    case False
    have ok: "kv_ok c1" using assms unfolding c1_def by auto
    let ?s = "sort_key snd (map (\<lambda>(k, e). (k, ce_last_access e)) c1)"
    have fst: "map fst (map (\<lambda>(k, e). (k, ce_last_access e)) c1) = map fst c1"
      by (simp add: case_prod_beta)
    have ks: "distinct (map fst ?s)" "set (map fst ?s) = set (map fst c1)"
      using ok unfolding map_sort_key fst kv_ok_def by simp_all
    have "distinct ks" "set ks \<subseteq> set (map fst c1)"
      using ks unfolding ks_def take_map [symmetric] by (auto dest!: in_set_takeD)
    then have "length (fold kv_remove ks c1) + length ks = length c1"
      by (rule length_remove_keys [OF _ _ ok])
    moreover have "length ks = min (length c1) (length c1 - m + m div 5)" by (simp add: ks_def)
    ultimately have "length (fold kv_remove ks c1) \<le> m" using False by linarith
    then show ?thesis
      using False unfolding cleanup_cache_def c1_def [symmetric] ks_def Let_def by simp
  qed
qed

text \<open>What a packet gets: the decision for a packet with the same cache key, or a drop by its limit.\<close>

definition answers ::
  "(packet_info \<Rightarrow> bool) \<Rightarrow> 'c cidr_ops \<Rightarrow> 'c acl_processor \<Rightarrow> packet_info \<times> chain_type \<Rightarrow> acl_result \<Rightarrow> bool" where
  "answers Q ops p x r \<longleftrightarrow>
     (\<exists>pkt. Q pkt \<and> from_packet_info pkt (snd x) = from_packet_info (fst x) (snd x)
        \<and> (r = acl_decision ops p (snd x) pkt \<or> rate_limited ops p (snd x) pkt \<and> limit_dropped r))"

definition keeps ::
  "(packet_info \<Rightarrow> bool) \<Rightarrow> 'c cidr_ops \<Rightarrow> nat \<Rightarrow> packet_info \<times> chain_type \<Rightarrow> 'c acl_processor
   \<Rightarrow> (acl_result \<times> 'c acl_processor) option \<Rightarrow> bool" where
  "keeps Q ops now x p out \<longleftrightarrow>
     (\<exists>r p'. out = Some (r, p') \<and> acl_inv Q ops now p' \<and> config_of p' = config_of p \<and> answers Q ops p x r)"

lemma inv_parts:
  assumes "acl_inv Q ops now p"
  shows "kv_ok (ap_rule_cache p)" "kv_ok (ap_rate_limiters p)" "heap_ok p"
    "length (ap_rule_cache p) \<le> 2 * ap_cache_max_size p" "\<forall>s \<in> set (ap_rule_stats p). rs_stat s \<noteq> None"
    "kv_get (ap_rule_cache p) k = Some e \<Longrightarrow> entry_ok Q ops now p k e"
  using assms by (auto simp: acl_inv_def heap_ok_def)

lemma cache_result_facts:
  assumes "kv_ok (ap_rule_cache p)"
  shows "\<exists>c. cache_result now key e p = p\<lparr>ap_rule_cache := c\<rparr> \<and> kv_ok c
           \<and> length c \<le> 2 * ap_cache_max_size p
           \<and> (\<forall>k e'. kv_get c k = Some e' \<longrightarrow> k = key \<and> e' = e \<or> kv_get (ap_rule_cache p) k = Some e')"
proof -
  let ?c = "kv_put key e (ap_rule_cache p)"
  have ok: "kv_ok ?c" using assms by auto
  show ?thesis
  proof (cases "ap_cache_max_size p * 2 < length ?c")
    case True
    then show ?thesis
      using cleanup_cache_facts [OF ok] length_cleanup_cache [OF ok, of now "ap_cache_max_size p"]
      by (intro exI [of _ "cleanup_cache now (ap_cache_max_size p) ?c"])
        (fastforce simp: cache_result_def Let_def split: if_splits)
  next
    case False
    then show ?thesis
      using ok by (intro exI [of _ ?c]) (auto simp: cache_result_def Let_def)
  qed
qed

lemma finish_keeps:
  assumes inv: "acl_inv Q ops now p" "now \<le> ck_instant clk" and q: "Q pkt" "chain_rules t p \<noteq> None"
    and p1: "config_of p1 = config_of p" "ap_rule_stats p1 = ap_rule_stats p" "ap_rule_cache p1 = ap_rule_cache p"
    and l: "limits_go (ck_instant clk) (ap_rate_limiters p) (ap_rate_limiters p1)" "kv_ok (ap_rate_limiters p1)"
    and e: "e = ref_entry ops p t pkt (ck_instant clk)"
      "\<forall>k \<in> set (ce_rate_limit_keys e). \<exists>v. kv_get (ap_rate_limiters p1) k = Some v \<and> rv_last_update v = ck_instant clk"
  shows "keeps Q ops (ck_instant clk) (pkt, t) p (finish_entry clk pkt (from_packet_info pkt t) e p1)"
proof -
  let ?key = "from_packet_info pkt t"
  obtain objs where objs: "inc_cache_entry_stats e pkt p1 = Some (p1\<lparr>ap_rule_stats := objs\<rparr>)"
    "length objs = length (ap_rule_stats p)" "\<forall>s \<in> set objs. rs_stat s \<noteq> None"
    using inc_entry_total [OF inv_parts(3) [OF inv(1)] q(2) p1(2)] unfolding e(1) by blast
  have "kv_ok (ap_rule_cache (p1\<lparr>ap_rule_stats := objs\<rparr>))" using inv_parts(1) [OF inv(1)] p1(3) by simp
  from cache_result_facts [OF this, of "ck_instant clk" ?key e] obtain c where
    c: "cache_result (ck_instant clk) ?key e (p1\<lparr>ap_rule_stats := objs\<rparr>) = p1\<lparr>ap_rule_stats := objs, ap_rule_cache := c\<rparr>"
    "kv_ok c" "length c \<le> 2 * ap_cache_max_size p1"
    "\<And>k e'. kv_get c k = Some e' \<Longrightarrow> k = ?key \<and> e' = e \<or> kv_get (ap_rule_cache p1) k = Some e'"
    by auto
  let ?p = "p1\<lparr>ap_rule_stats := objs, ap_rule_cache := c\<rparr>"
  have cfg: "config_of ?p = config_of p" using p1(1) by simp
  have new: "entry_ok Q ops (ck_instant clk) ?p ?key e"
    using q e unfolding entry_ok_def config_determines [OF cfg] by auto
  have "acl_inv Q ops (ck_instant clk) ?p"
    using l objs(2,3) c new p1(3) config_determines(4) [OF p1(1)]
    by (intro acl_inv_step [OF inv cfg]) auto
  moreover have "finish_entry clk pkt ?key e p1 = Some (acl_decision ops p t pkt, ?p)"
    using objs(1) ref_entry_result [OF q(2)] c(1) by (simp add: finish_entry_def e(1))
  moreover have "answers Q ops p (pkt, t) (acl_decision ops p t pkt)" using q(1) by (auto simp: answers_def)
  ultimately show ?thesis using cfg by (simp add: keeps_def)
qed

lemma increment_stat_frame [simp]:
  "config_of (increment_stat k p) = config_of p" "ap_rule_stats (increment_stat k p) = ap_rule_stats p"
  "ap_rule_cache (increment_stat k p) = ap_rule_cache p" "ap_rate_limiters (increment_stat k p) = ap_rate_limiters p"
  "default_action t (increment_stat k p) = default_action t p"
  by (simp_all add: increment_stat_def default_action_def split: chain_type.split)

lemma check_connection_state_frame [simp]:
  "config_of (check_connection_state clk key pkt p) = config_of p"
  "ap_rule_stats (check_connection_state clk key pkt p) = ap_rule_stats p"
  "ap_rule_cache (check_connection_state clk key pkt p) = ap_rule_cache p"
  "ap_rate_limiters (check_connection_state clk key pkt p) = ap_rate_limiters p"
  by (simp_all add: check_connection_state_def)

lemma default_keeps:
  assumes inv: "acl_inv Q ops now p" "now \<le> ck_instant clk" and q: "Q pkt"
    and none: "chain_rules t p = Some rules" "first_match ops rules pkt = None"
  shows "keeps Q ops (ck_instant clk) (pkt, t) p
           (apply_default clk pkt t (from_packet_info pkt t) (empty_entry (ck_instant clk)) p)"
proof -
  let ?p = "increment_stat (if default_action t p = Action_Drop then DefaultDrops else DefaultAllows) p"
  have "ref_entry ops p t pkt (ck_instant clk) = (empty_entry (ck_instant clk))\<lparr>ce_rule_stats_vec := [ap_default_rule_stats p],
      ce_acl_result := Some (acl_decision ops p t pkt)\<rparr>"
    using none by (simp add: ref_entry_def)
  moreover have "ap_default_rule_stats ?p = ap_default_rule_stats p" by (simp add: increment_stat_def)
  ultimately have "apply_default clk pkt t (from_packet_info pkt t) (empty_entry (ck_instant clk)) p
      = finish_entry clk pkt (from_packet_info pkt t) (ref_entry ops p t pkt (ck_instant clk)) ?p"
    using none by (simp add: apply_default_def Let_def empty_entry_def acl_decision_def)
  also have "keeps Q ops (ck_instant clk) (pkt, t) p \<dots>"
    using inv_parts(2) [OF inv(1)] none(1)
    by (intro finish_keeps [OF inv q]) (simp_all add: ref_entry_def none fill_entry_def empty_entry_def)
  finally show ?thesis .
qed

lemma match_keeps:
  assumes inv: "acl_inv Q ops now p" "now \<le> ck_instant clk" and q: "Q pkt"
    and r: "chain_rules t p = Some rules" "first_match ops rules pkt = Some r"
  shows "keeps Q ops (ck_instant clk) (pkt, t) p
           (process_rules ops clk pkt t (from_packet_info pkt t) (empty_entry (ck_instant clk)) rules p)"
proof -
  from check_rule_limit_total [OF inv_parts(2) [OF inv(1)], of clk t r] obtain ok l where
    l: "check_rule_limit clk t r p = Some (ok, p\<lparr>ap_rate_limiters := l\<rparr>)" "kv_ok l"
      "limits_go (ck_instant clk) (ap_rate_limiters p) l" "ok \<or> 0 < fr_rate_limit r"
    and k: "0 < fr_rate_limit r \<Longrightarrow> \<exists>v. kv_get l \<lparr>rl_chain_type = t, rl_rule_priority = fr_priority r\<rparr> = Some v
          \<and> rv_last_update v = ck_instant clk"
    by blast
  have e: "fill_entry r pkt (limit_entry t r (empty_entry (ck_instant clk))) = ref_entry ops p t pkt (ck_instant clk)"
    using r by (simp add: ref_entry_def)
  show ?thesis
  proof (cases ok)
    case True
    let ?p = "if fr_stateful r \<and> fr_action r = Action_Allow
      then check_connection_state clk (conn_track_key pkt) pkt (p\<lparr>ap_rate_limiters := l\<rparr>) else p\<lparr>ap_rate_limiters := l\<rparr>"
    have "keeps Q ops (ck_instant clk) (pkt, t) p
        (finish_entry clk pkt (from_packet_info pkt t) (ref_entry ops p t pkt (ck_instant clk)) (increment_stat RuleMatches ?p))"
      using l k r(1) e [symmetric]
      by (intro finish_keeps [OF inv q]) (auto simp: fill_entry_def limit_entry_def empty_entry_def)
    then show ?thesis
      unfolding process_rules_match [OF r(2)] l(1) option.case prod.case if_P [OF True] Let_def e
      using True by simp
  next
    case False
    have "acl_inv Q ops (ck_instant clk) (p\<lparr>ap_rate_limiters := l\<rparr>)"
      using l inv_parts [OF inv(1)] by (intro acl_inv_step [OF inv]) auto
    moreover have "rate_limited ops p t pkt" using r l(4) False by (simp add: rate_limited_def)
    ultimately show ?thesis
      unfolding process_rules_match [OF r(2)] l(1)
      using False q by (auto simp: keeps_def answers_def limit_dropped_def)
  qed
qed

lemma check_rate_limits_total:
  assumes "kv_ok (ap_rate_limiters p)" "ks = [] \<or> (\<exists>k. ks = [k] \<and> kv_get (ap_rate_limiters p) k \<noteq> None)"
  shows "\<exists>ok l. check_rate_limits clk ks p = Some (ok, p\<lparr>ap_rate_limiters := l\<rparr>) \<and> kv_ok l
           \<and> limits_go (ck_instant clk) (ap_rate_limiters p) l \<and> (ok \<or> ks \<noteq> [])
           \<and> (\<forall>k \<in> set ks. \<exists>v. kv_get l k = Some v \<and> rv_last_update v = ck_instant clk)"
  using assms(2)
proof
  assume "ks = []"
  with assms(1) show ?thesis by (intro exI [of _ True] exI [of _ "ap_rate_limiters p"]) simp
next
  assume "\<exists>k. ks = [k] \<and> kv_get (ap_rate_limiters p) k \<noteq> None"
  then obtain k where k: "ks = [k]" "kv_get (ap_rate_limiters p) k \<noteq> None" by blast
  from check_rate_limit_total [OF assms(1), of 1 False k clk 1] k(2) obtain ok l v where
    "check_rate_limit clk k 1 1 False p = Some (ok, p\<lparr>ap_rate_limiters := l\<rparr>)" "kv_ok l"
    "kv_get l k = Some v" "rv_last_update v = ck_instant clk" "limits_go (ck_instant clk) (ap_rate_limiters p) l"
    by auto
  with k(1) show ?thesis by (intro exI [of _ ok] exI [of _ l]) simp
qed

lemma length_kv_put: "kv_get m k \<noteq> None \<Longrightarrow> length (kv_put k v m) = length m"
  by (induction m) (auto simp: kv_get_def kv_put_def split: if_splits)

text \<open>A hit refreshes its entry and uses the bucket of its limit at the same time.\<close>

lemma hit_inv:
  assumes inv: "acl_inv Q ops now p" "now \<le> now'" and hit: "kv_get (ap_rule_cache p) key \<noteq> None"
    and e: "entry_ok Q ops now' p' key e"
    and p': "config_of p' = config_of p" "ap_rule_cache p' = kv_put key e (ap_rule_cache p)"
      "limits_go now' (ap_rate_limiters p) (ap_rate_limiters p')" "kv_ok (ap_rate_limiters p')"
      "length (ap_rule_stats p') = length (ap_rule_stats p)" "\<forall>s \<in> set (ap_rule_stats p'). rs_stat s \<noteq> None"
  shows "acl_inv Q ops now' p'"
  using p' e inv_parts [OF inv(1)] length_kv_put [OF hit]
  by (intro acl_inv_step [OF inv p'(1)]) (auto split: if_splits)

lemma cached_entry_result:
  assumes heap: "heap_ok p" and t: "chain_rules t p \<noteq> None" and e: "e = ref_entry ops p t pkt' now"
    and p1: "ap_rule_stats p1 = ap_rule_stats p"
    and l: "check_rate_limits clk (ce_rate_limit_keys e) p1 = Some (True, p1\<lparr>ap_rate_limiters := l\<rparr>)"
  shows "\<exists>c objs. process_packet_with_cache_entry clk pkt e p1 =
           Some (acl_decision ops p t pkt', p1\<lparr>ap_rate_limiters := l, ap_conn_track := c, ap_rule_stats := objs\<rparr>)
           \<and> length objs = length (ap_rule_stats p) \<and> (\<forall>s \<in> set objs. rs_stat s \<noteq> None)"
proof -
  define p2 where "p2 = (case ce_conn_track_key e of
      Some k \<Rightarrow> check_connection_state clk k pkt (p1\<lparr>ap_rate_limiters := l\<rparr>) | None \<Rightarrow> p1\<lparr>ap_rate_limiters := l\<rparr>)"
  have "p2 = p1\<lparr>ap_rate_limiters := l, ap_conn_track := ap_conn_track p2\<rparr>"
    by (cases "ce_conn_track_key e") (simp_all add: p2_def check_connection_state_def)
  then obtain c where p2: "p2 = p1\<lparr>ap_rate_limiters := l, ap_conn_track := c\<rparr>" ..
  from inc_entry_total [OF heap t, of p2 ops pkt' now pkt] p1 obtain objs where
    "inc_cache_entry_stats e pkt p2 = Some (p2\<lparr>ap_rule_stats := objs\<rparr>)"
    "length objs = length (ap_rule_stats p)" "\<forall>s \<in> set objs. rs_stat s \<noteq> None"
    unfolding e p2 by auto
  with l ref_entry_result [OF t, of ops pkt' now] show ?thesis
    by (intro exI [of _ c] exI [of _ objs])
      (simp add: process_packet_with_cache_entry_def Let_def p2_def [symmetric] e [symmetric], simp add: p2)
qed

lemma hit_keeps:
  assumes inv: "acl_inv Q ops now p" "now \<le> ck_instant clk"
    and hit: "kv_get (ap_rule_cache p) (from_packet_info pkt t) = Some e"
  shows "keeps Q ops (ck_instant clk) (pkt, t) p
    (let e = e\<lparr>ce_last_access := ck_instant clk\<rparr>
     in process_packet_with_cache_entry clk pkt e
       (increment_stat CacheHits (p\<lparr>ap_rule_cache := kv_put (from_packet_info pkt t) e (ap_rule_cache p)\<rparr>)))"
proof -
  let ?key = "from_packet_info pkt t" and ?now = "ck_instant clk"
  from inv_parts(6) [OF inv(1) hit] obtain pkt' t' where
    q: "Q pkt'" "chain_rules t' p \<noteq> None" "?key = from_packet_info pkt' t'" "e = ref_entry ops p t' pkt' (ce_last_access e)"
    and b: "\<forall>k \<in> set (ce_rate_limit_keys e). \<exists>v. kv_get (ap_rate_limiters p) k = Some v"
    unfolding entry_ok_def by blast
  have t: "t' = t" using q(3) by (simp add: from_packet_info_def)
  define e1 where "e1 = e\<lparr>ce_last_access := ?now\<rparr>"
  have e1: "e1 = ref_entry ops p t pkt' ?now" unfolding e1_def t [symmetric] by (subst q(4)) simp
  define p1 where "p1 = increment_stat CacheHits (p\<lparr>ap_rule_cache := kv_put ?key e1 (ap_rule_cache p)\<rparr>)"
  have p1: "config_of p1 = config_of p" "ap_rate_limiters p1 = ap_rate_limiters p" "ap_rule_stats p1 = ap_rule_stats p"
    "ap_rule_cache p1 = kv_put ?key e1 (ap_rule_cache p)"
    by (simp_all add: p1_def)
  have "ce_rate_limit_keys e1 = [] \<or> (\<exists>k. ce_rate_limit_keys e1 = [k] \<and> kv_get (ap_rate_limiters p1) k \<noteq> None)"
    using ref_entry_keys [of ops p t pkt' ?now] b unfolding e1 [symmetric] p1(2) by (auto simp: e1_def)
  from check_rate_limits_total [OF _ this, of clk] inv_parts(2) [OF inv(1)] p1(2) obtain ok l where
    l: "check_rate_limits clk (ce_rate_limit_keys e1) p1 = Some (ok, p1\<lparr>ap_rate_limiters := l\<rparr>)" "kv_ok l"
      "limits_go ?now (ap_rate_limiters p) l" "ok \<or> ce_rate_limit_keys e1 \<noteq> []"
      "\<forall>k \<in> set (ce_rate_limit_keys e1). \<exists>v. kv_get l k = Some v \<and> rv_last_update v = ?now"
    by auto
  have e1_ok: "entry_ok Q ops ?now p' ?key e1" if "config_of p' = config_of p" "ap_rate_limiters p' = l" for p'
    using q(1,2,3) l(5) e1 unfolding t entry_ok_def config_determines [OF that(1)] that(2) by auto
  have step: "acl_inv Q ops ?now p'"
    if "config_of p' = config_of p" "ap_rule_cache p' = ap_rule_cache p1" "ap_rate_limiters p' = l"
      "length (ap_rule_stats p') = length (ap_rule_stats p)" "\<forall>s \<in> set (ap_rule_stats p'). rs_stat s \<noteq> None" for p'
    using hit_inv [OF inv _ e1_ok [OF that(1,3)] that(1)] hit that p1(4) l(2,3) by simp
  show ?thesis unfolding Let_def e1_def [symmetric] p1_def [symmetric]
  proof (cases ok)
    case True
    from cached_entry_result [OF inv_parts(3) [OF inv(1)] q(2) [unfolded t] e1 p1(3), of clk l pkt] l(1) True
    obtain c objs where out: "process_packet_with_cache_entry clk pkt e1 p1 =
        Some (acl_decision ops p t pkt', p1\<lparr>ap_rate_limiters := l, ap_conn_track := c, ap_rule_stats := objs\<rparr>)"
      and "length objs = length (ap_rule_stats p)" "\<forall>s \<in> set objs. rs_stat s \<noteq> None"
      by auto
    then have "acl_inv Q ops ?now (p1\<lparr>ap_rate_limiters := l, ap_conn_track := c, ap_rule_stats := objs\<rparr>)"
      using p1(1) by (intro step) simp_all
    with out show "keeps Q ops ?now (pkt, t) p (process_packet_with_cache_entry clk pkt e1 p1)"
      using p1(1) q(1,3) t by (auto simp: keeps_def answers_def)
  next
    case False
    have "acl_inv Q ops ?now (p1\<lparr>ap_rate_limiters := l\<rparr>)"
      using p1 inv_parts(5) [OF inv(1)] by (intro step) simp_all
    moreover have "rate_limited ops p t pkt'"
      using ref_entry_keys [of ops p t pkt' ?now] l(4) False e1 by auto
    ultimately show "keeps Q ops ?now (pkt, t) p (process_packet_with_cache_entry clk pkt e1 p1)"
      using l(1) False p1(1) q(1,3) t
      by (auto simp: process_packet_with_cache_entry_def keeps_def answers_def limit_dropped_def)
  qed
qed

lemma process_packet_keeps:
  assumes inv: "acl_inv Q ops now p" "now \<le> ck_instant clk" and q: "Q pkt"
  shows "keeps Q ops (ck_instant clk) (pkt, t) p (process_packet ops clk pkt t p)"
proof (cases "kv_get (ap_rule_cache p) (from_packet_info pkt t)")
  case (Some e)
  with hit_keeps [OF inv Some] show ?thesis by (simp add: process_packet_def Let_def)
next
  case None
  note miss = this
  show ?thesis
  proof (cases "chain_rules t p")
    case None
    have "acl_inv Q ops (ck_instant clk) p"
      using inv_parts [OF inv(1)] by (intro acl_inv_step [OF inv]) auto
    with miss None q show ?thesis
      by (auto simp: process_packet_def keeps_def answers_def acl_decision_def)
  next
    case (Some rules)
    with miss default_keeps [OF inv q Some] match_keeps [OF inv q Some] show ?thesis
      by (cases "first_match ops rules pkt") (simp_all add: process_packet_def process_rules_default)
  qed
qed

lemma cache_tick_keeps:
  assumes inv: "acl_inv Q ops now p" and time: "now \<le> a" "a \<le> b" "b < a + secs 5"
  shows "acl_inv Q ops b (cache_cleanup_tick a b p)" "config_of (cache_cleanup_tick a b p) = config_of p"
proof -
  let ?p = "cache_cleanup_tick a b p"
  note parts = inv_parts [OF inv]
  show cfg: "config_of ?p = config_of p" by (simp add: cache_cleanup_tick_def config_of_def)
  have iv: "ap_cache_cleanup_interval p = secs 20" using inv by (simp add: acl_inv_def)
  have "entry_ok Q ops b ?p k e" if "kv_get (ap_rule_cache ?p) k = Some e" for k e
  proof -
    from that have "kv_get (cleanup_cache a (ap_cache_max_size p) (ap_rule_cache p)) k = Some e"
      by (simp add: cache_cleanup_tick_def)
    from cleanup_cache_facts(2) [OF parts(1) this]
    have e: "entry_ok Q ops now p k e" "(if secs 15 \<le> a then a - secs 15 else a) < ce_last_access e"
      using parts(6) by blast+
    then have young: "b - ce_last_access e < secs 20"
      using time(3) by (simp add: secs_def split: if_splits)
    have "\<exists>v. kv_get (ap_rate_limiters ?p) l = Some v \<and> ce_last_access e \<le> rv_last_update v"
      if l: "l \<in> set (ce_rate_limit_keys e)" for l
    proof -
      from e(1) l obtain v where v: "kv_get (ap_rate_limiters p) l = Some v" "ce_last_access e \<le> rv_last_update v"
        unfolding entry_ok_def by blast
      with young have "b - rv_last_update v < ap_cache_cleanup_interval p" by (simp add: iv)
      with v show ?thesis
        using kvm.get_retain [OF parts(2)] by (intro exI [of _ v]) (simp add: cache_cleanup_tick_def)
    qed
    with e(1) time(1,2) show ?thesis unfolding entry_ok_def config_determines [OF cfg] by auto
  qed
  moreover have "kv_ok (ap_rule_cache ?p)" "kv_ok (ap_rate_limiters ?p)" "length (ap_rule_cache ?p) \<le> ap_cache_max_size p"
    using cleanup_cache_facts(1) [OF parts(1)] parts(2) length_cleanup_cache [OF parts(1)]
    by (auto simp: cache_cleanup_tick_def)
  moreover have "heap_ok ?p"
    using parts(3) unfolding heap_ok_def config_determines [OF cfg] by (simp add: cache_cleanup_tick_def)
  ultimately show "acl_inv Q ops b ?p"
    using iv unfolding acl_inv_def config_determines [OF cfg] by simp
qed

lemma conn_tick_keeps:
  assumes "acl_inv Q ops now p"
  shows "acl_inv Q ops now (conn_cleanup_tick c p)" "config_of (conn_cleanup_tick c p) = config_of p"
proof -
  show "acl_inv Q ops now (conn_cleanup_tick c p)"
    using inv_parts [OF assms] by (intro acl_inv_step [OF assms order_refl]) (auto simp: conn_cleanup_tick_def)
qed (simp add: conn_cleanup_tick_def)

text \<open>A new processor satisfies the invariant, whatever state it inherits.\<close>

definition stats_made :: "rule_stats list \<Rightarrow> 'c fast_rule list \<Rightarrow> bool" where
  "stats_made objs rules \<longleftrightarrow>
     (\<forall>s \<in> set objs. rs_stat s \<noteq> None) \<and> (\<forall>r \<in> set rules. fr_rule_stats r < length objs)"

lemma convert_rules_made:
  "stats_made objs rules \<Longrightarrow> convert_rules ops rs objs = (frs, objs') \<Longrightarrow>
    stats_made objs' (rules @ frs) \<and> length objs \<le> length objs'"
proof (induction rs arbitrary: objs rules frs)
  case (Cons r rs)
  let ?c = "convert_to_fast_lookup_rule ops r objs"
  obtain frs1 where frs: "convert_rules ops rs (snd ?c) = (frs1, objs')" "frs = fst ?c # frs1"
    using Cons.prems(2) by (auto simp: case_prod_beta prod_eq_iff)
  have "stats_made (snd ?c) (rules @ [fst ?c])"
    using Cons.prems(1) by (auto simp: stats_made_def convert_to_fast_lookup_rule_def less_SucI)
  from Cons.IH [OF this frs(1)] show ?case by (simp add: frs(2) convert_to_fast_lookup_rule_def)
qed simp

lemma build_chains_made:
  "stats_made objs (i @ out @ f) \<Longrightarrow> build_chains ops cs (i, out, f) objs = ((i', out', f'), objs') \<Longrightarrow>
    stats_made objs' (i' @ out' @ f')"
proof (induction cs arbitrary: i out f objs)
  case (Cons c cs)
  show ?case
  proof (cases "ac_enabled c")
    case True
    obtain frs objs1 where frs: "convert_rules ops (filter ar_enabled (ac_rules c)) objs = (frs, objs1)" by fastforce
    let ?s = "sort_key (\<lambda>r. - int (unat (fr_priority r))) frs"
    have made: "stats_made objs1 ((i @ out @ f) @ frs)" "length objs \<le> length objs1"
      using convert_rules_made [OF Cons.prems(1) frs] by simp_all
    then have "stats_made objs1 ((i @ ?s) @ out @ f)" "stats_made objs1 (i @ (out @ ?s) @ f)"
      "stats_made objs1 (i @ out @ (f @ ?s))" "stats_made objs1 (i @ out @ f)"
      by (auto simp: stats_made_def)
    then have "\<exists>i1 out1 f1. build_chains ops (c # cs) (i, out, f) objs = build_chains ops cs (i1, out1, f1) objs1
        \<and> stats_made objs1 (i1 @ out1 @ f1)"
      using True frs unfolding build_chains.simps
      by (cases "chain_type_of_i32 (ac_chain_type c)") (simp_all only: Let_def prod.case chain_type.case simp_thms if_False, blast+)
    with Cons.IH Cons.prems(2) show ?thesis by metis
  qed (use Cons in auto)
qed simp

lemma acl_inv_new:
  assumes "case rl of Some l \<Rightarrow> kv_ok l | None \<Rightarrow> True"
  shows "acl_inv Q ops now (new_with_shared_state ops cfg ct rl st)"
proof -
  let ?p = "new_with_shared_state ops cfg ct rl st"
  obtain i out f objs where b: "build_rules ops cfg = ((i, out, f), objs)" by (metis surj_pair)
  then have made: "stats_made objs (i @ out @ f)"
    using build_chains_made [of "[]" "[]" "[]" "[]" ops]
    by (fastforce simp: build_rules_def stats_made_def split: option.splits)
  have "chain_rules t ?p = Some rules \<Longrightarrow> r \<in> set rules \<Longrightarrow> r \<in> set (i @ out @ f)" for t rules r
    using b by (auto simp: chain_rules_def new_with_shared_state_def Let_def case_prod_beta split: chain_type.splits)
  then have "heap_ok ?p"
    using made b unfolding heap_ok_def stats_made_def
    by (fastforce simp: new_with_shared_state_def Let_def case_prod_beta less_SucI)
  moreover have "kv_ok (ap_rate_limiters ?p)"
    using assms by (auto simp: new_with_shared_state_def Let_def case_prod_beta split: option.splits)
  ultimately show ?thesis
    by (auto simp: acl_inv_def new_with_shared_state_def Let_def case_prod_beta)
qed

section \<open>Runs of a processor\<close>

datatype acl_event =
    Packet_Event acl_clock packet_info chain_type
  | Cache_Tick nat nat
  | Conn_Tick u64

fun acl_run :: "'c cidr_ops \<Rightarrow> acl_event list \<Rightarrow> 'c acl_processor \<Rightarrow> (acl_result list \<times> 'c acl_processor) option" where
  "acl_run ops [] p = Some ([], p)"
| "acl_run ops (Packet_Event clk pkt t # evs) p = do {
     (r, p) \<leftarrow> process_packet ops clk pkt t p;
     (rs, p) \<leftarrow> acl_run ops evs p;
     Some (r # rs, p) }"
| "acl_run ops (Cache_Tick a b # evs) p = acl_run ops evs (cache_cleanup_tick a b p)"
| "acl_run ops (Conn_Tick c # evs) p = acl_run ops evs (conn_cleanup_tick c p)"

text \<open>
  The monotonic clock does not go back, and between the two readings of one cleanup tick less than the five
  seconds pass by which buckets outlive cache entries.
\<close>

fun timed :: "nat \<Rightarrow> acl_event list \<Rightarrow> bool" where
  "timed now [] = True"
| "timed now (Packet_Event clk pkt t # evs) = (now \<le> ck_instant clk \<and> timed (ck_instant clk) evs)"
| "timed now (Cache_Tick a b # evs) = (now \<le> a \<and> a \<le> b \<and> b < a + secs 5 \<and> timed b evs)"
| "timed now (Conn_Tick c # evs) = timed now evs"

fun packets_of :: "acl_event list \<Rightarrow> (packet_info \<times> chain_type) list" where
  "packets_of [] = []"
| "packets_of (Packet_Event clk pkt t # evs) = (pkt, t) # packets_of evs"
| "packets_of (_ # evs) = packets_of evs"

lemma answers_cong:
  assumes "config_of p' = config_of p"
  shows "answers Q ops p' = answers Q ops p"
  unfolding fun_eq_iff answers_def config_determines [OF assms] by simp

lemma acl_run_keeps:
  assumes "acl_inv Q ops now p" "timed now evs" "\<forall>x \<in> set (packets_of evs). Q (fst x)"
  shows "\<exists>rs p' now'. acl_run ops evs p = Some (rs, p') \<and> acl_inv Q ops now' p' \<and> config_of p' = config_of p
           \<and> list_all2 (answers Q ops p) (packets_of evs) rs"
  using assms
proof (induction ops evs p arbitrary: now rule: acl_run.induct)
  case (2 ops clk pkt t evs p)
  have "keeps Q ops (ck_instant clk) (pkt, t) p (process_packet ops clk pkt t p)"
    using 2 by (intro process_packet_keeps) auto
  then obtain r p1 where r: "process_packet ops clk pkt t p = Some (r, p1)" "acl_inv Q ops (ck_instant clk) p1"
    "config_of p1 = config_of p" "answers Q ops p (pkt, t) r"
    by (auto simp: keeps_def)
  from "2.IH" [OF r(1) refl r(2)] "2.prems"(2,3) obtain rs p2 now2 where
    "acl_run ops evs p1 = Some (rs, p2)" "acl_inv Q ops now2 p2" "config_of p2 = config_of p1"
    "list_all2 (answers Q ops p1) (packets_of evs) rs"
    by auto
  with r show ?case unfolding answers_cong [OF r(3)] by (intro exI [of _ "r # rs"] exI [of _ p2] exI [of _ now2]) simp
next
  case (3 ops a b evs p)
  from "3.prems"(2,3) have t: "now \<le> a" "a \<le> b" "b < a + secs 5"
    and rest: "timed b evs" "\<forall>x \<in> set (packets_of evs). Q (fst x)"
    by simp_all
  note k = cache_tick_keeps [OF "3.prems"(1) t]
  from "3.IH" [OF k(1) rest, unfolded answers_cong [OF k(2)] k(2)] show ?case by simp
next
  case (4 ops c evs p)
  from "4.prems"(2,3) have rest: "timed now evs" "\<forall>x \<in> set (packets_of evs). Q (fst x)" by simp_all
  note k = conn_tick_keeps [OF "4.prems"(1), of c]
  from "4.IH" [OF k(1) rest, unfolded answers_cong [OF k(2)] k(2)] show ?case by simp
qed auto

section \<open>Properties\<close>

definition toy_ops :: "u32 cidr_ops" where
  "toy_ops = \<lparr>co_from_str = (\<lambda>s. if s = ''10.0.0.1/32'' then Some (Cidr_V4 0x0A000001) else None),
    co_contains_v4 = (=), co_contains_v6 = (\<lambda>_ _. False)\<rparr>"

definition toy_rule :: acl_rule where
  "toy_rule = \<lparr>ar_name = ''dns'', ar_description = [], ar_priority = 7, ar_enabled = True, ar_protocol = 2,
    ar_ports = [''53''], ar_source_ips = [''10.0.0.1/32''], ar_destination_ips = [], ar_source_ports = [],
    ar_action = 1, ar_rate_limit = 5, ar_burst_limit = 2, ar_stateful = True, ar_source_groups = [],
    ar_destination_groups = []\<rparr>"

definition toy_acl :: acl_config where
  "toy_acl = \<lparr>acl_v1_of = Some \<lparr>av_chains = [\<lparr>ac_name = ''in'', ac_chain_type = 1, ac_description = [],
    ac_enabled = True, ac_rules = [toy_rule\<lparr>ar_priority := 3, ar_action := 2\<rparr>, toy_rule], ac_default_action = 2\<rparr>],
    av_group = None\<rparr>\<rparr>"

definition toy_packet :: packet_info where
  "toy_packet = \<lparr>pi_src_ip = V4 0x0A000001, pi_dst_ip = V4 0x0A000002, pi_src_port = Some 4000,
    pi_dst_port = Some 53, pi_protocol = Protocol_Udp, pi_packet_size = 60, pi_src_groups = [], pi_dst_groups = []\<rparr>"

definition toy_events :: "acl_event list" where
  "toy_events = [Packet_Event \<lparr>ck_instant = secs 1, ck_unix = 1\<rparr> toy_packet Inbound,
     Cache_Tick (secs 15) (secs 15 + 9),
     Packet_Event \<lparr>ck_instant = secs 16, ck_unix = 16\<rparr> toy_packet Inbound]"

lemma toy_port: "parse_port_range ''53'' = Some (53, 53)"
  by (simp add: parse_port_range_def str_trim_def is_space_def parse_u16_def digit_value_def Let_def)

abbreviation toy_processor :: "u32 acl_processor" where
  "toy_processor \<equiv> new_with_shared_state toy_ops toy_acl None None None"

definition toy_fast_rules :: "u32 fast_rule list" where
  "toy_fast_rules = [fst (convert_to_fast_lookup_rule toy_ops (toy_rule\<lparr>ar_priority := 7, ar_action := 1\<rparr>) [\<lparr>rs_rule = None, rs_stat = None\<rparr>]),
     fst (convert_to_fast_lookup_rule toy_ops (toy_rule\<lparr>ar_priority := 3, ar_action := 2\<rparr>) [])]"

lemma toy_chain: "chain_rules Inbound toy_processor = Some toy_fast_rules"
  by (simp add: chain_rules_def new_with_shared_state_def toy_acl_def build_rules_def build_default_actions_def
      chain_type_of_i32_def convert_to_fast_lookup_rule_def toy_fast_rules_def toy_rule_def Let_def)

lemma toy_match:
  "rule_matches toy_ops (fst (convert_to_fast_lookup_rule toy_ops (toy_rule\<lparr>ar_priority := n, ar_action := a\<rparr>) objs)) toy_packet"
  unfolding rule_matches_def port_matches_def cidr_matches_def
  by (simp add: convert_to_fast_lookup_rule_def toy_rule_def toy_packet_def toy_ops_def toy_port
      convert_ip_inet_to_cidr_def protocol_of_i32_def)

lemma toy_all_match: "r \<in> set toy_fast_rules \<Longrightarrow> fr_enabled r \<and> rule_matches toy_ops r toy_packet"
proof -
  have "fr_enabled (fst (convert_to_fast_lookup_rule toy_ops (toy_rule\<lparr>ar_priority := n, ar_action := a\<rparr>) objs))" for n a objs
    by (simp add: convert_to_fast_lookup_rule_def toy_rule_def)
  then show "r \<in> set toy_fast_rules \<Longrightarrow> fr_enabled r \<and> rule_matches toy_ops r toy_packet"
    unfolding toy_fast_rules_def using toy_match by auto
qed

lemma toy_first: "first_match toy_ops toy_fast_rules toy_packet = Some (toy_fast_rules ! 0)"
  using toy_all_match [of "toy_fast_rules ! 0"] by (simp add: first_match_def toy_fast_rules_def)

lemma toy_timed: "timed 0 toy_events"
  by (simp add: toy_events_def secs_def)

lemma toy_packets: "packets_of toy_events = [(toy_packet, Inbound), (toy_packet, Inbound)]"
  by (simp add: toy_events_def)

text \<open>
  C18: A processor never panics, whatever state it inherits at a reload: for every sequence of packets and
  cleanup ticks with a clock that does not go back, processing ends with one result per packet. In
  particular a cached entry never meets a missing bucket. The cache never holds more than twice its size
  limit of 1024 entries.
\<close>

theorem acl_never_panics:
  assumes "timed now evs" "case rl of Some l \<Rightarrow> kv_ok l | None \<Rightarrow> True"
  shows "\<exists>rs p. acl_run ops evs (new_with_shared_state ops cfg ct rl st) = Some (rs, p)
           \<and> length rs = length (packets_of evs) \<and> length (ap_rule_cache p) \<le> 2048"
proof -
  let ?p = "new_with_shared_state ops cfg ct rl st"
  have "acl_inv (\<lambda>_. True) ops now ?p" by (rule acl_inv_new [OF assms(2)])
  from acl_run_keeps [OF this assms(1)] obtain rs p' now' where
    r: "acl_run ops evs ?p = Some (rs, p')" "acl_inv (\<lambda>_. True) ops now' p'" "config_of p' = config_of ?p"
      "list_all2 (answers (\<lambda>_. True) ops ?p) (packets_of evs) rs"
    by auto
  have "ap_cache_max_size ?p = 1024" by (simp add: new_with_shared_state_def Let_def case_prod_beta)
  then show ?thesis
    using r(1,4) inv_parts(4) [OF r(2)] config_determines(4) [OF r(3)] by (auto dest: list_all2_lengthD)
qed

theorem acl_never_panics_witness:
  "timed 0 toy_events \<and>
   (\<exists>rs p. acl_run toy_ops toy_events (new_with_shared_state toy_ops toy_acl None (Some []) None) = Some (rs, p)
      \<and> length rs = 2 \<and> length (ap_rule_cache p) \<le> 2048)"
  using acl_never_panics [OF toy_timed, of "Some []" toy_ops toy_acl None None] toy_timed
  by (simp add: kv_ok_def toy_packets numeral_2_eq_2)

text \<open>Ports are known exactly for the protocols that have them.\<close>

definition ports_fit :: "packet_info \<Rightarrow> bool" where
  "ports_fit pkt \<longleftrightarrow>
     (pi_src_port pkt \<noteq> None \<longleftrightarrow> pi_protocol pkt \<in> {Protocol_Tcp, Protocol_Udp}) \<and>
     (pi_dst_port pkt \<noteq> None \<longleftrightarrow> pi_protocol pkt \<in> {Protocol_Tcp, Protocol_Udp})"

lemma toy_ports: "ports_fit toy_packet"
  by (simp add: ports_fit_def toy_packet_def)

lemma unwrap_port_inj: "unwrap_port a = unwrap_port b \<Longrightarrow> (a \<noteq> None) = (b \<noteq> None) \<Longrightarrow> a = b"
  by (auto simp: unwrap_port_def split: option.splits)

lemma same_key_decision:
  assumes "from_packet_info pkt' t = from_packet_info pkt t" "ports_fit pkt'" "ports_fit pkt"
  shows "acl_decision ops p t pkt' = acl_decision ops p t pkt" "rate_limited ops p t pkt' = rate_limited ops p t pkt"
proof -
  have eq: "pi_src_ip pkt' = pi_src_ip pkt" "pi_dst_ip pkt' = pi_dst_ip pkt" "pi_protocol pkt' = pi_protocol pkt"
    "pi_src_groups pkt' = pi_src_groups pkt" "pi_dst_groups pkt' = pi_dst_groups pkt"
    "unwrap_port (pi_src_port pkt') = unwrap_port (pi_src_port pkt)"
    "unwrap_port (pi_dst_port pkt') = unwrap_port (pi_dst_port pkt)"
    using assms(1) by (simp_all add: from_packet_info_def)
  moreover have "pi_src_port pkt' = pi_src_port pkt" "pi_dst_port pkt' = pi_dst_port pkt"
    using assms(2,3) eq(3,6,7) by (auto simp: ports_fit_def intro!: unwrap_port_inj)
  ultimately have "rule_matches ops r pkt' = rule_matches ops r pkt" for r
    unfolding rule_matches_def by simp
  then have fm: "first_match ops rules pkt' = first_match ops rules pkt" for rules
    unfolding first_match_def by simp
  show "acl_decision ops p t pkt' = acl_decision ops p t pkt" "rate_limited ops p t pkt' = rate_limited ops p t pkt"
    unfolding acl_decision_def rate_limited_def eq(1,2) fm by (rule refl)+
qed

lemma answers_exact:
  assumes "answers ports_fit ops p x r" "ports_fit (fst x)"
  shows "case x of (pkt, t) \<Rightarrow> r = acl_decision ops p t pkt \<or> rate_limited ops p t pkt \<and> limit_dropped r"
proof -
  obtain pkt t where x: "x = (pkt, t)" by fastforce
  from assms(1) obtain pkt' where pkt': "ports_fit pkt'" "from_packet_info pkt' t = from_packet_info pkt t"
    "r = acl_decision ops p t pkt' \<or> rate_limited ops p t pkt' \<and> limit_dropped r"
    unfolding answers_def x by auto
  have "ports_fit pkt" using assms(2) by (simp add: x)
  note same = same_key_decision [OF pkt'(2,1) this]
  from pkt'(3) show ?thesis unfolding x prod.case same .
qed

text \<open>
  C17: The cache is transparent. In every run of a processor each packet gets the decision of the first
  enabled rule that matches it, or the default of its chain, as if nothing were cached; the only other
  answer is a drop by the rate limit of that very rule. The packets carry ports exactly when their protocol
  has ports, which is what the packet parser produces.
\<close>

theorem acl_cache_transparent:
  assumes "timed now evs" "case rl of Some l \<Rightarrow> kv_ok l | None \<Rightarrow> True" "\<forall>x \<in> set (packets_of evs). ports_fit (fst x)"
    and "P = new_with_shared_state ops cfg ct rl st"
  shows "\<exists>rs p. acl_run ops evs P = Some (rs, p) \<and>
           list_all2 (\<lambda>(pkt, t) r. r = acl_decision ops P t pkt \<or> rate_limited ops P t pkt \<and> limit_dropped r)
             (packets_of evs) rs"
proof -
  have "acl_inv ports_fit ops now P" unfolding assms(4) by (rule acl_inv_new [OF assms(2)])
  from acl_run_keeps [OF this assms(1,3)]
  obtain rs p where r: "acl_run ops evs P = Some (rs, p)" "list_all2 (answers ports_fit ops P) (packets_of evs) rs"
    by blast
  from r(2) have "list_all2 (\<lambda>x r. case x of (pkt, t) \<Rightarrow>
      r = acl_decision ops P t pkt \<or> rate_limited ops P t pkt \<and> limit_dropped r) (packets_of evs) rs"
    by (rule list.rel_mono_strong) (rule answers_exact, assumption, rule bspec [OF assms(3)])
  then show ?thesis using r(1) by (simp add: case_prod_beta')
qed

theorem acl_cache_transparent_witness:
  "\<exists>rs p. acl_run toy_ops toy_events (new_with_shared_state toy_ops toy_acl None None None) = Some (rs, p) \<and>
     list_all2 (\<lambda>(pkt, t) r. r = acl_decision toy_ops (new_with_shared_state toy_ops toy_acl None None None) t pkt
         \<or> rate_limited toy_ops (new_with_shared_state toy_ops toy_acl None None None) t pkt \<and> limit_dropped r)
       [(toy_packet, Inbound), (toy_packet, Inbound)] rs"
  using acl_cache_transparent [OF toy_timed, of None _ toy_ops toy_acl None None]
  by (simp add: toy_packets toy_ports)

lemma protocol_i32_inj: "protocol_i32 a = protocol_i32 b \<longleftrightarrow> a = b"
  by (cases a; cases b) simp_all

lemma rule_matches_iff:
  "rule_matches ops rule pkt \<longleftrightarrow>
     (fr_protocol rule = Protocol_Any \<or> fr_protocol rule = pi_protocol pkt) \<and>
     (fr_src_ip_ranges rule = [] \<or> list_ex (cidr_matches ops (pi_src_ip pkt)) (fr_src_ip_ranges rule)) \<and>
     (fr_dst_ip_ranges rule = [] \<or> list_ex (cidr_matches ops (pi_dst_ip pkt)) (fr_dst_ip_ranges rule)) \<and>
     port_matches (pi_src_port pkt) (fr_src_port_ranges rule) \<and>
     port_matches (pi_dst_port pkt) (fr_dst_port_ranges rule) \<and>
     (fr_source_groups rule = {} \<or> list_ex (\<lambda>g. g \<in> fr_source_groups rule) (pi_src_groups pkt)) \<and>
     (fr_destination_groups rule = {} \<or> list_ex (\<lambda>g. g \<in> fr_destination_groups rule) (pi_dst_groups pkt))"
proof -
  have "(if b then False else c) \<longleftrightarrow> \<not> b \<and> c" for b c by simp
  then show ?thesis unfolding rule_matches_def protocol_i32_inj by (simp only: de_Morgan_conj not_not simp_thms)
qed

lemma map_filter_empty: "List.map_filter f xs = [] \<longleftrightarrow> (\<forall>x \<in> set xs. f x = None)"
  by (auto simp: List.map_filter_def filter_empty_conv)

lemma list_ex_map_filter: "list_ex P (List.map_filter f xs) \<longleftrightarrow> (\<exists>x \<in> set xs. \<exists>y. f x = Some y \<and> P y)"
  by (force simp: List.map_filter_def list_ex_iff)

text \<open>
  C22: What a configured rule matches. Protocol \<^verbatim>\<open>Any\<close> or the same protocol; then, for addresses, ports
  and groups alike, one of the entries \<^emph>\<open>that could be parsed\<close> has to match, and a list without any such
  entry does not restrict. A rule whose addresses are all mistyped therefore applies to every address.
  A packet without ports passes every port list.
\<close>

theorem rule_matches_spec:
  "rule_matches ops (fst (convert_to_fast_lookup_rule ops rule objs)) pkt \<longleftrightarrow>
     (protocol_of_i32 (ar_protocol rule) \<in> {Protocol_Any, pi_protocol pkt}) \<and>
     (let addr = (\<lambda>entries ip. (\<forall>s \<in> set entries. co_from_str ops s = None) \<or>
            (\<exists>s \<in> set entries. \<exists>c. co_from_str ops s = Some c \<and> cidr_matches ops ip c));
          port = (\<lambda>entries n. n = None \<or> (\<forall>s \<in> set entries. parse_port_range s = None) \<or>
            (\<exists>s \<in> set entries. \<exists>a b. parse_port_range s = Some (a, b) \<and> a \<le> the n \<and> the n \<le> b));
          grp = (\<lambda>entries gs. entries = [] \<or> set entries \<inter> set gs \<noteq> {})
      in addr (ar_source_ips rule) (pi_src_ip pkt) \<and> addr (ar_destination_ips rule) (pi_dst_ip pkt) \<and>
         port (ar_source_ports rule) (pi_src_port pkt) \<and> port (ar_ports rule) (pi_dst_port pkt) \<and>
         grp (ar_source_groups rule) (pi_src_groups pkt) \<and> grp (ar_destination_groups rule) (pi_dst_groups pkt))"
proof -
  have ports: "port_matches n (List.map_filter parse_port_range entries) \<longleftrightarrow>
      n = None \<or> (\<forall>s \<in> set entries. parse_port_range s = None) \<or>
      (\<exists>s \<in> set entries. \<exists>a b. parse_port_range s = Some (a, b) \<and> a \<le> the n \<and> the n \<le> b)" for n entries
    by (cases n) (auto simp: port_matches_def map_filter_empty list_ex_map_filter)
  have groups: "set entries = {} \<or> list_ex (\<lambda>g. g \<in> set entries) gs \<longleftrightarrow> entries = [] \<or> set entries \<inter> set gs \<noteq> {}"
    for entries :: "string list" and gs
    by (auto simp: list_ex_iff)
  show ?thesis
    unfolding rule_matches_iff convert_to_fast_lookup_rule_def fst_conv fast_rule.select_convs Let_def ports groups
      map_filter_empty list_ex_map_filter convert_ip_inet_to_cidr_def insert_iff empty_iff simp_thms
    by (rule TrueI)
qed

theorem rule_matches_spec_witness:
  "rule_matches toy_ops (fst (convert_to_fast_lookup_rule toy_ops (toy_rule\<lparr>ar_source_ips := [''10.0.0.300'']\<rparr>) []))
     (toy_packet\<lparr>pi_src_ip := V4 99\<rparr>)"
  unfolding rule_matches_spec by (simp add: toy_rule_def toy_packet_def toy_ops_def protocol_of_i32_def toy_port)

text \<open>The vector of a chain type, and what one chain adds to it.\<close>

definition vector_of :: "chain_type \<Rightarrow> 'c rule_vectors \<Rightarrow> 'c fast_rule list" where
  "vector_of t v = (case v of (i, out, f) \<Rightarrow> (case t of Inbound \<Rightarrow> i | Outbound \<Rightarrow> out | Forward \<Rightarrow> f | _ \<Rightarrow> []))"

abbreviation by_priority :: "'c fast_rule list \<Rightarrow> 'c fast_rule list" where
  "by_priority \<equiv> sort_key (\<lambda>r. - int (unat (fr_priority r)))"

lemma build_chains_Cons:
  assumes "t \<noteq> UnspecifiedChain"
  shows "\<exists>v1 objs1 frs. build_chains ops (c # cs) v objs = build_chains ops cs v1 objs1 \<and>
    vector_of t v1 =
      vector_of t v @ (if ac_enabled c \<and> chain_type_of_i32 (ac_chain_type c) = t then by_priority frs else [])"
proof -
  obtain i out f where v: "v = (i, out, f)" by (metis surj_pair)
  obtain frs objs1 where frs: "convert_rules ops (filter ar_enabled (ac_rules c)) objs = (frs, objs1)" by fastforce
  show ?thesis
  proof (cases "ac_enabled c")
    case True
    let ?v = "case chain_type_of_i32 (ac_chain_type c) of Inbound \<Rightarrow> (i @ by_priority frs, out, f)
      | Outbound \<Rightarrow> (i, out @ by_priority frs, f) | Forward \<Rightarrow> (i, out, f @ by_priority frs) | _ \<Rightarrow> (i, out, f)"
    have "build_chains ops (c # cs) v objs = build_chains ops cs ?v objs1"
      unfolding v build_chains.simps frs prod.case Let_def by (simp only: True not_True_eq_False if_False)
    moreover have "vector_of t ?v = vector_of t v @ (if ac_enabled c \<and> chain_type_of_i32 (ac_chain_type c) = t then by_priority frs else [])"
      using assms True v by (cases "chain_type_of_i32 (ac_chain_type c)"; cases t) (simp_all add: vector_of_def)
    ultimately show ?thesis by blast
  qed (use v in auto)
qed

lemma build_chains_none:
  assumes "t \<noteq> UnspecifiedChain" "filter (\<lambda>c. ac_enabled c \<and> chain_type_of_i32 (ac_chain_type c) = t) cs = []"
  shows "vector_of t (fst (build_chains ops cs v objs)) = vector_of t v"
  using assms(2)
proof (induction cs arbitrary: v objs)
  case (Cons c cs)
  from build_chains_Cons [OF assms(1), of ops c cs v objs] Cons show ?case by (fastforce split: if_splits)
qed (cases v; simp)

lemma build_chains_one:
  assumes "t \<noteq> UnspecifiedChain" "filter (\<lambda>c. ac_enabled c \<and> chain_type_of_i32 (ac_chain_type c) = t) cs = [c]"
  shows "\<exists>frs. vector_of t (fst (build_chains ops cs v objs)) = vector_of t v @ by_priority frs"
  using assms(2)
proof (induction cs arbitrary: v objs)
  case (Cons x cs)
  from build_chains_Cons [OF assms(1), of ops x cs v objs] obtain v1 objs1 frs where
    step: "build_chains ops (x # cs) v objs = build_chains ops cs v1 objs1"
      "vector_of t v1 =
        vector_of t v @ (if ac_enabled x \<and> chain_type_of_i32 (ac_chain_type x) = t then by_priority frs else [])"
    by blast
  show ?case
  proof (cases "ac_enabled x \<and> chain_type_of_i32 (ac_chain_type x) = t")
    case True
    with Cons.prems have "filter (\<lambda>c. ac_enabled c \<and> chain_type_of_i32 (ac_chain_type c) = t) cs = []" by simp
    note none = build_chains_none [OF assms(1) this, of ops v1 objs1]
    show ?thesis by (rule exI [of _ frs]) (simp only: step none True if_True simp_thms)
  next
    case False
    with Cons.prems have "filter (\<lambda>c. ac_enabled c \<and> chain_type_of_i32 (ac_chain_type c) = t) cs = [c]" by auto
    note one = Cons.IH [OF this, of v1 objs1, unfolded step(2) if_not_P [OF False] append_Nil2]
    show ?thesis unfolding step(1) by (rule one)
  qed
qed simp

lemma find_sorted_key:
  "sorted (map k xs) \<Longrightarrow> find P xs = Some x \<Longrightarrow> y \<in> set xs \<Longrightarrow> P y \<Longrightarrow> k x \<le> k y"
  by (induction xs) (auto split: if_splits)

text \<open>
  Among the rules of a chain the one with the highest priority decides: when a packet matches several
  enabled rules of the only enabled chain of a type, no rule that matches has a higher priority than the
  one that is applied.
\<close>

theorem highest_priority_wins:
  assumes "acl_v1_of cfg = Some v1" "t \<noteq> UnspecifiedChain"
    and "filter (\<lambda>c. ac_enabled c \<and> chain_type_of_i32 (ac_chain_type c) = t) (av_chains v1) = [c]"
    and "chain_rules t (new_with_shared_state ops cfg ct rl st) = Some rules" "first_match ops rules pkt = Some r"
    and "r' \<in> set rules" "fr_enabled r'" "rule_matches ops r' pkt"
  shows "fr_priority r' \<le> fr_priority r"
proof -
  let ?k = "\<lambda>r. - int (unat (fr_priority r))"
  have "chain_rules t (new_with_shared_state ops cfg ct rl st) =
      Some (vector_of t (fst (build_chains ops (av_chains v1) ([], [], []) [])))"
    using assms(1,2) by (cases t) (auto simp: chain_rules_def new_with_shared_state_def build_rules_def vector_of_def
        Let_def case_prod_beta)
  moreover from build_chains_one [OF assms(2,3), of ops "([], [], [])" "[]"]
  obtain frs where "vector_of t (fst (build_chains ops (av_chains v1) ([], [], []) [])) = by_priority frs"
    by (auto simp: vector_of_def split: chain_type.splits)
  ultimately have "sorted (map ?k rules)" using assms(4) by simp
  from find_sorted_key [OF this, of _ r r'] assms(5-8) have "?k r \<le> ?k r'"
    by (simp add: first_match_def)
  then show ?thesis by (simp add: word_le_def)
qed

theorem highest_priority_wins_witness:
  "first_match toy_ops toy_fast_rules toy_packet = Some (toy_fast_rules ! 0) \<and>
   fr_priority (toy_fast_rules ! 1) \<le> fr_priority (toy_fast_rules ! 0)"
  using highest_priority_wins [OF _ _ _ toy_chain toy_first, of _ _ "toy_fast_rules ! 1"] toy_first toy_all_match
  by (simp add: toy_acl_def chain_type_of_i32_def toy_fast_rules_def)

text \<open>
  A packet that passes the limit of a rate limited rule is counted twice in the statistics of that
  rule, with twice its size: the rule is recorded once for its limit and once for its match.
\<close>

theorem rate_limited_counted_twice:
  assumes "kv_get (ap_rule_cache p) (from_packet_info pkt t) = None" "chain_rules t p = Some rules"
    and "first_match ops rules pkt = Some r" "0 < fr_rate_limit r"
    and "process_packet ops clk pkt t p = Some (res, p')" "re_log_context res \<noteq> Some RateLimitDrop"
    and "fr_rule_stats r < length (ap_rule_stats p)" "rs_stat (ap_rule_stats p ! fr_rule_stats r) = Some s"
  shows "rs_stat (ap_rule_stats p' ! fr_rule_stats r) =
    Some \<lparr>si_packet_count = si_packet_count s + 2, si_byte_count = si_byte_count s + 2 * pi_packet_size pkt\<rparr>"
proof -
  let ?e = "fill_entry r pkt (limit_entry t r (empty_entry (ck_instant clk)))"
  have run: "process_packet ops clk pkt t p =
      process_rules ops clk pkt t (from_packet_info pkt t) (empty_entry (ck_instant clk)) rules p"
    using assms(1,2) by (simp add: process_packet_def)
  obtain ok p1 where l: "check_rule_limit clk t r p = Some (ok, p1)" "ok"
    using assms(5,6) unfolding run process_rules_match [OF assms(3)] by (auto split: option.splits bool.splits)
  then have p1: "ap_rule_stats p1 = ap_rule_stats p"
    by (auto simp: check_rule_limit_def check_rate_limit_def Let_def split: if_splits prod.splits Option.bind_splits)
  obtain p2 where fin: "finish_entry clk pkt (from_packet_info pkt t) ?e p2 = Some (res, p')"
    and p2: "ap_rule_stats p2 = ap_rule_stats p"
    using assms(5) l p1 unfolding run process_rules_match [OF assms(3)] by (auto simp: Let_def split: if_splits)
  have "ce_rule_stats_vec ?e = [fr_rule_stats r, fr_rule_stats r]"
    using assms(4) by (simp add: fill_entry_def limit_entry_def empty_entry_def)
  then have "ap_rule_stats p' ! fr_rule_stats r = (ap_rule_stats p ! fr_rule_stats r)
      \<lparr>rs_stat := Some \<lparr>si_packet_count = si_packet_count s + 1 + 1,
         si_byte_count = si_byte_count s + pi_packet_size pkt + pi_packet_size pkt\<rparr>\<rparr>"
    using fin p2 assms(7,8)
    by (auto simp: finish_entry_def inc_cache_entry_stats_def nth_opt_def cache_result_def Let_def
        split: Option.bind_splits if_splits)
  then show ?thesis by (simp add: algebra_simps)
qed

theorem rate_limited_counted_twice_witness:
  "\<exists>res p'. process_packet toy_ops \<lparr>ck_instant = 1, ck_unix = 1\<rparr> toy_packet Inbound toy_processor = Some (res, p')
     \<and> re_action res = Action_Allow
     \<and> rs_stat (ap_rule_stats p' ! 1) = Some \<lparr>si_packet_count = 2, si_byte_count = 120\<rparr>"
proof -
  let ?clk = "\<lparr>ck_instant = 1, ck_unix = 1\<rparr>" and ?r = "toy_fast_rules ! 0"
  have r: "fr_rate_limit ?r = 5" "fr_burst_limit ?r = 2" "fr_rule_stats ?r = 1" "fr_stateful ?r" "fr_action ?r = Action_Allow"
    by (simp_all add: toy_fast_rules_def convert_to_fast_lookup_rule_def toy_rule_def action_of_i32_def)
  have cache: "kv_get (ap_rule_cache toy_processor) (from_packet_info toy_packet Inbound) = None"
    "ap_rate_limiters toy_processor = []"
    by (simp_all add: new_with_shared_state_def Let_def case_prod_beta)
  have stats: "length (ap_rule_stats toy_processor) = 3"
    "rs_stat (ap_rule_stats toy_processor ! 1) = Some \<lparr>si_packet_count = 0, si_byte_count = 0\<rparr>"
    by (simp_all add: new_with_shared_state_def toy_acl_def build_rules_def build_default_actions_def
      chain_type_of_i32_def convert_to_fast_lookup_rule_def toy_rule_def Let_def)
  obtain p1 where l: "check_rule_limit ?clk Inbound ?r toy_processor = Some (True, p1)"
    using cache(2) by (simp add: check_rule_limit_def check_rate_limit_def r bucket_new_from_cfg_def try_consume_def
        try_consume_locked_def refill_def charge_def Let_def)
  have "keeps (\<lambda>_. True) toy_ops 1 (toy_packet, Inbound) toy_processor (process_packet toy_ops ?clk toy_packet Inbound toy_processor)"
    using process_packet_keeps [of "\<lambda>_. True" toy_ops 0 toy_processor ?clk toy_packet Inbound]
    by (simp add: acl_inv_new)
  then obtain res p' where out: "process_packet toy_ops ?clk toy_packet Inbound toy_processor = Some (res, p')"
    by (auto simp: keeps_def)
  then have res: "re_action res = Action_Allow" "re_log_context res \<noteq> Some RateLimitDrop"
    using cache(1) l r
    by (auto simp: process_packet_def toy_chain process_rules_match [OF toy_first] Let_def finish_entry_def fill_entry_def
        split: Option.bind_splits)
  from rate_limited_counted_twice [OF cache(1) toy_chain toy_first _ out res(2)] stats r out res(1) show ?thesis
    by (simp add: toy_packet_def)
qed

end
