(* ===== verification/AclFilter.thy ===== *)
theory AclFilter
  imports Acl IpPacket
begin

text \<open>
  The filter that applies the access control lists to packets (\<^verbatim>\<open>peers/acl/filter.rs\<close>): extraction
  of the packet facts, choice of the chain, hot reload of the rules, and the records by which replies to
  allowed outbound packets pass although the rules drop them.

    \<^item> \<open>af_processor\<close> is the current processor behind the \<^verbatim>\<open>ArcSwap\<close>; a reload hands its connection
      table, buckets and counters to the new one, so that the old one is not used again.
    \<^item> The route (\<^verbatim>\<open>get_peer_groups\<close>) and the addresses of this node are the argument \<open>filter_env\<close>.
    \<^item> \<open>filter_reach\<close> lists what happened so far, newest first, with the verdicts. Log lines are not modelled.
\<close>

section \<open>The filter\<close>

definition ICMP_ECHO_REPLY :: u8 where "ICMP_ECHO_REPLY = 0"
definition ICMP_ECHO_REQUEST :: u8 where "ICMP_ECHO_REQUEST = 8"
definition ICMPV6_ECHO_REQUEST :: u8 where "ICMPV6_ECHO_REQUEST = 128"
definition ICMPV6_ECHO_REPLY :: u8 where "ICMPV6_ECHO_REPLY = 129"

definition echo_allowed :: "parsed_ip_packet \<Rightarrow> bool \<Rightarrow> u8 \<Rightarrow> bool" where
  "echo_allowed x is_in expected =
     (if is_non_initial_fragment x then is_in
      else 8 \<le> length (transport_payload x) \<and> transport_payload x ! 0 = expected \<and> transport_payload x ! 1 = 0)"

definition can_use_allow_record :: "parsed_ip_packet \<Rightarrow> bool \<Rightarrow> bool" where
  "can_use_allow_record x is_in =
     (if ip_protocol x = IP_PROTO_ICMP
      then echo_allowed x is_in (if is_in then ICMP_ECHO_REPLY else ICMP_ECHO_REQUEST)
      else if ip_protocol x = IP_PROTO_ICMPV6
      then echo_allowed x is_in (if is_in then ICMPV6_ECHO_REPLY else ICMPV6_ECHO_REQUEST)
      else ip_protocol x \<noteq> IP_PROTO_UNSPECIFIED)"

definition acl_protocol :: "u8 \<Rightarrow> protocol" where
  "acl_protocol n =
     (if n = IP_PROTO_TCP then Protocol_Tcp
      else if n = IP_PROTO_UDP then Protocol_Udp
      else if n = IP_PROTO_ICMP then Protocol_Icmp
      else if n = IP_PROTO_ICMPV6 then Protocol_IcmPv6
      else Protocol_Unspecified)"

record outbound_allow_record =
  or_src_ip :: ip_addr
  or_dst_ip :: ip_addr
  or_src_port :: "u16 option"
  or_dst_port :: "u16 option"
  or_protocol :: protocol

definition new_from_inbound_packet :: "packet_info \<Rightarrow> outbound_allow_record" where
  "new_from_inbound_packet p =
     \<lparr>or_src_ip = pi_src_ip p, or_dst_ip = pi_dst_ip p, or_src_port = pi_src_port p,
      or_dst_port = pi_dst_port p, or_protocol = pi_protocol p\<rparr>"

definition new_from_outbound_packet :: "packet_info \<Rightarrow> outbound_allow_record" where
  "new_from_outbound_packet p =
     \<lparr>or_src_ip = pi_dst_ip p, or_dst_ip = pi_src_ip p, or_src_port = pi_dst_port p,
      or_dst_port = pi_src_port p, or_protocol = pi_protocol p\<rparr>"

record 'c acl_filter =
  af_processor :: "'c acl_processor"
  af_enabled :: bool
  af_records :: "(outbound_allow_record, nat) kvs"

record filter_env =
  fe_my_ipv4 :: "u32 option"
  fe_is_local_ipv6 :: "128 word \<Rightarrow> bool"
  fe_get_peer_groups :: "peer_id \<Rightarrow> string list"

definition filter_new :: "'c cidr_ops \<Rightarrow> 'c acl_filter" where
  "filter_new ops = \<lparr>af_processor = processor_new ops acl_default, af_enabled = False, af_records = []\<rparr>"

text \<open>One round of the task that forgets old records.\<close>

definition record_tick :: "nat \<Rightarrow> 'c acl_filter \<Rightarrow> 'c acl_filter" where
  "record_tick now f = f\<lparr>af_records := kv_retain (\<lambda>_ v. now - v < secs 30) (af_records f)\<rparr>"

definition reload_rules :: "'c cidr_ops \<Rightarrow> acl_config option \<Rightarrow> 'c acl_filter \<Rightarrow> 'c acl_filter" where
  "reload_rules ops cfg f =
     (let f = f\<lparr>af_records := []\<rparr> in
      case cfg of
        None \<Rightarrow> f\<lparr>af_enabled := False\<rparr>
      | Some c \<Rightarrow>
          let (conn_track, rate_limiters, stats) = get_shared_state (af_processor f)
          in f\<lparr>af_processor := new_with_shared_state ops c (Some conn_track) (Some rate_limiters) (Some stats),
               af_enabled := True\<rparr>)"

definition extract_packet_info ::
  "filter_env \<Rightarrow> zc_packet \<Rightarrow> bool \<Rightarrow> (packet_info \<times> bool) option option" where
  "extract_packet_info env packet is_in = do {
     pl \<leftarrow> payload packet;
     r \<leftarrow> parse_ip_packet pl;
     Some (do {
       x \<leftarrow> r;
       (src_port, dst_port) \<leftarrow> parse_transport_ports (ip_protocol x) (transport_payload x);
       Some (\<lparr>pi_src_ip = src_ip x, pi_dst_ip = dst_ip x, pi_src_port = src_port, pi_dst_port = dst_port,
              pi_protocol = acl_protocol (ip_protocol x), pi_packet_size = word_of_nat (length pl),
              pi_src_groups = (case get_src_peer_id packet of Some i \<Rightarrow> fe_get_peer_groups env i | None \<Rightarrow> []),
              pi_dst_groups = (case get_dst_peer_id packet of Some i \<Rightarrow> fe_get_peer_groups env i | None \<Rightarrow> [])\<rparr>,
             can_use_allow_record x is_in) }) }"

definition handle_acl_result :: "acl_result \<Rightarrow> chain_type \<Rightarrow> 'c acl_processor \<Rightarrow> 'c acl_processor" where
  "handle_acl_result r t p =
     (let p = (case re_action r of
          Action_Allow \<Rightarrow> increment_stat (stat_from_chain_and_action t Stat_Allowed) (increment_stat PacketsAllowed p)
        | Action_Drop \<Rightarrow> increment_stat (stat_from_chain_and_action t Stat_Dropped) (increment_stat PacketsDropped p)
        | Action_Noop \<Rightarrow> increment_stat (stat_from_chain_and_action t Stat_Noop) (increment_stat PacketsNoop p))
      in increment_stat PacketsTotal (increment_stat (stat_from_chain_and_action t Stat_Total) p))"

definition classify_chain_type :: "filter_env \<Rightarrow> bool \<Rightarrow> packet_info \<Rightarrow> chain_type" where
  "classify_chain_type env is_in pkt =
     (if \<not> is_in then Outbound
      else
        let is_local_dst = (pi_dst_ip pkt = V4 (case fe_my_ipv4 env of Some a \<Rightarrow> a | None \<Rightarrow> 0)
              \<or> (case pi_dst_ip pkt of V6 a \<Rightarrow> fe_is_local_ipv6 env a | V4 _ \<Rightarrow> False))
        in if is_local_dst then Inbound else Forward)"

definition process_packet_with_acl ::
  "'c cidr_ops \<Rightarrow> acl_clock \<Rightarrow> filter_env \<Rightarrow> zc_packet \<Rightarrow> bool \<Rightarrow> 'c acl_filter \<Rightarrow> (bool \<times> 'c acl_filter) option" where
  "process_packet_with_acl ops clk env packet is_in f =
     (if \<not> af_enabled f then Some (True, f)
      else do {
        hdr \<leftarrow> peer_manager_header packet;
        if packet_type hdr \<noteq> packet_kind_u8 Pkt_Data then Some (True, f)
        else do {
          info \<leftarrow> extract_packet_info env packet is_in;
          (case info of
             None \<Rightarrow> Some (True, f)
           | Some (pkt, can_use) \<Rightarrow> do {
               let t = classify_chain_type env is_in pkt;
               (r, p) \<leftarrow> process_packet ops clk pkt t (af_processor f);
               let f = f\<lparr>af_processor := handle_acl_result r t p\<rparr>;
               (if re_action r \<noteq> Action_Drop then
                  Some (True, if t = Outbound \<and> can_use
                              then f\<lparr>af_records := kv_put (new_from_outbound_packet pkt) (ck_instant clk) (af_records f)\<rparr>
                              else f)
                else if is_in \<and> can_use \<and> kv_get (af_records f) (new_from_inbound_packet pkt) \<noteq> None then
                  Some (True, f\<lparr>af_records := kv_put (new_from_inbound_packet pkt) (ck_instant clk) (af_records f)\<rparr>)
                else Some (False, f)) }) } })"

record acl_stats =
  as_global :: "(string, u64) kvs"
  as_conn_track :: "conn_track_entry list"
  as_rules :: "rule_stats list"

definition filter_get_stats :: "'c acl_filter \<Rightarrow> acl_stats" where
  "filter_get_stats f =
     (let p = af_processor f; (conn_track, _, _) = get_shared_state p
      in \<lparr>as_global = get_stats p, as_conn_track = map snd conn_track, as_rules = get_rules_stats p\<rparr>)"

section \<open>What can happen to a filter\<close>

datatype filter_event =
    Filter_Packet acl_clock filter_env zc_packet bool
  | Filter_Reload "acl_config option"
  | Filter_Record_Tick nat
  | Filter_Cache_Tick nat nat
  | Filter_Conn_Tick u64

inductive filter_reach :: "'c cidr_ops \<Rightarrow> nat \<Rightarrow> (filter_event \<times> bool) list \<Rightarrow> 'c acl_filter \<Rightarrow> bool" for ops where
  fresh: "filter_reach ops now [] (filter_new ops)"
| packet: "filter_reach ops now tr f \<Longrightarrow> now \<le> ck_instant clk
    \<Longrightarrow> process_packet_with_acl ops clk env packet is_in f = Some (v, f')
    \<Longrightarrow> filter_reach ops (ck_instant clk) ((Filter_Packet clk env packet is_in, v) # tr) f'"
| reload: "filter_reach ops now tr f \<Longrightarrow> filter_reach ops now ((Filter_Reload cfg, True) # tr) (reload_rules ops cfg f)"
| record_tick: "filter_reach ops now tr f \<Longrightarrow> now \<le> t
    \<Longrightarrow> filter_reach ops t ((Filter_Record_Tick t, True) # tr) (record_tick t f)"
| cache_tick: "filter_reach ops now tr f \<Longrightarrow> now \<le> a \<Longrightarrow> a \<le> b \<Longrightarrow> b < a + secs 5
    \<Longrightarrow> filter_reach ops b ((Filter_Cache_Tick a b, True) # tr)
          (f\<lparr>af_processor := cache_cleanup_tick a b (af_processor f)\<rparr>)"
| conn_tick: "filter_reach ops now tr f
    \<Longrightarrow> filter_reach ops now ((Filter_Conn_Tick c, True) # tr) (f\<lparr>af_processor := conn_cleanup_tick c (af_processor f)\<rparr>)"

inductive_cases filter_reach_packetE: "filter_reach ops now ((Filter_Packet clk env packet is_in, v) # tr) f'"

section \<open>The filter keeps its processor sound\<close>

definition filter_inv :: "'c cidr_ops \<Rightarrow> nat \<Rightarrow> 'c acl_filter \<Rightarrow> bool" where
  "filter_inv ops now f \<longleftrightarrow> acl_inv ports_fit ops now (af_processor f) \<and> kv_ok (af_records f)"

lemma extract_total:
  assumes "peer_manager_header packet = Some hdr"
  shows "\<exists>info. extract_packet_info env packet is_in = Some info"
proof -
  obtain pl where "payload packet = Some pl" using header_payload [OF assms] by blast
  moreover obtain r where "parse_ip_packet pl = Some r" using parse_ip_packet_inside [of pl] by blast
  ultimately show ?thesis by (simp add: extract_packet_info_def)
qed

text \<open>The parser gives ports exactly to the protocols that have them.\<close>

lemma extract_ports_fit: "extract_packet_info env packet is_in = Some (Some (pkt, can_use)) \<Longrightarrow> ports_fit pkt"
  by (auto simp: extract_packet_info_def parse_transport_ports_def ports_fit_def acl_protocol_def ip_proto_defs
      split: Option.bind_splits if_splits)

lemma acl_inv_increment [simp]: "acl_inv Q ops now (increment_stat k p) = acl_inv Q ops now p"
proof -
  have "config_of (increment_stat k p) = config_of p" by simp
  note same = config_determines [OF this]
  show ?thesis
    unfolding acl_inv_def heap_ok_def entry_ok_def same by simp
qed

lemma handle_acl_result_frame [simp]:
  "acl_inv Q ops now (handle_acl_result r t p) = acl_inv Q ops now p"
  "config_of (handle_acl_result r t p) = config_of p"
  by (simp_all add: handle_acl_result_def Let_def split: action.split)

text \<open>A packet that the rules judge: the verdict and the change of the records.\<close>

lemma filter_step:
  assumes inv: "filter_inv ops now f" "now \<le> ck_instant clk"
    and on: "af_enabled f" "peer_manager_header packet = Some hdr" "packet_type hdr = packet_kind_u8 Pkt_Data"
    and info: "extract_packet_info env packet is_in = Some (Some (pkt, can_use))"
    and t: "t = classify_chain_type env is_in pkt"
  shows "\<exists>r p'. (r = acl_decision ops (af_processor f) t pkt \<or> rate_limited ops (af_processor f) t pkt \<and> limit_dropped r)
      \<and> acl_inv ports_fit ops (ck_instant clk) p' \<and> config_of p' = config_of (af_processor f)
      \<and> process_packet_with_acl ops clk env packet is_in f = Some
          (if re_action r \<noteq> Action_Drop then
             (True, if t = Outbound \<and> can_use
                    then f\<lparr>af_processor := p', af_records := kv_put (new_from_outbound_packet pkt) (ck_instant clk) (af_records f)\<rparr>
                    else f\<lparr>af_processor := p'\<rparr>)
           else if is_in \<and> can_use \<and> kv_get (af_records f) (new_from_inbound_packet pkt) \<noteq> None then
             (True, f\<lparr>af_processor := p', af_records := kv_put (new_from_inbound_packet pkt) (ck_instant clk) (af_records f)\<rparr>)
           else (False, f\<lparr>af_processor := p'\<rparr>))"
proof -
  have q: "ports_fit pkt" by (rule extract_ports_fit [OF info])
  have "acl_inv ports_fit ops now (af_processor f)" using inv(1) by (simp add: filter_inv_def)
  from process_packet_keeps [OF this inv(2) q, of t] obtain r p' where
    run: "process_packet ops clk pkt t (af_processor f) = Some (r, p')"
      "acl_inv ports_fit ops (ck_instant clk) p'" "config_of p' = config_of (af_processor f)"
      "answers ports_fit ops (af_processor f) (pkt, t) r"
    unfolding keeps_def by blast
  from answers_exact [OF run(4)] q
  have "r = acl_decision ops (af_processor f) t pkt \<or> rate_limited ops (af_processor f) t pkt \<and> limit_dropped r"
    by simp
  then show ?thesis
    using run on info unfolding t
    by (intro exI [of _ r] exI [of _ "handle_acl_result r t p'"])
      (simp add: process_packet_with_acl_def t Let_def del: not_None_eq)
qed

text \<open>All other packets pass and change nothing.\<close>

lemma filter_pass:
  assumes "peer_manager_header packet = Some hdr"
    and "\<not> (af_enabled f \<and> packet_type hdr = packet_kind_u8 Pkt_Data
            \<and> (\<exists>pkt can_use. extract_packet_info env packet is_in = Some (Some (pkt, can_use))))"
  shows "process_packet_with_acl ops clk env packet is_in f = Some (True, f)"
proof -
  obtain info where "extract_packet_info env packet is_in = Some info" using extract_total [OF assms(1)] by blast
  with assms show ?thesis
    by (cases info) (auto simp: process_packet_with_acl_def)
qed

lemma acl_inv_later: "acl_inv Q ops now p \<Longrightarrow> now \<le> now' \<Longrightarrow> acl_inv Q ops now' p"
  using inv_parts [of Q ops now p] by (intro acl_inv_step [of Q ops now p now']) auto

lemma filter_inv_packet:
  assumes inv: "filter_inv ops now f" "now \<le> ck_instant clk"
    and run: "process_packet_with_acl ops clk env packet is_in f = Some (v, f')"
  shows "filter_inv ops (ck_instant clk) f'"
proof (cases "\<exists>hdr pkt can_use. peer_manager_header packet = Some hdr \<and> af_enabled f
    \<and> packet_type hdr = packet_kind_u8 Pkt_Data \<and> extract_packet_info env packet is_in = Some (Some (pkt, can_use))")
  case True
  then obtain hdr pkt can_use where "af_enabled f" "peer_manager_header packet = Some hdr"
    "packet_type hdr = packet_kind_u8 Pkt_Data" "extract_packet_info env packet is_in = Some (Some (pkt, can_use))"
    by blast
  from filter_step [OF inv this refl] run inv(1) show ?thesis
    by (auto simp: filter_inv_def split: if_splits)
next
  case False
  have "v \<and> f' = f"
  proof (cases "peer_manager_header packet")
    case None
    with run show ?thesis by (simp add: process_packet_with_acl_def split: if_splits)
  next
    case (Some hdr)
    with filter_pass [OF Some, of f env is_in ops clk] False run show ?thesis by auto
  qed
  then show ?thesis using inv acl_inv_later by (auto simp: filter_inv_def)
qed

lemma filter_inv_reload:
  assumes "filter_inv ops now f"
  shows "filter_inv ops now (reload_rules ops cfg f)"
proof (cases cfg)
  case (Some c)
  have "acl_inv ports_fit ops now (new_with_shared_state ops c (Some (ap_conn_track (af_processor f)))
      (Some (ap_rate_limiters (af_processor f))) (Some (ap_stats (af_processor f))))"
    using assms by (intro acl_inv_new) (simp add: filter_inv_def acl_inv_def)
  with Some show ?thesis by (auto simp: reload_rules_def get_shared_state_def filter_inv_def Let_def)
qed (use assms in \<open>auto simp: reload_rules_def filter_inv_def\<close>)

lemma filter_reach_inv: "filter_reach ops now tr f \<Longrightarrow> filter_inv ops now f"
proof (induction rule: filter_reach.induct)
  case (fresh now)
  show ?case by (auto simp: filter_inv_def filter_new_def processor_new_def acl_inv_new)
next
  case (packet now tr f clk env packet is_in v f')
  then show ?case by (blast intro: filter_inv_packet)
next
  case (reload now tr f cfg)
  then show ?case by (blast intro: filter_inv_reload)
next
  case (record_tick now tr f t)
  then show ?case by (auto simp: filter_inv_def record_tick_def intro: acl_inv_later)
next
  case (cache_tick now tr f a b)
  then show ?case by (simp add: filter_inv_def) (blast intro: cache_tick_keeps(1))
next
  case (conn_tick now tr f c)
  then show ?case by (simp add: filter_inv_def conn_tick_keeps)
qed

section \<open>Properties\<close>

lemma filter_step_verdict:
  assumes "filter_inv ops now f" "now \<le> ck_instant clk"
    and "af_enabled f" "peer_manager_header packet = Some hdr" "packet_type hdr = packet_kind_u8 Pkt_Data"
    and "extract_packet_info env packet is_in = Some (Some (pkt, can_use))"
  shows "\<exists>r f'. (r = acl_decision ops (af_processor f) (classify_chain_type env is_in pkt) pkt
        \<or> rate_limited ops (af_processor f) (classify_chain_type env is_in pkt) pkt \<and> limit_dropped r)
      \<and> process_packet_with_acl ops clk env packet is_in f = Some
          (re_action r \<noteq> Action_Drop \<or> is_in \<and> can_use \<and> new_from_inbound_packet pkt \<in> kv_keys (af_records f), f')"
proof -
  obtain r p' where r: "r = acl_decision ops (af_processor f) (classify_chain_type env is_in pkt) pkt
        \<or> rate_limited ops (af_processor f) (classify_chain_type env is_in pkt) pkt \<and> limit_dropped r"
    and run: "process_packet_with_acl ops clk env packet is_in f = Some
          (if re_action r \<noteq> Action_Drop then
             (True, if classify_chain_type env is_in pkt = Outbound \<and> can_use
                    then f\<lparr>af_processor := p', af_records := kv_put (new_from_outbound_packet pkt) (ck_instant clk) (af_records f)\<rparr>
                    else f\<lparr>af_processor := p'\<rparr>)
           else if is_in \<and> can_use \<and> kv_get (af_records f) (new_from_inbound_packet pkt) \<noteq> None then
             (True, f\<lparr>af_processor := p', af_records := kv_put (new_from_inbound_packet pkt) (ck_instant clk) (af_records f)\<rparr>)
           else (False, f\<lparr>af_processor := p'\<rparr>))"
    using filter_step [OF assms refl] by blast
  show ?thesis
    by (rule exI [of _ r]) (use r in \<open>auto simp: run kv_keys_get\<close>)
qed

text \<open>
  C19: The filter judges every packet of every history without a panic, and its verdict is exact. A packet
  passes when the filter is off, when it is not a data packet and when it cannot be parsed. Otherwise the
  first matching rule of its chain, or the chain's default, decides; a packet of a rate limited rule may also
  be dropped by the limit. A dropped packet passes only if it comes in, may use a record and the record
  of an outbound packet in the opposite direction exists.
\<close>

theorem filter_verdict_exact:
  assumes "filter_reach ops now tr f" "now \<le> ck_instant clk" "peer_manager_header packet = Some hdr"
  shows "\<exists>v f'. process_packet_with_acl ops clk env packet is_in f = Some (v, f') \<and>
    (if af_enabled f \<and> packet_type hdr = packet_kind_u8 Pkt_Data then
       case the (extract_packet_info env packet is_in) of
         None \<Rightarrow> v
       | Some (pkt, can_use) \<Rightarrow>
           let t = classify_chain_type env is_in pkt; P = af_processor f;
               reply = (is_in \<and> can_use \<and> new_from_inbound_packet pkt \<in> kv_keys (af_records f))
           in v = (re_action (acl_decision ops P t pkt) \<noteq> Action_Drop \<or> reply)
              \<or> rate_limited ops P t pkt \<and> v = reply
     else v)"
proof (cases "af_enabled f \<and> packet_type hdr = packet_kind_u8 Pkt_Data
    \<and> (\<exists>pkt can_use. extract_packet_info env packet is_in = Some (Some (pkt, can_use)))")
  case True
  then obtain pkt can_use where on: "af_enabled f" "packet_type hdr = packet_kind_u8 Pkt_Data"
    and info: "extract_packet_info env packet is_in = Some (Some (pkt, can_use))" by blast
  from filter_step_verdict [OF filter_reach_inv [OF assms(1)] assms(2) on(1) assms(3) on(2) info] on info show ?thesis
    by (auto simp: Let_def limit_dropped_def)
next
  case False
  from filter_pass [OF assms(3) False] extract_total [OF assms(3), of env is_in] False show ?thesis
    by (auto split: option.splits)
qed

text \<open>An outbound packet has passed that asks for the reply \<open>rec\<close>, after the last reload.\<close>

fun requested :: "outbound_allow_record \<Rightarrow> (filter_event \<times> bool) list \<Rightarrow> bool" where
  "requested rec [] = False"
| "requested rec ((ev, v) # tr) =
     (case ev of
        Filter_Packet clk env packet is_in \<Rightarrow>
          \<not> is_in \<and> v \<and> (\<exists>pkt. extract_packet_info env packet False = Some (Some (pkt, True))
                             \<and> new_from_outbound_packet pkt = rec)
          \<or> requested rec tr
      | Filter_Reload cfg \<Rightarrow> False
      | _ \<Rightarrow> requested rec tr)"

lemma classify_outbound: "classify_chain_type env is_in pkt = Outbound \<longleftrightarrow> \<not> is_in"
  by (simp add: classify_chain_type_def Let_def)

lemma packet_records:
  assumes inv: "filter_inv ops now f" "now \<le> ck_instant clk"
    and run: "process_packet_with_acl ops clk env packet is_in f = Some (v, f')"
    and rec: "rec \<in> kv_keys (af_records f')" "rec \<notin> kv_keys (af_records f)"
  shows "\<not> is_in \<and> v \<and> (\<exists>pkt. extract_packet_info env packet False = Some (Some (pkt, True))
           \<and> new_from_outbound_packet pkt = rec)"
proof (cases "\<exists>hdr pkt can_use. peer_manager_header packet = Some hdr \<and> af_enabled f
    \<and> packet_type hdr = packet_kind_u8 Pkt_Data \<and> extract_packet_info env packet is_in = Some (Some (pkt, can_use))")
  case True
  then obtain hdr pkt can_use where on: "af_enabled f" "peer_manager_header packet = Some hdr"
    "packet_type hdr = packet_kind_u8 Pkt_Data" "extract_packet_info env packet is_in = Some (Some (pkt, can_use))"
    by blast
  from filter_step [OF inv on refl] run rec on(4) show ?thesis
    by (auto simp: kv_keys_get classify_outbound split: if_splits)
next
  case False
  have "f' = f"
  proof (cases "peer_manager_header packet")
    case None
    with run show ?thesis by (simp add: process_packet_with_acl_def split: if_splits)
  next
    case (Some hdr)
    with filter_pass [OF Some, of f env is_in ops clk] False run show ?thesis by auto
  qed
  with rec show ?thesis by simp
qed

lemma records_requested:
  "filter_reach ops now tr f \<Longrightarrow> rec \<in> kv_keys (af_records f) \<Longrightarrow> requested rec tr"
proof (induction arbitrary: rec rule: filter_reach.induct)
  case (fresh now)
  then show ?case by (simp add: filter_new_def kv_keys_def)
next
  case (packet now tr f clk env packet is_in v f')
  from packet_records [OF filter_reach_inv [OF packet.hyps(1)] packet.hyps(2,3)] packet.IH packet.prems show ?case
    by auto
next
  case (reload now tr f cfg)
  then show ?case by (auto simp: reload_rules_def kv_keys_def Let_def case_prod_beta split: option.splits)
next
  case (record_tick now tr f t)
  have "kv_ok (af_records f)" using filter_reach_inv [OF record_tick.hyps(1)] by (simp add: filter_inv_def)
  then have "rec \<in> kv_keys (af_records f)"
    using record_tick.prems by (auto simp: record_tick_def kv_keys_get kvm.get_retain)
  with record_tick.IH show ?case by simp
qed auto

text \<open>
  C20: Return traffic needs a request. Whenever a filter lets an inbound packet pass although the decision of
  its rules is to drop it, an outbound packet in exactly the opposite direction, with the same protocol and
  swapped addresses and ports, has passed earlier and no reload has happened since.
\<close>

theorem reply_needs_request:
  assumes "filter_reach ops now tr f" "now \<le> ck_instant clk"
    and "process_packet_with_acl ops clk env packet True f = Some (True, f')"
    and "af_enabled f" "peer_manager_header packet = Some hdr" "packet_type hdr = packet_kind_u8 Pkt_Data"
    and "extract_packet_info env packet True = Some (Some (pkt, can_use))"
    and "re_action (acl_decision ops (af_processor f) (classify_chain_type env True pkt) pkt) = Action_Drop"
  shows "requested (new_from_inbound_packet pkt) tr"
proof -
  from filter_step [OF filter_reach_inv [OF assms(1)] assms(2,4,5,6,7) refl] assms(3,8)
  have "new_from_inbound_packet pkt \<in> kv_keys (af_records f)"
    by (auto simp: kv_keys_get limit_dropped_def split: if_splits)
  with records_requested [OF assms(1)] show ?thesis .
qed


section \<open>A concrete exchange\<close>

text \<open>A datagram from 10.0.0.9 port 1000 to 10.0.0.5 port 2000 and its reply, with the rules of \<open>toy_acl\<close>.\<close>

definition toy_bytes :: "u8 \<Rightarrow> u8 \<Rightarrow> u8 \<Rightarrow> u8 \<Rightarrow> u8 \<Rightarrow> u8 \<Rightarrow> bytes" where
  "toy_bytes s d p1 p2 q1 q2 =
     [0x45, 0, 0, 28, 0, 0, 0, 0, 64, 17, 0, 0, 10, 0, 0, s, 10, 0, 0, d, p1, p2, q1, q2, 0, 8, 0, 0]"

definition toy_zc :: "bytes \<Rightarrow> zc_packet" where
  "toy_zc pl = new_from_buf (pm_header_bytes sample_header @ pl) DummyTunnel"

definition toy_filter_env :: filter_env where
  "toy_filter_env = \<lparr>fe_my_ipv4 = Some 0x0A000009, fe_is_local_ipv6 = (\<lambda>_. False), fe_get_peer_groups = (\<lambda>_. [])\<rparr>"

definition toy_info :: "u8 \<Rightarrow> u8 \<Rightarrow> u16 \<Rightarrow> u16 \<Rightarrow> packet_info" where
  "toy_info s d p q = \<lparr>pi_src_ip = V4 (0x0A000000 + ucast s), pi_dst_ip = V4 (0x0A000000 + ucast d),
     pi_src_port = Some p, pi_dst_port = Some q, pi_protocol = Protocol_Udp, pi_packet_size = 28,
     pi_src_groups = [], pi_dst_groups = []\<rparr>"

lemma toy_zc_layout: "packet_layout (toy_zc pl) [] sample_header pl"
  by (simp add: packet_layout_def toy_zc_def new_from_buf_def)

lemma toy_request: "extract_packet_info toy_filter_env (toy_zc (toy_bytes 9 5 3 0xE8 7 0xD0)) is_in = Some (Some (toy_info 9 5 1000 2000, True))"
  by (simp add: extract_packet_info_def layout_payload [OF toy_zc_layout] parse_ip_packet_def parse_ipv4_packet_def
      toy_bytes_def Let_def u16_at_def u16_of_be_def u32_of_be_def nat_of_be_def slice_def toy_info_def
      parse_transport_ports_def ip_proto_defs acl_protocol_def can_use_allow_record_def get_src_peer_id_def get_dst_peer_id_def
      layout_header [OF toy_zc_layout] toy_filter_env_def)

lemma toy_reply: "extract_packet_info toy_filter_env (toy_zc (toy_bytes 5 9 7 0xD0 3 0xE8)) is_in = Some (Some (toy_info 5 9 2000 1000, True))"
  by (simp add: extract_packet_info_def layout_payload [OF toy_zc_layout] parse_ip_packet_def parse_ipv4_packet_def
      toy_bytes_def Let_def u16_at_def u16_of_be_def u32_of_be_def nat_of_be_def slice_def toy_info_def
      parse_transport_ports_def ip_proto_defs acl_protocol_def can_use_allow_record_def get_src_peer_id_def get_dst_peer_id_def
      layout_header [OF toy_zc_layout] toy_filter_env_def)

definition toy_filter :: "u32 acl_filter" where
  "toy_filter = reload_rules toy_ops (Some toy_acl) (filter_new toy_ops)"

abbreviation toy_out :: zc_packet where "toy_out \<equiv> toy_zc (toy_bytes 9 5 3 0xE8 7 0xD0)"
abbreviation toy_in :: zc_packet where "toy_in \<equiv> toy_zc (toy_bytes 5 9 7 0xD0 3 0xE8)"
abbreviation toy_clock :: "nat \<Rightarrow> acl_clock" where "toy_clock n \<equiv> \<lparr>ck_instant = n, ck_unix = 0\<rparr>"

lemma toy_reach: "filter_reach toy_ops 0 [(Filter_Reload (Some toy_acl), True)] toy_filter"
  unfolding toy_filter_def by (intro filter_reach.intros)

lemma toy_hdr: "peer_manager_header (toy_zc pl) = Some sample_header" "packet_type sample_header = packet_kind_u8 Pkt_Data"
  by (rule layout_header [OF toy_zc_layout]) (simp add: sample_header_def filled_header_def)

lemma toy_filter_simps: "af_enabled toy_filter" "af_records toy_filter = []" "af_processor toy_filter = toy_processor"
  by (simp_all add: toy_filter_def reload_rules_def filter_new_def processor_new_def acl_default_def get_shared_state_def
      new_with_shared_state_def Let_def case_prod_beta)

lemma toy_chains:
  "classify_chain_type toy_filter_env False pkt = Outbound" "classify_chain_type toy_filter_env True (toy_info 5 9 2000 1000) = Inbound"
  by (simp_all add: classify_chain_type_def toy_filter_env_def toy_info_def)

lemma toy_out_decision:
  "re_action (acl_decision toy_ops toy_processor Outbound pkt) = Action_Allow" "\<not> rate_limited toy_ops toy_processor Outbound pkt"
proof -
  have "chain_rules Outbound toy_processor = Some []" "default_action Outbound toy_processor = Action_Allow"
    by (simp_all add: chain_rules_def default_action_def new_with_shared_state_def toy_acl_def build_rules_def
        build_default_actions_def default_action_of_def chain_type_of_i32_def Let_def case_prod_beta)
  then show "re_action (acl_decision toy_ops toy_processor Outbound pkt) = Action_Allow"
    "\<not> rate_limited toy_ops toy_processor Outbound pkt"
    by (simp_all add: acl_decision_def rate_limited_def first_match_def)
qed

lemma toy_in_decision:
  "re_action (acl_decision toy_ops toy_processor Inbound (toy_info 5 9 2000 1000)) = Action_Drop"
proof -
  have "\<not> rule_matches toy_ops r (toy_info 5 9 2000 1000)" if "r \<in> set toy_fast_rules" for r
    using that by (auto simp: toy_fast_rules_def convert_to_fast_lookup_rule_def toy_rule_def rule_matches_iff
        toy_info_def toy_ops_def convert_ip_inet_to_cidr_def cidr_matches_def)
  then have "first_match toy_ops toy_fast_rules (toy_info 5 9 2000 1000) = None"
    by (auto simp: first_match_def find_None_iff)
  moreover have "default_action Inbound toy_processor = Action_Drop"
    by (simp add: default_action_def new_with_shared_state_def toy_acl_def build_default_actions_def
        default_action_of_def action_of_i32_def Let_def case_prod_beta)
  ultimately show ?thesis by (simp add: acl_decision_def toy_chain Let_def)
qed

text \<open>The request passes and leaves a record and the same rules.\<close>

lemma toy_request_passes:
  "\<exists>f1. process_packet_with_acl toy_ops (toy_clock 1) toy_filter_env toy_out False toy_filter = Some (True, f1)
     \<and> kv_get (af_records f1) (new_from_outbound_packet (toy_info 9 5 1000 2000)) = Some 1 \<and> af_enabled f1
     \<and> config_of (af_processor f1) = config_of toy_processor"
proof -
  let ?run = "process_packet_with_acl toy_ops (toy_clock 1) toy_filter_env toy_out False toy_filter"
  have "\<exists>p'. ?run = Some (True, toy_filter\<lparr>af_processor := p',
      af_records := kv_put (new_from_outbound_packet (toy_info 9 5 1000 2000)) 1 (af_records toy_filter)\<rparr>)
      \<and> config_of p' = config_of toy_processor"
    using filter_step [OF filter_reach_inv [OF toy_reach] _ toy_filter_simps(1) toy_hdr toy_request [of False] refl, of "toy_clock 1"]
    unfolding toy_filter_simps(3) toy_chains by (auto simp: toy_out_decision)
  then obtain p' where "?run = Some (True, toy_filter\<lparr>af_processor := p',
      af_records := kv_put (new_from_outbound_packet (toy_info 9 5 1000 2000)) 1 (af_records toy_filter)\<rparr>)"
    "config_of p' = config_of toy_processor"
    by blast
  then show ?thesis by (simp add: toy_filter_simps(1))
qed

lemma toy_mirror: "new_from_inbound_packet (toy_info 5 9 2000 1000) = new_from_outbound_packet (toy_info 9 5 1000 2000)"
  by (simp add: new_from_inbound_packet_def new_from_outbound_packet_def toy_info_def)

theorem filter_verdict_exact_witness:
  "\<exists>f1 f2. process_packet_with_acl toy_ops (toy_clock 1) toy_filter_env toy_out False toy_filter = Some (True, f1)
     \<and> process_packet_with_acl toy_ops (toy_clock 1) toy_filter_env toy_in True toy_filter = Some (False, f2)"
proof -
  from filter_verdict_exact [OF toy_reach _ toy_hdr(1), of "toy_clock 1" toy_filter_env "toy_bytes 9 5 3 0xE8 7 0xD0" False]
  have "\<exists>f1. process_packet_with_acl toy_ops (toy_clock 1) toy_filter_env toy_out False toy_filter = Some (True, f1)"
    by (auto simp: toy_filter_simps toy_hdr(2) toy_request toy_chains toy_out_decision)
  moreover from filter_verdict_exact [OF toy_reach _ toy_hdr(1), of "toy_clock 1" toy_filter_env "toy_bytes 5 9 7 0xD0 3 0xE8" True]
  have "\<exists>f2. process_packet_with_acl toy_ops (toy_clock 1) toy_filter_env toy_in True toy_filter = Some (False, f2)"
    by (auto simp: toy_filter_simps toy_hdr(2) toy_reply toy_chains toy_in_decision kv_keys_def)
  ultimately show ?thesis by blast
qed

theorem reply_needs_request_witness:
  "\<exists>f1 f2. process_packet_with_acl toy_ops (toy_clock 1) toy_filter_env toy_out False toy_filter = Some (True, f1)
     \<and> process_packet_with_acl toy_ops (toy_clock 2) toy_filter_env toy_in True f1 = Some (True, f2)
     \<and> requested (new_from_inbound_packet (toy_info 5 9 2000 1000))
         [(Filter_Packet (toy_clock 1) toy_filter_env toy_out False, True), (Filter_Reload (Some toy_acl), True)]"
proof -
  from toy_request_passes obtain f1 where
    f1: "process_packet_with_acl toy_ops (toy_clock 1) toy_filter_env toy_out False toy_filter = Some (True, f1)"
    and rec: "kv_get (af_records f1) (new_from_outbound_packet (toy_info 9 5 1000 2000)) = Some 1"
    and en: "af_enabled f1" and cfg: "config_of (af_processor f1) = config_of toy_processor"
    by blast
  have reach: "filter_reach toy_ops 1 [(Filter_Packet (toy_clock 1) toy_filter_env toy_out False, True), (Filter_Reload (Some toy_acl), True)] f1"
    using filter_reach.packet [OF toy_reach _ f1] by simp
  obtain f2 where f2: "process_packet_with_acl toy_ops (toy_clock 2) toy_filter_env toy_in True f1 = Some (True, f2)"
    using filter_step_verdict [OF filter_reach_inv [OF reach] _ en toy_hdr toy_reply [of True], of "toy_clock 2"] rec
    by (auto simp: toy_mirror kv_keys_get)
  have "re_action (acl_decision toy_ops (af_processor f1) (classify_chain_type toy_filter_env True (toy_info 5 9 2000 1000))
      (toy_info 5 9 2000 1000)) = Action_Drop"
    unfolding toy_chains config_determines(6) [OF cfg] by (rule toy_in_decision)
  from reply_needs_request [OF reach _ f2 en toy_hdr toy_reply this] f1 f2 show ?thesis by simp
qed


end
