(* ===== verification/RouteTypes.thy ===== *)
theory RouteTypes
  imports Prelude
begin

text \<open>
  Messages of the route exchange (\<^verbatim>\<open>peer_rpc.proto\<close>, \<^verbatim>\<open>common.proto\<close>) and the data of a route table
  (\<^verbatim>\<open>peers/route/peer_ospf_route.rs\<close>). A timestamp is a number, an enumeration an \<^verbatim>\<open>i32\<close>, a \<^verbatim>\<open>BTreeSet\<close> of
  peers a list in ascending order.
\<close>

record feature_flag =
  ff_is_public_server :: bool
  ff_avoid_relay_data :: bool
  ff_kcp_input :: bool
  ff_no_relay_kcp :: bool
  ff_support_conn_list_sync :: bool
  ff_quic_input :: bool
  ff_no_relay_quic :: bool
  ff_is_credential_peer :: bool
  ff_need_p2p :: bool
  ff_disable_p2p :: bool
  ff_ipv6_public_addr_provider :: bool

record ipv6_inet =
  ii_address :: "128 word option"
  ii_network_length :: u32

record trusted_credential_pubkey =
  tc_pubkey :: bytes
  tc_groups :: "string list"
  tc_allow_relay :: bool
  tc_expiry_unix :: int
  tc_allowed_proxy_cidrs :: "string list"
  tc_reusable :: "bool option"

record trusted_credential_proof =
  tp_credential :: "trusted_credential_pubkey option"
  tp_credential_hmac :: bytes

record peer_group_info =
  pg_group_name :: string
  pg_group_proof :: bytes

record route_peer_info =
  rp_peer_id :: peer_id
  rp_inst_id :: "128 word option"
  rp_cost :: u32
  rp_ipv4_addr :: "u32 option"
  rp_proxy_cidrs :: "string list"
  rp_hostname :: "string option"
  rp_udp_nat_type :: int
  rp_last_update :: "nat option"
  rp_version :: version
  rp_easytier_version :: string
  rp_feature_flag :: "feature_flag option"
  rp_peer_route_id :: u64
  rp_network_length :: u32
  rp_quic_port :: "u32 option"
  rp_ipv6_addr :: "ipv6_inet option"
  rp_groups :: "peer_group_info list"
  rp_tcp_nat_type :: int
  rp_noise_static_pubkey :: bytes
  rp_trusted_credential_pubkeys :: "trusted_credential_proof list"
  rp_ipv6_public_addr_prefix :: "ipv6_inet option"
  rp_ipv6_public_addr_lease :: "ipv6_inet option"

definition new_route_peer_info_with_version :: "string \<Rightarrow> route_peer_info" where
  "new_route_peer_info_with_version easytier_version =
     \<lparr>rp_peer_id = 0, rp_inst_id = Some 0, rp_cost = 0, rp_ipv4_addr = None, rp_proxy_cidrs = [], rp_hostname = None,
      rp_udp_nat_type = 0, rp_last_update = None, rp_version = 0, rp_easytier_version = easytier_version,
      rp_feature_flag = None, rp_peer_route_id = 0, rp_network_length = 24, rp_quic_port = None, rp_ipv6_addr = None,
      rp_groups = [], rp_tcp_nat_type = 0, rp_noise_static_pubkey = [], rp_trusted_credential_pubkeys = [],
      rp_ipv6_public_addr_prefix = None, rp_ipv6_public_addr_lease = None\<rparr>"

record peer_id_version =
  pv_peer_id :: peer_id
  pv_version :: version

record route_conn_bitmap =
  cb_peer_ids :: "peer_id_version list"
  cb_bitmap :: bytes

record peer_conn_info =
  pc_peer_id :: "peer_id_version option"
  pc_connected_peer_ids :: "peer_id list"

type_synonym route_conn_peer_list = "peer_conn_info list"

datatype conn_info = ConnBitmap route_conn_bitmap | ConnPeerList route_conn_peer_list

record foreign_network_key =
  fk_peer_id :: peer_id
  fk_network_name :: string

record foreign_network_entry =
  fn_foreign_peer_ids :: "peer_id list"
  fn_last_update :: "nat option"
  fn_version :: version
  fn_network_secret_digest :: bytes
  fn_my_peer_id_for_this_network :: peer_id

type_synonym foreign_network_infos = "(foreign_network_key option \<times> foreign_network_entry option) list"

section \<open>Snapshots and tables\<close>

record ospf_peer_info =
  oi_peer_id :: peer_id
  oi_info :: route_peer_info

record ospf_peer_conn_info =
  oc_peer_id :: peer_id
  oc_connected_peers :: "peer_id list"

record route_snapshot =
  rs_peer_infos :: "ospf_peer_info list"
  rs_conn_map :: "ospf_peer_conn_info list"
  rs_suppressed_peer_ids :: "peer_id list"
  rs_version :: version

record next_hop_info =
  nh_next_hop_peer_id :: peer_id
  nh_path_latency :: int
  nh_path_len :: nat
  nh_version :: version

datatype next_hop_policy = LeastHop | LeastCost

record 'c route_table =
  rt_peer_infos :: "(peer_id, route_peer_info) kvs"
  rt_next_hop_map :: "(peer_id, next_hop_info) kvs"
  rt_suppressed_peer_ids :: "(peer_id, unit) kvs"
  rt_ipv4_peer_id_map :: "(u32, peer_id_version) kvs"
  rt_ipv6_peer_id_map :: "(128 word, peer_id_version) kvs"
  rt_cidr_peer_id_map :: "('c, peer_id_version) kvs"
  rt_cidr_v6_peer_id_map :: "('c, peer_id_version) kvs"
  rt_next_hop_map_version :: version

text \<open>What the code uses of the \<^verbatim>\<open>cidr\<close> and \<^verbatim>\<open>prefix-trie\<close> crates.\<close>

record 'c net_ops =
  no_from_str :: "string \<Rightarrow> 'c ip_cidr option"
  no_first_address :: "'c \<Rightarrow> nat"
  no_last_address :: "'c \<Rightarrow> nat"
  no_host_v4 :: "u32 \<Rightarrow> 'c"
  no_host_v6 :: "128 word \<Rightarrow> 'c"
  no_get_lpm :: "('c, peer_id_version) kvs \<Rightarrow> 'c \<Rightarrow> ('c \<times> peer_id_version) option"

end
