(* ===== verification/RouteTable.thy ===== *)
theory RouteTable
  imports RouteTypes GraphAlgo
begin

text \<open>
  The route table that is computed from a snapshot of the peers and their connections
  (\<^verbatim>\<open>OspfRouteTable\<close> in \<^verbatim>\<open>peers/route/peer_ospf_route.rs\<close>).

    \<^item> A graph of \<^verbatim>\<open>petgraph\<close> is the list of its node weights, so that a node index is a position, and the list
      of its edges in the order of insertion. The edges of a node are visited newest first.
    \<^item> \<^verbatim>\<open>petgraph::dijkstra\<close>, which counts the hops, is the argument \<open>dij\<close>; \<open>shortest_law\<close> says what it returns.
      The heap of the search with first hops is the argument \<open>pop\<close> of \<open>GraphAlgo\<close>.
    \<^item> \<open>cost\<close> is \<^verbatim>\<open>calculate_cost\<close> of the cost calculator, an \<^verbatim>\<open>i32\<close>. Costs are \<^verbatim>\<open>usize\<close> and wrap around.
    \<^item> Outer \<^const>\<open>None\<close> is a panic of one of the \<^verbatim>\<open>unwrap\<close> calls.
\<close>

section \<open>Versions and networks\<close>

definition AVOID_RELAY_COST :: nat where "AVOID_RELAY_COST = 2 ^ 31 - 1"

definition version_inc :: "version \<Rightarrow> version" where "version_inc v = v + 1"

definition set_if_larger :: "version \<Rightarrow> version \<Rightarrow> version \<times> bool" where
  "set_if_larger new v = (max v new, v < new)"

definition cidr_is_subset :: "'c net_ops \<Rightarrow> 'c ip_cidr \<Rightarrow> 'c ip_cidr \<Rightarrow> bool" where
  "cidr_is_subset ops child parent =
     (case (child, parent) of
        (Cidr_V4 c, Cidr_V4 p) \<Rightarrow>
          no_first_address ops p \<le> no_first_address ops c \<and> no_last_address ops c \<le> no_last_address ops p
      | (Cidr_V6 c, Cidr_V6 p) \<Rightarrow>
          no_first_address ops p \<le> no_first_address ops c \<and> no_last_address ops c \<le> no_last_address ops p
      | _ \<Rightarrow> False)"

definition cidr_is_subset_str :: "'c net_ops \<Rightarrow> string \<Rightarrow> string \<Rightarrow> bool" where
  "cidr_is_subset_str ops child parent =
     (case no_from_str ops child of
        None \<Rightarrow> False
      | Some c \<Rightarrow> (case no_from_str ops parent of None \<Rightarrow> False | Some p \<Rightarrow> cidr_is_subset ops c p))"

section \<open>Looking up routes\<close>

definition table_new :: "'c route_table" where
  "table_new = \<lparr>rt_peer_infos = [], rt_next_hop_map = [], rt_suppressed_peer_ids = [], rt_ipv4_peer_id_map = [],
     rt_ipv6_peer_id_map = [], rt_cidr_peer_id_map = [], rt_cidr_v6_peer_id_map = [], rt_next_hop_map_version = 0\<rparr>"

definition get_topology_next_hop :: "'c route_table \<Rightarrow> peer_id \<Rightarrow> next_hop_info option" where
  "get_topology_next_hop t dst =
     (case kv_get (rt_next_hop_map t) dst of
        None \<Rightarrow> None
      | Some x \<Rightarrow> if rt_next_hop_map_version t \<le> nh_version x then Some x else None)"

definition get_next_hop :: "'c route_table \<Rightarrow> peer_id \<Rightarrow> next_hop_info option" where
  "get_next_hop t dst =
     (if kv_get (rt_suppressed_peer_ids t) dst \<noteq> None then None else get_topology_next_hop t dst)"

definition peer_reachable :: "'c route_table \<Rightarrow> peer_id \<Rightarrow> bool" where
  "peer_reachable t p = (get_next_hop t p \<noteq> None)"

definition topology_peer_reachable :: "'c route_table \<Rightarrow> peer_id \<Rightarrow> bool" where
  "topology_peer_reachable t p = (get_topology_next_hop t p \<noteq> None)"

definition table_get_peer_info :: "'c route_table \<Rightarrow> peer_id \<Rightarrow> route_peer_info option" where
  "table_get_peer_info t p = kv_get (rt_peer_infos t) p"

definition get_peer_id_by_ipv4 :: "'c route_table \<Rightarrow> u32 \<Rightarrow> peer_id option" where
  "get_peer_id_by_ipv4 t a = map_option pv_peer_id (kv_get (rt_ipv4_peer_id_map t) a)"

definition get_peer_id_by_ipv6 :: "'c route_table \<Rightarrow> 128 word \<Rightarrow> peer_id option" where
  "get_peer_id_by_ipv6 t a = map_option pv_peer_id (kv_get (rt_ipv6_peer_id_map t) a)"

definition get_peer_id_for_proxy :: "'c net_ops \<Rightarrow> 'c route_table \<Rightarrow> ip_addr \<Rightarrow> peer_id option" where
  "get_peer_id_for_proxy ops t ip =
     (case ip of
        V4 a \<Rightarrow> map_option (\<lambda>x. pv_peer_id (snd x)) (no_get_lpm ops (rt_cidr_peer_id_map t) (no_host_v4 ops a))
      | V6 a \<Rightarrow> map_option (\<lambda>x. pv_peer_id (snd x)) (no_get_lpm ops (rt_cidr_v6_peer_id_map t) (no_host_v6 ops a)))"

definition list_proxy_cidrs_excluding :: "'c route_table \<Rightarrow> peer_id \<Rightarrow> 'c list" where
  "list_proxy_cidrs_excluding t p = map fst (filter (\<lambda>(_, pv). pv_peer_id pv \<noteq> p) (rt_cidr_peer_id_map t))"

definition list_proxy_cidrs_v6_excluding :: "'c route_table \<Rightarrow> peer_id \<Rightarrow> 'c list" where
  "list_proxy_cidrs_v6_excluding t p = map fst (filter (\<lambda>(_, pv). pv_peer_id pv \<noteq> p) (rt_cidr_v6_peer_id_map t))"

section \<open>The graph of a snapshot\<close>

definition lookup_peer_infos :: "route_snapshot \<Rightarrow> (peer_id, route_peer_info) kvs" where
  "lookup_peer_infos s = fold (\<lambda>e. kv_put (oi_peer_id e) (oi_info e)) (rs_peer_infos s) []"

definition lookup_conn_map :: "route_snapshot \<Rightarrow> (peer_id, peer_id list) kvs" where
  "lookup_conn_map s = fold (\<lambda>e. kv_put (oc_peer_id e) (oc_connected_peers e)) (rs_conn_map s) []"

definition connected_peers :: "route_snapshot \<Rightarrow> peer_id \<Rightarrow> peer_id list" where
  "connected_peers s p = (case kv_get (lookup_conn_map s) p of Some ps \<Rightarrow> ps | None \<Rightarrow> [])"

definition get_avoid_relay_data :: "route_snapshot \<Rightarrow> peer_id \<Rightarrow> bool" where
  "get_avoid_relay_data s p =
     (case kv_get (lookup_peer_infos s) p \<bind> rp_feature_flag of
        Some f \<Rightarrow> ff_avoid_relay_data f
      | None \<Rightarrow> False)"

record peer_graph =
  gr_nodes :: "peer_id list"
  gr_edges :: "(nat \<times> nat \<times> nat) list"

definition add_node :: "ospf_peer_info \<Rightarrow> peer_id list \<times> (peer_id, nat) kvs \<Rightarrow> peer_id list \<times> (peer_id, nat) kvs" where
  "add_node e st =
     (if rp_version (oi_info e) = 0 then st
      else (fst st @ [oi_peer_id e], kv_put (oi_peer_id e) (length (fst st)) (snd st)))"

definition link_cost :: "(peer_id \<Rightarrow> peer_id \<Rightarrow> int) \<Rightarrow> route_snapshot \<Rightarrow> peer_id \<Rightarrow> peer_id \<Rightarrow> nat" where
  "link_cost cost s src dst =
     (let c = nat (cost src dst mod 2 ^ 64)
      in if get_avoid_relay_data s src then (c + AVOID_RELAY_COST) mod 2 ^ 64 else c)"

definition edges_of_node ::
  "peer_id \<Rightarrow> route_snapshot \<Rightarrow> (peer_id \<Rightarrow> peer_id \<Rightarrow> int) \<Rightarrow> (peer_id, nat) kvs \<Rightarrow> peer_id \<times> nat \<Rightarrow> (nat \<times> nat \<times> nat) list" where
  "edges_of_node me s cost idx x =
     (let (src, i) = x in
      if src \<noteq> me \<and> src \<in> set (rs_suppressed_peer_ids s) then []
      else List.map_filter (\<lambda>dst. map_option (\<lambda>j. (i, j, link_cost cost s src dst)) (kv_get idx dst)) (connected_peers s src))"

text \<open>The second component is the start node; \<^const>\<open>None\<close> is \<^verbatim>\<open>NodeIndex::end()\<close>.\<close>

definition build_peer_graph_from_snapshot ::
  "peer_id \<Rightarrow> route_snapshot \<Rightarrow> (peer_id \<Rightarrow> peer_id \<Rightarrow> int) \<Rightarrow> peer_graph \<times> nat option" where
  "build_peer_graph_from_snapshot me s cost =
     (let (nodes, idx) = fold add_node (rs_peer_infos s) ([], [])
      in case kv_get idx me of
           None \<Rightarrow> (\<lparr>gr_nodes = nodes, gr_edges = []\<rparr>, None)
         | Some start \<Rightarrow> (\<lparr>gr_nodes = nodes, gr_edges = concat (map (edges_of_node me s cost idx) idx)\<rparr>, Some start))"

definition out_edges :: "peer_graph \<Rightarrow> nat \<Rightarrow> (nat \<times> nat) list" where
  "out_edges g v = map snd (filter (\<lambda>e. fst e = v) (rev (gr_edges g)))"

section \<open>Building the table\<close>

definition put_next_hop :: "peer_id \<Rightarrow> next_hop_info \<Rightarrow> (peer_id, next_hop_info) kvs \<Rightarrow> (peer_id, next_hop_info) kvs" where
  "put_next_hop p info m =
     (case kv_get m p of
        Some x \<Rightarrow> if nh_version x < nh_version info then kv_put p info m else m
      | None \<Rightarrow> kv_put p info m)"

fun install_next_hops ::
  "peer_graph \<Rightarrow> (nat, nat) kvs \<Rightarrow> version \<Rightarrow> (nat, nat \<times> nat) kvs \<Rightarrow> (peer_id, next_hop_info) kvs
    \<Rightarrow> (peer_id, next_hop_info) kvs option" where
  "install_next_hops g costs ver [] m = Some m"
| "install_next_hops g costs ver ((dst, next_hop, path_len) # hops) m = do {
     next_id \<leftarrow> nth_opt (gr_nodes g) next_hop;
     c \<leftarrow> kv_get costs dst;
     dst_id \<leftarrow> nth_opt (gr_nodes g) dst;
     install_next_hops g costs ver hops
       (put_next_hop dst_id
          \<lparr>nh_next_hop_peer_id = next_id, nh_path_latency = int (c mod AVOID_RELAY_COST),
           nh_path_len = path_len, nh_version = ver\<rparr> m) }"

definition gen_next_hop_map_with_least_cost ::
  "(nat min_scored list \<Rightarrow> (nat min_scored \<times> nat min_scored list) option) \<Rightarrow> peer_graph \<Rightarrow> nat \<Rightarrow> version
    \<Rightarrow> 'c route_table \<Rightarrow> 'c route_table option" where
  "gen_next_hop_map_with_least_cost pop g start ver t =
     (if nth_opt (gr_nodes g) start = None then Some t
      else do {
        (costs, hops) \<leftarrow> dijkstra_with_first_hop pop (out_edges g) start;
        m \<leftarrow> install_next_hops g costs ver hops (rt_next_hop_map t);
        Some (t\<lparr>rt_next_hop_map := m,
                rt_next_hop_map_version := fst (set_if_larger ver (rt_next_hop_map_version t))\<rparr>) })"

definition normalize_edge_cost :: "nat \<Rightarrow> nat" where
  "normalize_edge_cost c = (if AVOID_RELAY_COST \<le> c then AVOID_RELAY_COST + 1 else 1)"

definition normalized_edges :: "peer_graph \<Rightarrow> nat \<Rightarrow> (nat \<times> nat) list" where
  "normalized_edges g v = map (\<lambda>(y, c). (y, normalize_edge_cost c)) (out_edges g v)"

definition shortest_hop_edge :: "(nat \<rightharpoonup> nat) \<Rightarrow> nat \<times> nat \<times> nat \<Rightarrow> bool" where
  "shortest_hop_edge path_len e =
     (let (src, tgt, c) = e in
      case path_len src of
        None \<Rightarrow> False
      | Some a \<Rightarrow>
          (case path_len tgt of
             None \<Rightarrow> False
           | Some b \<Rightarrow> (a + normalize_edge_cost c) mod 2 ^ 64 = b))"

definition gen_next_hop_map_with_least_hop ::
  "((nat \<Rightarrow> (nat \<times> nat) list) \<Rightarrow> nat \<Rightarrow> (nat \<rightharpoonup> nat)) \<Rightarrow> (nat min_scored list \<Rightarrow> (nat min_scored \<times> nat min_scored list) option)
    \<Rightarrow> peer_graph \<Rightarrow> nat \<Rightarrow> version \<Rightarrow> 'c route_table \<Rightarrow> 'c route_table option" where
  "gen_next_hop_map_with_least_hop dij pop g start ver t =
     (if nth_opt (gr_nodes g) start = None then Some t
      else
        let path_len = dij (normalized_edges g) start;
            subgraph = \<lparr>gr_nodes = gr_nodes g, gr_edges = filter (shortest_hop_edge path_len) (gr_edges g)\<rparr>
        in gen_next_hop_map_with_least_cost pop subgraph start ver t)"

definition sync_suppressed_peer_ids :: "route_snapshot \<Rightarrow> 'c route_table \<Rightarrow> 'c route_table" where
  "sync_suppressed_peer_ids s t =
     t\<lparr>rt_suppressed_peer_ids :=
         fold (\<lambda>p. kv_put p ()) (rs_suppressed_peer_ids s)
           (kv_retain (\<lambda>p _. p \<in> set (rs_suppressed_peer_ids s)) (rt_suppressed_peer_ids t))\<rparr>"

definition clean_expired_route_info :: "'c route_table \<Rightarrow> 'c route_table" where
  "clean_expired_route_info t =
     (let t = t\<lparr>rt_next_hop_map := kv_retain (\<lambda>_ v. rt_next_hop_map_version t \<le> nh_version v) (rt_next_hop_map t)\<rparr>;
          t = t\<lparr>rt_peer_infos := kv_retain (\<lambda>k _. peer_reachable t k) (rt_peer_infos t)\<rparr>;
          t = t\<lparr>rt_ipv4_peer_id_map := kv_retain (\<lambda>_ v. peer_reachable t (pv_peer_id v)) (rt_ipv4_peer_id_map t)\<rparr>
      in t\<lparr>rt_ipv6_peer_id_map := kv_retain (\<lambda>_ v. peer_reachable t (pv_peer_id v)) (rt_ipv6_peer_id_map t)\<rparr>)"

definition is_new_peer_better :: "'c route_table \<Rightarrow> peer_id_version \<Rightarrow> next_hop_info \<Rightarrow> peer_id_version \<Rightarrow> bool" where
  "is_new_peer_better t new new_hop old =
     (if pv_version old < pv_version new then True
      else if pv_peer_id new = pv_peer_id old then False
      else case get_next_hop t (pv_peer_id old) of
             None \<Rightarrow> True
           | Some old_hop \<Rightarrow> nh_path_len new_hop < nh_path_len old_hop)"

definition put_better :: "(peer_id_version \<Rightarrow> bool) \<Rightarrow> 'k \<Rightarrow> peer_id_version \<Rightarrow> ('k, peer_id_version) kvs \<Rightarrow> ('k, peer_id_version) kvs" where
  "put_better better k new m =
     (case kv_get m k of
        Some old \<Rightarrow> if better old then kv_put k new m else m
      | None \<Rightarrow> kv_put k new m)"

text \<open>The two prefix maps under construction travel with the table.\<close>

type_synonym 'c tries = "('c, peer_id_version) kvs \<times> ('c, peer_id_version) kvs"

definition add_proxy_cidr ::
  "'c net_ops \<Rightarrow> peer_id \<Rightarrow> 'c ip_cidr list \<Rightarrow> (peer_id_version \<Rightarrow> bool) \<Rightarrow> peer_id_version \<Rightarrow> string \<Rightarrow> 'c tries \<Rightarrow> 'c tries" where
  "add_proxy_cidr ops me local_cidrs better new text tries =
     (case no_from_str ops text of
        None \<Rightarrow> tries
      | Some cidr \<Rightarrow>
          if pv_peer_id new \<noteq> me \<and> list_ex (\<lambda>l. cidr_is_subset ops cidr l) local_cidrs then tries
          else (case cidr of
              Cidr_V4 c \<Rightarrow> (put_better (\<lambda>e. pv_peer_id new = me \<or> better e) c new (fst tries), snd tries)
            | Cidr_V6 c \<Rightarrow> (fst tries, put_better (\<lambda>e. pv_peer_id new = me \<or> better e) c new (snd tries))))"

definition install_peer ::
  "'c net_ops \<Rightarrow> peer_id \<Rightarrow> route_snapshot \<Rightarrow> 'c ip_cidr list \<Rightarrow> peer_id \<times> next_hop_info \<Rightarrow> 'c route_table \<times> 'c tries
    \<Rightarrow> 'c route_table \<times> 'c tries" where
  "install_peer ops me s local_cidrs item st =
     (let (p, hop) = item; (t, tries) = st in
      if nh_version hop < rs_version s then st
      else if \<not> peer_reachable t p then st
      else case kv_get (lookup_peer_infos s) p of
          None \<Rightarrow> st
        | Some info \<Rightarrow>
            let new = \<lparr>pv_peer_id = p, pv_version = rs_version s\<rparr>;
                better = is_new_peer_better t new hop;
                t = t\<lparr>rt_peer_infos := kv_put p info (rt_peer_infos t)\<rparr>;
                t = (case rp_ipv4_addr info of
                       Some a \<Rightarrow> t\<lparr>rt_ipv4_peer_id_map := put_better better a new (rt_ipv4_peer_id_map t)\<rparr>
                     | None \<Rightarrow> t);
                t = (case rp_ipv6_addr info \<bind> ii_address of
                       Some a \<Rightarrow> t\<lparr>rt_ipv6_peer_id_map := put_better better a new (rt_ipv6_peer_id_map t)\<rparr>
                     | None \<Rightarrow> t);
                t = (case rp_ipv6_public_addr_lease info \<bind> ii_address of
                       Some a \<Rightarrow> t\<lparr>rt_ipv6_peer_id_map := put_better better a new (rt_ipv6_peer_id_map t)\<rparr>
                     | None \<Rightarrow> t)
            in (t, fold (add_proxy_cidr ops me local_cidrs better new) (rp_proxy_cidrs info) tries))"

definition local_proxy_cidrs :: "'c net_ops \<Rightarrow> peer_id \<Rightarrow> route_snapshot \<Rightarrow> 'c ip_cidr list" where
  "local_proxy_cidrs ops me s =
     (case kv_get (lookup_peer_infos s) me of
        None \<Rightarrow> []
      | Some info \<Rightarrow> List.map_filter (no_from_str ops) (rp_proxy_cidrs info))"

definition raise_version :: "version \<Rightarrow> 'c route_table \<Rightarrow> 'c route_table" where
  "raise_version ver t = t\<lparr>rt_next_hop_map_version := fst (set_if_larger ver (rt_next_hop_map_version t))\<rparr>"

definition build_from_snapshot ::
  "'c net_ops \<Rightarrow> ((nat \<Rightarrow> (nat \<times> nat) list) \<Rightarrow> nat \<Rightarrow> (nat \<rightharpoonup> nat))
    \<Rightarrow> (nat min_scored list \<Rightarrow> (nat min_scored \<times> nat min_scored list) option)
    \<Rightarrow> peer_id \<Rightarrow> route_snapshot \<Rightarrow> next_hop_policy \<Rightarrow> (peer_id \<Rightarrow> peer_id \<Rightarrow> int) \<Rightarrow> 'c route_table \<Rightarrow> 'c route_table option" where
  "build_from_snapshot ops dij pop me s policy cost t =
     (let ver = rs_version s;
          t = sync_suppressed_peer_ids s t;
          (g, start) = build_peer_graph_from_snapshot me s cost
      in if gr_nodes g = [] then Some (clean_expired_route_info (raise_version ver t))
         else case start of
             None \<Rightarrow> Some (clean_expired_route_info (raise_version ver t))
           | Some start \<Rightarrow> do {
               t \<leftarrow> (case policy of
                      LeastHop \<Rightarrow> gen_next_hop_map_with_least_hop dij pop g start ver t
                    | LeastCost \<Rightarrow> gen_next_hop_map_with_least_cost pop g start ver t);
               let (t, trie, trie_v6) = fold (install_peer ops me s (local_proxy_cidrs ops me s)) (rt_next_hop_map t) (t, [], []);
               Some (clean_expired_route_info (t\<lparr>rt_cidr_peer_id_map := trie, rt_cidr_v6_peer_id_map := trie_v6\<rparr>)) })"

section \<open>The graph in terms of peers\<close>

definition known :: "route_snapshot \<Rightarrow> peer_id list" where
  "known s = map oi_peer_id (filter (\<lambda>e. rp_version (oi_info e) \<noteq> 0) (rs_peer_infos s))"

text \<open>The links a route of \<open>me\<close> may use: a suppressed peer is not used as a relay.\<close>

definition route_edges :: "peer_id \<Rightarrow> route_snapshot \<Rightarrow> (peer_id \<Rightarrow> peer_id \<Rightarrow> int) \<Rightarrow> peer_id \<Rightarrow> (peer_id \<times> nat) list" where
  "route_edges me s cost p =
     (if p \<in> set (known s) \<and> (p = me \<or> p \<notin> set (rs_suppressed_peer_ids s))
      then map (\<lambda>q. (q, link_cost cost s p q)) (filter (\<lambda>q. q \<in> set (known s)) (connected_peers s p))
      else [])"

lemma kv_put_new: "k \<notin> fst ` set m \<Longrightarrow> kv_put k v m = m @ [(k, v)]"
  by (induction m) (auto simp: kv_put_def)

lemma fold_add_node:
  assumes "distinct (map oi_peer_id es)" "fst ` set idx \<inter> oi_peer_id ` set es = {}" "idx = zip nodes [0..<length nodes]"
  shows "\<exists>nodes'. nodes' = nodes @ map oi_peer_id (filter (\<lambda>e. rp_version (oi_info e) \<noteq> 0) es)
           \<and> fold add_node es (nodes, idx) = (nodes', zip nodes' [0..<length nodes'])"
  using assms
proof (induction es arbitrary: nodes idx)
  case (Cons e es)
  show ?case
  proof (cases "rp_version (oi_info e) = 0")
    case True
    then show ?thesis using Cons by (simp add: add_node_def)
  next
    case False
    let ?nodes = "nodes @ [oi_peer_id e]"
    have "add_node e (nodes, idx) = (?nodes, zip ?nodes [0..<length ?nodes])"
      using False Cons.prems(2,3) by (simp add: add_node_def kv_put_new)
    moreover have "fst ` set (zip ?nodes [0..<length ?nodes]) \<inter> oi_peer_id ` set es = {}"
      using Cons.prems by (fastforce simp: image_iff)
    ultimately show ?thesis using Cons.IH [of "zip ?nodes [0..<length ?nodes]" ?nodes] Cons.prems(1) False by simp
  qed
qed simp

lemma in_set_map_filter: "x \<in> set (List.map_filter f xs) \<longleftrightarrow> (\<exists>y \<in> set xs. f y = Some x)"
  by (force simp: List.map_filter_def)

lemma kv_get_zip_upt:
  assumes "distinct xs"
  shows "kv_get (zip xs [0..<length xs]) x = Some i \<longleftrightarrow> i < length xs \<and> xs ! i = x"
proof -
  have "kv_get (zip xs [0..<length xs]) x = Some i \<longleftrightarrow> (x, i) \<in> set (zip xs [0..<length xs])"
    using assms by (simp add: kv_get_def)
  also have "\<dots> \<longleftrightarrow> i < length xs \<and> xs ! i = x" by (auto simp: in_set_zip)
  finally show ?thesis .
qed

text \<open>A snapshot that lists every peer once, with room for the sums of costs.\<close>

definition snapshot_ok :: "route_snapshot \<Rightarrow> (peer_id \<Rightarrow> peer_id \<Rightarrow> int) \<Rightarrow> bool" where
  "snapshot_ok s cost \<longleftrightarrow>
     distinct (map oi_peer_id (rs_peer_infos s)) \<and> length (rs_peer_infos s) < 2 ^ 31
     \<and> (\<forall>p q. 0 \<le> cost p q \<and> cost p q < 2 ^ 31)"

lemma known_facts:
  assumes "snapshot_ok s cost"
  shows "distinct (known s)" "length (known s) < 2 ^ 31"
proof -
  show "distinct (known s)"
    using assms by (auto simp: snapshot_ok_def known_def distinct_map_filter)
  have "length (known s) \<le> length (rs_peer_infos s)" by (simp add: known_def)
  with assms show "length (known s) < 2 ^ 31" by (simp add: snapshot_ok_def)
qed

lemma link_cost_bound:
  assumes "snapshot_ok s cost"
  shows "link_cost cost s p q < 2 ^ 32"
proof -
  have c: "0 \<le> cost p q" "cost p q < 2 ^ 31" using assms by (simp_all add: snapshot_ok_def)
  then have "cost p q mod 2 ^ 64 = cost p q" by simp
  with c have "nat (cost p q mod 2 ^ 64) < 2 ^ 31" by (simp add: nat_less_iff)
  then show ?thesis
    by (simp add: link_cost_def Let_def AVOID_RELAY_COST_def)
qed

lemma edges_of_node_iff:
  assumes "snapshot_ok s cost"
  defines "idx \<equiv> zip (known s) [0..<length (known s)]"
  shows "(a, b, c) \<in> set (concat (map (edges_of_node me s cost idx) idx)) \<longleftrightarrow>
    a < length (known s) \<and> b < length (known s) \<and> (known s ! b, c) \<in> set (route_edges me s cost (known s ! a))"
proof -
  note get = kv_get_zip_upt [OF known_facts(1) [OF assms(1)], folded idx_def]
  have item: "(a, b, c) \<in> set (edges_of_node me s cost idx (p, i)) \<longleftrightarrow>
      a = i \<and> (p = me \<or> p \<notin> set (rs_suppressed_peer_ids s))
      \<and> (\<exists>q \<in> set (connected_peers s p). b < length (known s) \<and> known s ! b = q \<and> c = link_cost cost s p q)" for p i
    by (auto simp: edges_of_node_def in_set_map_filter get)
  have "(a, b, c) \<in> set (concat (map (edges_of_node me s cost idx) idx)) \<longleftrightarrow>
      (\<exists>p i. (p, i) \<in> set idx \<and> (a, b, c) \<in> set (edges_of_node me s cost idx (p, i)))"
    by fastforce
  moreover have "(p, i) \<in> set idx \<longleftrightarrow> i < length (known s) \<and> known s ! i = p" for p i
    by (auto simp: idx_def in_set_zip)
  ultimately show ?thesis
    unfolding item by (auto simp: route_edges_def)
qed

lemma graph_of_snapshot:
  assumes ok: "snapshot_ok s cost" and me: "me \<in> set (known s)"
  shows "\<exists>g start. build_peer_graph_from_snapshot me s cost = (g, Some start)
    \<and> gr_nodes g = known s \<and> start < length (known s) \<and> known s ! start = me
    \<and> (\<forall>a b c. (a, b, c) \<in> set (gr_edges g) \<longleftrightarrow>
         a < length (known s) \<and> b < length (known s) \<and> (known s ! b, c) \<in> set (route_edges me s cost (known s ! a)))"
proof -
  let ?idx = "zip (known s) [0..<length (known s)]"
  have f: "fold add_node (rs_peer_infos s) ([], []) = (known s, ?idx)"
    using fold_add_node [of "rs_peer_infos s" "[]" "[]"] ok by (simp add: snapshot_ok_def known_def)
  obtain i where i: "i < length (known s)" "known s ! i = me" using me by (auto simp: in_set_conv_nth)
  then have "kv_get ?idx me = Some i" by (simp add: kv_get_zip_upt known_facts(1) [OF ok])
  then show ?thesis
    using i f edges_of_node_iff [OF ok, of _ _ _ me] by (auto simp: build_peer_graph_from_snapshot_def)
qed

lemma out_edges_iff: "(y, c) \<in> set (out_edges g v) \<longleftrightarrow> (v, y, c) \<in> set (gr_edges g)"
  by (force simp: out_edges_def)

text \<open>Renaming the nodes of a walk.\<close>

lemma walk_rename:
  assumes "walk E s p v w" "s \<in> V" "\<And>v y c. v \<in> V \<Longrightarrow> (y, c) \<in> set (E v) \<Longrightarrow> y \<in> V \<and> (f y, c) \<in> set (E' (f v))"
  shows "v \<in> V \<and> set p \<subseteq> V \<and> walk E' (f s) (map f p) (f v) w"
  using assms(1)
proof (induction rule: walk.induct)
  case walk_nil
  then show ?case using assms(2) by (auto intro: walk.walk_nil)
next
  case (walk_snoc p v w x c)
  with assms(3) [of v x c] show ?case by (auto intro: walk.walk_snoc)
qed

lemma walk_lift:
  assumes "walk E' (f s) q u w" "s \<in> V" "\<And>v y c. v \<in> V \<Longrightarrow> (y, c) \<in> set (E' (f v)) \<Longrightarrow> \<exists>x \<in> V. y = f x \<and> (x, c) \<in> set (E v)"
  shows "\<exists>p v. v \<in> V \<and> u = f v \<and> q = map f p \<and> walk E s p v w"
  using assms(1)
proof (induction rule: walk.induct)
  case walk_nil
  show ?case using assms(2) by (intro exI [of _ "[]"] exI [of _ s]) (simp add: walk_start)
next
  case (walk_snoc q u w y c)
  then obtain p v where v: "v \<in> V" "u = f v" "q = map f p" "walk E s p v w" by blast
  with assms(3) [of v y c] walk_snoc.hyps(2) obtain x where "x \<in> V" "y = f x" "(x, c) \<in> set (E v)" by auto
  with v show ?case by (intro exI [of _ "p @ [x]"] exI [of _ x]) (auto intro: walk.walk_snoc)
qed

section \<open>Installing next hops\<close>

text \<open>The maps have one entry per key, and no next hop is newer than the table.\<close>

definition table_ok :: "'c route_table \<Rightarrow> bool" where
  "table_ok t \<longleftrightarrow> kv_ok (rt_next_hop_map t) \<and> kv_ok (rt_suppressed_peer_ids t) \<and> kv_ok (rt_peer_infos t)
     \<and> kv_ok (rt_ipv4_peer_id_map t) \<and> kv_ok (rt_ipv6_peer_id_map t)
     \<and> (\<forall>p x. kv_get (rt_next_hop_map t) p = Some x \<longrightarrow> nh_version x \<le> rt_next_hop_map_version t)"

lemma kv_ok_put_next_hop: "kv_ok m \<Longrightarrow> kv_ok (put_next_hop p info m)"
  by (auto simp: put_next_hop_def split: option.splits)

definition hop_entry :: "peer_graph \<Rightarrow> (nat, nat) kvs \<Rightarrow> version \<Rightarrow> nat \<Rightarrow> nat \<times> nat \<Rightarrow> next_hop_info" where
  "hop_entry g costs ver i h =
     \<lparr>nh_next_hop_peer_id = gr_nodes g ! fst h, nh_path_latency = int (the (kv_get costs i) mod AVOID_RELAY_COST),
      nh_path_len = snd h, nh_version = ver\<rparr>"

definition outdated :: "version \<Rightarrow> (peer_id, next_hop_info) kvs \<Rightarrow> peer_id \<Rightarrow> bool" where
  "outdated ver m p \<longleftrightarrow> (\<forall>x. kv_get m p = Some x \<longrightarrow> nh_version x < ver)"

lemma get_put_next_hop:
  "kv_get (put_next_hop q info m) p =
     (if p = q \<and> outdated (nh_version info) m p then Some info else kv_get m p)"
  by (auto simp: put_next_hop_def outdated_def split: option.splits)

lemma install_total:
  assumes "\<forall>(i, h) \<in> set hops. i < length (gr_nodes g) \<and> fst h < length (gr_nodes g) \<and> kv_get costs i \<noteq> None" "kv_ok m"
  shows "\<exists>m'. install_next_hops g costs ver hops m = Some m' \<and> kv_ok m' \<and>
    (\<forall>p. kv_get m' p =
       (if outdated ver m p
        then case find (\<lambda>(i, h). gr_nodes g ! i = p) hops of
               Some (i, h) \<Rightarrow> Some (hop_entry g costs ver i h) | None \<Rightarrow> kv_get m p
        else kv_get m p))"
  using assms
proof (induction hops arbitrary: m)
  case (Cons e hops)
  obtain i h where e: "e = (i, h)" by (cases e)
  obtain c where c: "kv_get costs i = Some c" using Cons.prems(1) e by auto
  let ?m = "put_next_hop (gr_nodes g ! i) (hop_entry g costs ver i h) m"
  have ver: "nh_version (hop_entry g costs ver i h) = ver" by (simp add: hop_entry_def)
  have eq: "install_next_hops g costs ver (e # hops) m = install_next_hops g costs ver hops ?m"
    using Cons.prems(1) e c by (cases h) (auto simp: nth_opt_def hop_entry_def)
  have get: "kv_get ?m p = (if p = gr_nodes g ! i \<and> outdated ver m p then Some (hop_entry g costs ver i h) else kv_get m p)" for p
    by (simp add: get_put_next_hop ver)
  then have out: "outdated ver ?m p \<longleftrightarrow> outdated ver m p \<and> p \<noteq> gr_nodes g ! i" for p
    using ver by (auto simp: outdated_def split: if_splits)
  have "kv_ok ?m" by (rule kv_ok_put_next_hop [OF Cons.prems(2)])
  from Cons.IH [OF _ this] Cons.prems(1) obtain m' where
    m': "install_next_hops g costs ver hops ?m = Some m'" "kv_ok m'"
    "\<And>p. kv_get m' p = (if outdated ver ?m p
       then case find (\<lambda>(i, h). gr_nodes g ! i = p) hops of
              Some (i, h) \<Rightarrow> Some (hop_entry g costs ver i h) | None \<Rightarrow> kv_get ?m p
       else kv_get ?m p)"
    by auto
  show ?case
    unfolding eq using m'(1,2) by (intro exI [of _ m']) (simp add: m'(3) out get e split: option.split)
qed simp

section \<open>Routes of least cost\<close>

definition cheapest :: "('n \<Rightarrow> ('n \<times> nat) list) \<Rightarrow> 'n \<Rightarrow> 'n list \<Rightarrow> 'n \<Rightarrow> nat \<Rightarrow> bool" where
  "cheapest E s p v w \<longleftrightarrow> walk E s p v w \<and> (\<forall>q w'. walk E s q v w' \<longrightarrow> w \<le> w')"

text \<open>What the table says about a node: the start of a cheapest walk, or that there is no walk.\<close>

definition hop_info :: "version \<Rightarrow> ('n \<Rightarrow> peer_id) \<Rightarrow> 'n \<Rightarrow> 'n list \<Rightarrow> nat \<Rightarrow> next_hop_info" where
  "hop_info ver f s p w =
     \<lparr>nh_next_hop_peer_id = f (fst (hop_of s p)), nh_path_latency = int (w mod AVOID_RELAY_COST),
      nh_path_len = length p, nh_version = ver\<rparr>"

definition routed :: "version \<Rightarrow> ('n \<Rightarrow> peer_id) \<Rightarrow> ('n \<Rightarrow> ('n \<times> nat) list) \<Rightarrow> 'n \<Rightarrow> 'n \<Rightarrow> next_hop_info option \<Rightarrow> bool" where
  "routed ver f E s v r \<longleftrightarrow>
     (case r of
        Some x \<Rightarrow> \<exists>p w. cheapest E s p v w \<and> (v = s \<longrightarrow> p = []) \<and> x = hop_info ver f s p w
      | None \<Rightarrow> \<forall>p w. \<not> walk E s p v w)"

definition graph_ok :: "peer_graph \<Rightarrow> bool" where
  "graph_ok g \<longleftrightarrow> distinct (gr_nodes g) \<and> length (gr_nodes g) < 2 ^ 31 \<and>
     (\<forall>(a, b, c) \<in> set (gr_edges g). a < length (gr_nodes g) \<and> b < length (gr_nodes g) \<and> c < 2 ^ 32)"

lemma find_entry:
  assumes "distinct nodes" "i < length nodes" "\<forall>(j, h) \<in> set hops. j < length nodes"
  shows "find (\<lambda>(j, h). nodes ! j = nodes ! i) hops = map_option (\<lambda>h. (i, h)) (kv_get hops i)"
  using assms(3)
  by (induction hops) (auto simp: kv_get_def nth_eq_iff_index_eq [OF assms(1)] assms(2))

lemma walk_in:
  assumes "walk E s p v w" "s \<in> V" "\<And>v y c. v \<in> V \<Longrightarrow> (y, c) \<in> set (E v) \<Longrightarrow> y \<in> V"
  shows "v \<in> V \<and> set p \<subseteq> V"
  using assms(1) by (induction rule: walk.induct) (use assms(2,3) in auto)

lemma hop_of_in: "walk E s p v w \<Longrightarrow> s \<in> V \<Longrightarrow> (\<And>v y c. v \<in> V \<Longrightarrow> (y, c) \<in> set (E v) \<Longrightarrow> y \<in> V) \<Longrightarrow> fst (hop_of s p) \<in> V"
  using walk_in [of E s p v w V] hd_in_set [of p] by (auto simp: hop_of_def)

lemma least_cost_search:
  assumes "min_queue pop" "graph_ok g" "start < length (gr_nodes g)"
  obtains sc fh where "dijkstra_with_first_hop pop (out_edges g) start = Some (sc, fh)"
    "\<forall>(i, h) \<in> set fh. i < length (gr_nodes g) \<and> fst h < length (gr_nodes g) \<and> kv_get sc i \<noteq> None"
    "\<And>i. i < length (gr_nodes g) \<Longrightarrow>
       routed ver ((!) (gr_nodes g)) (out_edges g) start i (map_option (hop_entry g sc ver i) (kv_get fh i))"
proof -
  let ?V = "{..<length (gr_nodes g)}"
  have V: "y \<in> ?V \<and> c \<le> 2 ^ 32" if "v \<in> ?V" "(y, c) \<in> set (out_edges g v)" for v y c
    using that assms(2) by (auto simp: out_edges_iff graph_ok_def)
  have C: "card ?V * 2 ^ 32 < 2 ^ 64" using assms(2) by (simp add: graph_ok_def)
  have start: "start \<in> ?V" using assms(3) by simp
  obtain sc fh where
    run: "dijkstra_with_first_hop pop (out_edges g) start = Some (sc, fh)" and
    low: "\<And>p v w. walk (out_edges g) start p v w \<Longrightarrow> \<exists>d. kv_get sc v = Some d \<and> d \<le> w" and
    sc: "\<And>v d. kv_get sc v = Some d \<Longrightarrow> \<exists>p. walk (out_edges g) start p v d \<and> kv_get fh v = Some (hop_of start p)" and
    none: "\<And>v. kv_get sc v = None \<Longrightarrow> kv_get fh v = None" and
    at_start: "kv_get fh start = Some (start, 0)"
    by (rule min_queue.dijkstra_optimal [OF assms(1) finite_lessThan start _ C], rule V, assumption+, rule that)
  have walked: "\<exists>p d. cheapest (out_edges g) start p i d \<and> (i = start \<longrightarrow> p = []) \<and> h = hop_of start p \<and> kv_get sc i = Some d"
    if fh: "kv_get fh i = Some h" for i h
  proof -
    obtain d where d: "kv_get sc i = Some d" using none [of i] fh by fastforce
    with sc obtain p where "walk (out_edges g) start p i d" "h = hop_of start p" using fh by fastforce
    with d low have walk: "cheapest (out_edges g) start p i d" "h = hop_of start p" by (fastforce simp: cheapest_def)+
    show ?thesis
    proof (cases "i = start")
      case True
      then have "d = 0" using walk(1) walk_nil [of "out_edges g" start] by (auto simp: cheapest_def)
      with True d fh at_start show ?thesis by (auto simp: cheapest_def hop_of_def intro: walk_nil)
    qed (use d walk in blast)
  qed
  have inside: "v \<in> ?V \<and> fst (hop_of start p) \<in> ?V" if "walk (out_edges g) start p v w" for p v w
    using walk_in [OF that, of ?V] hop_of_in [OF that, of ?V] V assms(3) by auto
  have "i < length (gr_nodes g) \<and> fst h < length (gr_nodes g) \<and> kv_get sc i \<noteq> None" if "(i, h) \<in> set fh" for i h
  proof -
    have "kv_get fh i = Some h" using dijkstra_kv_ok [OF run] that by (simp add: kv_ok_def kv_get_def)
    from walked [OF this] inside show ?thesis by (auto simp: cheapest_def)
  qed
  moreover have "routed ver ((!) (gr_nodes g)) (out_edges g) start i (map_option (hop_entry g sc ver i) (kv_get fh i))" for i
  proof (cases "kv_get fh i")
    case None
    with sc low have "\<not> walk (out_edges g) start p i w" for p w by fastforce
    with None show ?thesis by (simp add: routed_def)
  next
    case (Some h)
    with walked obtain p d where "cheapest (out_edges g) start p i d" "i = start \<longrightarrow> p = []" "h = hop_of start p" "kv_get sc i = Some d" by blast
    with Some show ?thesis
      unfolding routed_def by (simp, intro exI [of _ p] exI [of _ d]) (simp add: hop_info_def hop_entry_def hop_of_def)
  qed
  ultimately show thesis by (intro that [OF run]) auto
qed

lemma least_cost_table:
  assumes "min_queue pop" "graph_ok g" "start < length (gr_nodes g)" "table_ok t" "rt_next_hop_map_version t < ver"
  shows "\<exists>m. gen_next_hop_map_with_least_cost pop g start ver t = Some (t\<lparr>rt_next_hop_map := m, rt_next_hop_map_version := ver\<rparr>)
    \<and> table_ok (t\<lparr>rt_next_hop_map := m, rt_next_hop_map_version := ver\<rparr>)
    \<and> (\<forall>i < length (gr_nodes g). routed ver ((!) (gr_nodes g)) (out_edges g) start i
         (get_topology_next_hop (t\<lparr>rt_next_hop_map := m, rt_next_hop_map_version := ver\<rparr>) (gr_nodes g ! i)))
    \<and> (\<forall>q. q \<notin> set (gr_nodes g) \<longrightarrow> get_topology_next_hop (t\<lparr>rt_next_hop_map := m, rt_next_hop_map_version := ver\<rparr>) q = None)"
proof -
  obtain sc fh where run: "dijkstra_with_first_hop pop (out_edges g) start = Some (sc, fh)"
    and bounds: "\<forall>(i, h) \<in> set fh. i < length (gr_nodes g) \<and> fst h < length (gr_nodes g) \<and> kv_get sc i \<noteq> None"
    and routes: "\<And>i. i < length (gr_nodes g) \<Longrightarrow>
       routed ver ((!) (gr_nodes g)) (out_edges g) start i (map_option (hop_entry g sc ver i) (kv_get fh i))"
    by (rule least_cost_search [OF assms(1-3), where ver = ver]) blast
  have old: "nh_version x < ver" if "kv_get (rt_next_hop_map t) p = Some x" for p x
    using that assms(4,5) by (meson le_less_trans table_ok_def)
  then have out: "outdated ver (rt_next_hop_map t) p" for p by (simp add: outdated_def)
  obtain m where m: "install_next_hops g sc ver fh (rt_next_hop_map t) = Some m" "kv_ok m"
    and get: "\<And>p. kv_get m p = (case find (\<lambda>(i, h). gr_nodes g ! i = p) fh of
         Some (i, h) \<Rightarrow> Some (hop_entry g sc ver i h) | None \<Rightarrow> kv_get (rt_next_hop_map t) p)"
    using install_total [OF bounds, of "rt_next_hop_map t" ver] assms(4) out by (auto simp: table_ok_def)
  let ?t = "t\<lparr>rt_next_hop_map := m, rt_next_hop_map_version := ver\<rparr>"
  have top: "get_topology_next_hop ?t p = map_option (\<lambda>(i, h). hop_entry g sc ver i h) (find (\<lambda>(i, h). gr_nodes g ! i = p) fh)" for p
    using old by (auto simp: get_topology_next_hop_def get hop_entry_def split: option.splits) (meson not_le)
  have "gen_next_hop_map_with_least_cost pop g start ver t = Some ?t"
    using run m(1) assms(3,5) by (simp add: gen_next_hop_map_with_least_cost_def nth_opt_def set_if_larger_def max_def)
  moreover have "table_ok ?t"
    using m(2) old assms(4) by (force simp: table_ok_def get hop_entry_def less_imp_le split: option.splits)
  moreover have "routed ver ((!) (gr_nodes g)) (out_edges g) start i (get_topology_next_hop ?t (gr_nodes g ! i))"
    if "i < length (gr_nodes g)" for i
    using routes [OF that] bounds assms(2) that
    by (subst top, subst find_entry) (auto simp: graph_ok_def option.map_comp comp_def)
  moreover have "get_topology_next_hop ?t q = None" if "q \<notin> set (gr_nodes g)" for q
    using that bounds by (fastforce simp: top find_None_iff)
  ultimately show ?thesis by blast
qed

end
