(* ===== verification/RoutePaths.thy ===== *)
theory RoutePaths
  imports RouteTable
begin

text \<open>
  The routes of the table in terms of peers: the graph of a snapshot represents the links between peers, the least-hop
  policy keeps the links of the walks with the fewest hops, and rebuilding the table from a snapshot installs a cheapest
  route to every peer that can be reached.
\<close>

section \<open>Graphs that represent links between peers\<close>

definition represents :: "peer_graph \<Rightarrow> (peer_id \<Rightarrow> (peer_id \<times> nat) list) \<Rightarrow> bool" where
  "represents g E \<longleftrightarrow> distinct (gr_nodes g)
     \<and> (\<forall>a b c. (a, b, c) \<in> set (gr_edges g) \<longleftrightarrow>
          a < length (gr_nodes g) \<and> b < length (gr_nodes g) \<and> (gr_nodes g ! b, c) \<in> set (E (gr_nodes g ! a)))
     \<and> (\<forall>p q c. p \<in> set (gr_nodes g) \<longrightarrow> (q, c) \<in> set (E p) \<longrightarrow> q \<in> set (gr_nodes g))"

lemma represents_walk:
  assumes "represents g E" "start < length (gr_nodes g)" "walk (out_edges g) start p i w"
  shows "i < length (gr_nodes g) \<and> set p \<subseteq> {..<length (gr_nodes g)}
    \<and> walk E (gr_nodes g ! start) (map ((!) (gr_nodes g)) p) (gr_nodes g ! i) w"
  using walk_rename [OF assms(3), of "{..<length (gr_nodes g)}" "(!) (gr_nodes g)" E] assms(1,2)
  by (auto simp: out_edges_iff represents_def)

lemma represents_walk_back:
  assumes rep: "represents g E" and start: "start < length (gr_nodes g)" and w: "walk E (gr_nodes g ! start) q u w"
  shows "\<exists>p i. i < length (gr_nodes g) \<and> u = gr_nodes g ! i \<and> q = map ((!) (gr_nodes g)) p \<and> walk (out_edges g) start p i w"
proof -
  have "\<exists>x \<in> {..<length (gr_nodes g)}. y = gr_nodes g ! x \<and> (x, c) \<in> set (out_edges g v)"
    if "v \<in> {..<length (gr_nodes g)}" "(y, c) \<in> set (E (gr_nodes g ! v))" for v y c
  proof -
    have "y \<in> set (gr_nodes g)" using that rep unfolding represents_def by (meson lessThan_iff nth_mem)
    then obtain x where "x < length (gr_nodes g)" "y = gr_nodes g ! x" by (auto simp: in_set_conv_nth)
    with that rep show ?thesis by (auto simp: represents_def out_edges_iff)
  qed
  with walk_lift [of E "(!) (gr_nodes g)" start q u w "{..<length (gr_nodes g)}" "out_edges g", OF w] start show ?thesis by auto
qed

lemma represents_walk_at:
  assumes "represents g E" "start < length (gr_nodes g)" "i < length (gr_nodes g)"
  shows "walk E (gr_nodes g ! start) q (gr_nodes g ! i) w \<longleftrightarrow> (\<exists>p. q = map ((!) (gr_nodes g)) p \<and> walk (out_edges g) start p i w)"
proof
  assume "walk E (gr_nodes g ! start) q (gr_nodes g ! i) w"
  from represents_walk_back [OF assms(1,2) this] obtain p j where
    "j < length (gr_nodes g)" "gr_nodes g ! i = gr_nodes g ! j" "q = map ((!) (gr_nodes g)) p" "walk (out_edges g) start p j w"
    by blast
  moreover from this have "j = i" using assms(1,3) by (simp add: represents_def nth_eq_iff_index_eq)
  ultimately show "\<exists>p. q = map ((!) (gr_nodes g)) p \<and> walk (out_edges g) start p i w" by blast
qed (use represents_walk [OF assms(1,2)] in blast)

lemma represents_cheapest:
  assumes "represents g E" "start < length (gr_nodes g)" "i < length (gr_nodes g)"
  shows "cheapest E (gr_nodes g ! start) q (gr_nodes g ! i) w \<longleftrightarrow> (\<exists>p. q = map ((!) (gr_nodes g)) p \<and> cheapest (out_edges g) start p i w)"
  unfolding cheapest_def represents_walk_at [OF assms] by blast

lemma represents_routed:
  assumes "represents g E" "start < length (gr_nodes g)" "i < length (gr_nodes g)"
    "routed ver ((!) (gr_nodes g)) (out_edges g) start i r"
  shows "routed ver id E (gr_nodes g ! start) (gr_nodes g ! i) r"
proof (cases r)
  case None
  with assms(4) show ?thesis by (simp add: routed_def represents_walk_at [OF assms(1-3)])
next
  case (Some x)
  with assms(4) obtain p w where p: "cheapest (out_edges g) start p i w" "x = hop_info ver ((!) (gr_nodes g)) start p w"
    and at_start: "i = start \<longrightarrow> p = []"
    by (auto simp: routed_def)
  let ?q = "map ((!) (gr_nodes g)) p"
  have "cheapest E (gr_nodes g ! start) ?q (gr_nodes g ! i) w"
    using p(1) represents_cheapest [OF assms(1-3)] by blast
  moreover have "x = hop_info ver id (gr_nodes g ! start) ?q w"
    by (simp add: p(2) hop_info_def hop_of_def hd_map)
  moreover have "gr_nodes g ! i = gr_nodes g ! start \<longrightarrow> ?q = []"
    using at_start assms(1-3) by (simp add: represents_def nth_eq_iff_index_eq)
  ultimately show ?thesis using Some unfolding routed_def by auto
qed

section \<open>Fewest hops first\<close>

definition hops_of :: "('n \<Rightarrow> ('n \<times> nat) list) \<Rightarrow> 'n \<Rightarrow> ('n \<times> nat) list" where
  "hops_of E v = map (\<lambda>(y, c). (y, normalize_edge_cost c)) (E v)"

definition dist :: "('n \<Rightarrow> ('n \<times> nat) list) \<Rightarrow> 'n \<Rightarrow> 'n \<Rightarrow> nat \<Rightarrow> bool" where
  "dist E s v d \<longleftrightarrow> (\<exists>p. cheapest E s p v d)"

definition tight :: "('n \<Rightarrow> ('n \<times> nat) list) \<Rightarrow> 'n \<Rightarrow> 'n \<Rightarrow> 'n \<times> nat \<Rightarrow> bool" where
  "tight E s v e \<longleftrightarrow> (\<exists>a. dist (hops_of E) s v a \<and> dist (hops_of E) s (fst e) (a + normalize_edge_cost (snd e)))"

definition tight_edges :: "('n \<Rightarrow> ('n \<times> nat) list) \<Rightarrow> 'n \<Rightarrow> 'n \<Rightarrow> ('n \<times> nat) list" where
  "tight_edges E s v = filter (tight E s v) (E v)"

lemma dist_unique: "dist E s v a \<Longrightarrow> dist E s v b \<Longrightarrow> a = b"
  by (meson cheapest_def dist_def le_antisym)

lemma dist_least: "walk E s p v w \<Longrightarrow> \<exists>d. dist E s v d \<and> d \<le> w"
proof -
  assume "walk E s p v w"
  let ?d = "LEAST d. \<exists>p. walk E s p v d"
  have le: "?d \<le> w'" if "walk E s q v w'" for q w'
    by (rule Least_le) (use that in blast)
  have "\<exists>p. walk E s p v ?d" by (rule LeastI_ex) (use \<open>walk E s p v w\<close> in blast)
  with le \<open>walk E s p v w\<close> show ?thesis unfolding dist_def cheapest_def by blast
qed

lemma dist_start: "dist E s s d \<longleftrightarrow> d = 0"
  using dist_unique [of E s s 0 d] walk_nil [of E s] by (auto simp: dist_def cheapest_def)

text \<open>The walks over tight links are the walks with the fewest hops.\<close>

lemma tight_walk:
  assumes "walk (tight_edges E s) s p v w"
  shows "walk E s p v w \<and> cheapest (hops_of E) s p v (THE d. dist (hops_of E) s v d)"
  using assms
proof (induction rule: walk.induct)
  case walk_nil
  then show ?case by (auto simp: cheapest_def dist_start intro: walk.walk_nil)
next
  case (walk_snoc p v w x c)
  then obtain a where e: "(x, c) \<in> set (E v)" and a: "dist (hops_of E) s v a" "dist (hops_of E) s x (a + normalize_edge_cost c)"
    by (auto simp: tight_edges_def tight_def)
  have the_dist: "(THE d. dist (hops_of E) s u d) = d" if "dist (hops_of E) s u d" for u d
    using that by (rule the_equality) (rule dist_unique [OF _ that])
  have "walk (hops_of E) s p v a" using walk_snoc.IH the_dist [OF a(1)] by (simp add: cheapest_def)
  then have "walk (hops_of E) s (p @ [x]) x (a + normalize_edge_cost c)"
    using e by (intro walk.walk_snoc) (auto simp: hops_of_def)
  moreover have "\<forall>q w'. walk (hops_of E) s q x w' \<longrightarrow> a + normalize_edge_cost c \<le> w'"
    using a(2) by (auto simp: dist_def cheapest_def)
  ultimately show ?case
    using walk_snoc.IH e the_dist [OF a(2)] by (auto simp: cheapest_def intro: walk.walk_snoc)
qed

lemma walk_end: "walk E s p v w \<Longrightarrow> v = last (s # p)"
  by (induction rule: walk.induct) auto

lemma walk_snocE:
  assumes "walk E s (p @ [x]) v w"
  obtains w' c where "v = x" "walk E s p (last (s # p)) w'" "(x, c) \<in> set (E (last (s # p)))" "w = w' + c"
  using assms walk_end by (cases rule: walk.cases) fastforce+

definition single_links :: "('n \<Rightarrow> ('n \<times> nat) list) \<Rightarrow> bool" where
  "single_links E \<longleftrightarrow> (\<forall>v y c c'. (y, c) \<in> set (E v) \<longrightarrow> (y, c') \<in> set (E v) \<longrightarrow> c = c')"

lemma walk_tight:
  assumes "single_links E"
    "walk E s p v w" "cheapest (hops_of E) s p v d"
  shows "walk (tight_edges E s) s p v w"
  using assms(2,3)
proof (induction p arbitrary: v w d rule: rev_induct)
  case Nil
  then show ?case by (auto simp: walk_start)
next
  case (snoc x p)
  let ?u = "last (s # p)"
  from snoc.prems(1) obtain w' c where c: "v = x" "walk E s p ?u w'" "(x, c) \<in> set (E ?u)" "w = w' + c"
    by (rule walk_snocE)
  have "walk (hops_of E) s (p @ [x]) v d" using snoc.prems(2) by (simp add: cheapest_def)
  then obtain h n where h: "walk (hops_of E) s p ?u h" "(x, n) \<in> set (hops_of E ?u)" "d = h + n"
    by (rule walk_snocE) blast
  have n: "n = normalize_edge_cost c" using h(2) c(3) assms(1) by (auto simp: hops_of_def single_links_def)
  have "h \<le> h'" if "walk (hops_of E) s q ?u h'" for q h'
  proof -
    have "walk (hops_of E) s (q @ [x]) x (h' + n)" using that h(2) by (rule walk.walk_snoc)
    with snoc.prems(2) have "d \<le> h' + n" using c(1) by (auto simp: cheapest_def)
    with h(3) show ?thesis by simp
  qed
  with h(1) have ch: "cheapest (hops_of E) s p ?u h" by (simp add: cheapest_def)
  have "tight E s ?u (x, c)"
    using ch snoc.prems(2) unfolding c(1) h(3) n tight_def dist_def fst_conv snd_conv by blast
  with c(3) have "(x, c) \<in> set (tight_edges E s ?u)" by (simp add: tight_edges_def)
  with snoc.IH [OF c(2) ch] show ?case unfolding c(1,4) by (intro walk.walk_snoc)
qed

section \<open>Path lengths\<close>

text \<open>The contract of \<^verbatim>\<open>petgraph::algo::dijkstra\<close>: the lengths of the shortest walks, when no sum overflows.\<close>

locale path_lengths =
  fixes dij :: "(nat \<Rightarrow> (nat \<times> nat) list) \<Rightarrow> nat \<Rightarrow> (nat \<rightharpoonup> nat)"
  assumes dij_dist: "finite V \<Longrightarrow> s \<in> V \<Longrightarrow> (\<And>v y c. v \<in> V \<Longrightarrow> (y, c) \<in> set (E v) \<Longrightarrow> y \<in> V \<and> c \<le> C)
    \<Longrightarrow> card V * C < 2 ^ 64 \<Longrightarrow> dij E s v = Some d \<longleftrightarrow> dist E s v d"

definition scores_of :: "(nat \<Rightarrow> (nat \<times> nat) list) \<Rightarrow> nat \<Rightarrow> (nat \<rightharpoonup> nat)" where
  "scores_of E s v = (case dijkstra_with_first_hop pop_min E s of Some (sc, _) \<Rightarrow> kv_get sc v | None \<Rightarrow> None)"

lemma scores_dist:
  assumes V: "finite V" "s \<in> V" "\<And>v y c. v \<in> V \<Longrightarrow> (y, c) \<in> set (E v) \<Longrightarrow> y \<in> V \<and> c \<le> C" and C: "card V * C < 2 ^ 64"
  shows "scores_of E s v = Some d \<longleftrightarrow> dist E s v d" and "dist E s v d \<Longrightarrow> d \<le> card V * C"
proof -
  obtain sc fh where run: "dijkstra_with_first_hop pop_min E s = Some (sc, fh)"
    and low: "\<And>p v w. walk E s p v w \<Longrightarrow> \<exists>d. kv_get sc v = Some d \<and> d \<le> w"
    and sc: "\<And>v d. kv_get sc v = Some d \<Longrightarrow> \<exists>p. walk E s p v d \<and> kv_get fh v = Some (hop_of s p)"
    and bound: "\<And>v d. kv_get sc v = Some d \<Longrightarrow> d \<le> card V * C"
    by (rule binary_heap.dijkstra_optimal [OF V(1,2) _ C], rule V(3), assumption+, rule that)
  have iff: "scores_of E s v = Some d \<longleftrightarrow> dist E s v d" for v d
  proof
    assume "scores_of E s v = Some d"
    then have d: "kv_get sc v = Some d" by (simp add: scores_of_def run)
    with sc obtain p where "walk E s p v d" by blast
    moreover have "d \<le> w" if "walk E s q v w" for q w using low [OF that] d by auto
    ultimately show "dist E s v d" unfolding dist_def cheapest_def by blast
  next
    assume "dist E s v d"
    then obtain p where p: "walk E s p v d" "\<And>q w. walk E s q v w \<Longrightarrow> d \<le> w" by (auto simp: dist_def cheapest_def)
    then obtain d' where d': "kv_get sc v = Some d'" "d' \<le> d" using low by blast
    moreover have "d \<le> d'" using sc [OF d'(1)] p(2) by blast
    ultimately show "scores_of E s v = Some d" by (simp add: scores_of_def run)
  qed
  show "scores_of E s v = Some d \<longleftrightarrow> dist E s v d" by (rule iff)
  show "d \<le> card V * C" if "dist E s v d"
    using that iff bound by (auto simp: scores_of_def run)
qed

interpretation lengths: path_lengths scores_of
  by unfold_locales (rule scores_dist)

lemma hops_of_iff: "(q, c) \<in> set (hops_of E p) \<longleftrightarrow> (\<exists>c'. (q, c') \<in> set (E p) \<and> c = normalize_edge_cost c')"
  by (force simp: hops_of_def)

lemma represents_hops:
  assumes "represents g E"
  shows "represents (g\<lparr>gr_edges := map (\<lambda>(a, b, c). (a, b, normalize_edge_cost c)) (gr_edges g)\<rparr>) (hops_of E)"
    and "out_edges (g\<lparr>gr_edges := map (\<lambda>(a, b, c). (a, b, normalize_edge_cost c)) (gr_edges g)\<rparr>) = hops_of (out_edges g)"
proof -
  let ?g = "g\<lparr>gr_edges := map (\<lambda>(a, b, c). (a, b, normalize_edge_cost c)) (gr_edges g)\<rparr>"
  have edges: "gr_edges ?g = map (\<lambda>(a, b, c). (a, b, normalize_edge_cost c)) (gr_edges g)" and nodes: "gr_nodes ?g = gr_nodes g"
    by simp_all
  have mem: "(a, b, c) \<in> set (gr_edges ?g) \<longleftrightarrow> (\<exists>c'. (a, b, c') \<in> set (gr_edges g) \<and> c = normalize_edge_cost c')" for a b c
    unfolding edges by force
  have e: "(a, b, c) \<in> set (gr_edges g) \<longleftrightarrow>
      a < length (gr_nodes g) \<and> b < length (gr_nodes g) \<and> (gr_nodes g ! b, c) \<in> set (E (gr_nodes g ! a))" for a b c
    using assms unfolding represents_def by blast
  have closed: "q \<in> set (gr_nodes g)" if "p \<in> set (gr_nodes g)" "(q, c) \<in> set (E p)" for p q c
    using assms that unfolding represents_def by blast
  show "represents ?g (hops_of E)"
    unfolding represents_def nodes
  proof (intro conjI allI impI)
    show "distinct (gr_nodes g)" using assms by (simp add: represents_def)
    show "(a, b, c) \<in> set (gr_edges ?g) \<longleftrightarrow>
        a < length (gr_nodes g) \<and> b < length (gr_nodes g) \<and> (gr_nodes g ! b, c) \<in> set (hops_of E (gr_nodes g ! a))" for a b c
      unfolding mem e hops_of_iff by blast
    show "q \<in> set (gr_nodes g)" if "p \<in> set (gr_nodes g)" "(q, c) \<in> set (hops_of E p)" for p q c
      using that closed unfolding hops_of_iff by blast
  qed
  show "out_edges (g\<lparr>gr_edges := map (\<lambda>(a, b, c). (a, b, normalize_edge_cost c)) (gr_edges g)\<rparr>) = hops_of (out_edges g)"
    by (rule ext) (simp add: out_edges_def hops_of_def filter_map rev_map comp_def case_prod_unfold)
qed

lemma represents_dist:
  assumes "represents g E" "start < length (gr_nodes g)" "i < length (gr_nodes g)"
  shows "dist (hops_of (out_edges g)) start i d \<longleftrightarrow> dist (hops_of E) (gr_nodes g ! start) (gr_nodes g ! i) d"
  using represents_cheapest [OF represents_hops(1) [OF assms(1)], of start i _ d] assms(2,3)
  unfolding represents_hops(2) [OF assms(1)] dist_def by auto

text \<open>The links the policy routes over.\<close>

definition policy_edges :: "next_hop_policy \<Rightarrow> ('n \<Rightarrow> ('n \<times> nat) list) \<Rightarrow> 'n \<Rightarrow> 'n \<Rightarrow> ('n \<times> nat) list" where
  "policy_edges policy E me = (case policy of LeastHop \<Rightarrow> tight_edges E me | LeastCost \<Rightarrow> E)"

lemma normalized_edges_hops: "normalized_edges g = hops_of (out_edges g)"
  by (rule ext) (simp add: normalized_edges_def hops_of_def)

lemma normalize_bound: "normalize_edge_cost c \<le> 2 ^ 31"
  by (simp add: normalize_edge_cost_def AVOID_RELAY_COST_def)

locale route_search = min_queue pop + path_lengths dij
  for pop :: "nat min_scored list \<Rightarrow> (nat min_scored \<times> nat min_scored list) option"
    and dij :: "(nat \<Rightarrow> (nat \<times> nat) list) \<Rightarrow> nat \<Rightarrow> (nat \<rightharpoonup> nat)"
begin

lemma shortest_hop_edge_iff:
  assumes ok: "graph_ok g" and start: "start < length (gr_nodes g)"
  shows "shortest_hop_edge (dij (normalized_edges g) start) (a, b, c) \<longleftrightarrow> tight (out_edges g) start a (b, c)"
proof -
  let ?V = "{..<length (gr_nodes g)}" and ?E = "hops_of (out_edges g)"
  have V: "y \<in> ?V \<and> c \<le> 2 ^ 31" if "v \<in> ?V" "(y, c) \<in> set (?E v)" for v y c
    using that ok normalize_bound by (auto simp: hops_of_iff out_edges_iff graph_ok_def)
  have C: "card ?V * 2 ^ 31 < 2 ^ 62" using ok by (simp add: graph_ok_def)
  then have C': "card ?V * 2 ^ 31 < 2 ^ 64" by simp
  have s: "start \<in> ?V" using start by simp
  have dij: "dij (normalized_edges g) start v = Some d \<longleftrightarrow> dist ?E start v d" for v d
    unfolding normalized_edges_hops by (rule dij_dist [OF finite_lessThan s _ C'], rule V)
  have "(x + normalize_edge_cost c) mod 2 ^ 64 = x + normalize_edge_cost c" if "dist ?E start a x" for x
  proof -
    have "x \<le> card ?V * 2 ^ 31" by (rule scores_dist(2) [OF finite_lessThan s _ C' that], rule V)
    with C normalize_bound [of c] show ?thesis by simp
  qed
  then show ?thesis
    using dij by (auto simp: shortest_hop_edge_def tight_def split: option.splits) (metis option.distinct(1) option.inject)+
qed

lemma least_hop_subgraph:
  assumes ok: "graph_ok g" and start: "start < length (gr_nodes g)" and rep: "represents g E"
  defines "sub \<equiv> \<lparr>gr_nodes = gr_nodes g, gr_edges = filter (shortest_hop_edge (dij (normalized_edges g) start)) (gr_edges g)\<rparr>"
  shows "graph_ok sub" and "represents sub (tight_edges E (gr_nodes g ! start))"
proof -
  show "graph_ok sub" using ok by (auto simp: graph_ok_def sub_def)
  have nodes: "gr_nodes sub = gr_nodes g" by (simp add: sub_def)
  have e: "(a, b, c) \<in> set (gr_edges g) \<longleftrightarrow>
      a < length (gr_nodes g) \<and> b < length (gr_nodes g) \<and> (gr_nodes g ! b, c) \<in> set (E (gr_nodes g ! a))" for a b c
    using rep unfolding represents_def by blast
  have closed: "q \<in> set (gr_nodes g)" if "p \<in> set (gr_nodes g)" "(q, c) \<in> set (E p)" for p q c
    using rep that unfolding represents_def by blast
  have mem: "(a, b, c) \<in> set (gr_edges sub) \<longleftrightarrow> (a, b, c) \<in> set (gr_edges g) \<and> tight (out_edges g) start a (b, c)" for a b c
    using shortest_hop_edge_iff [OF ok start] by (auto simp: sub_def)
  have tight: "tight (out_edges g) start a (b, c) \<longleftrightarrow> tight E (gr_nodes g ! start) (gr_nodes g ! a) (gr_nodes g ! b, c)"
    if "a < length (gr_nodes g)" "b < length (gr_nodes g)" for a b c
    using represents_dist [OF rep start that(1)] represents_dist [OF rep start that(2)] by (simp add: tight_def)
  show "represents sub (tight_edges E (gr_nodes g ! start))"
    unfolding represents_def nodes
  proof (intro conjI allI impI)
    show "distinct (gr_nodes g)" using rep by (simp add: represents_def)
    show "(a, b, c) \<in> set (gr_edges sub) \<longleftrightarrow> a < length (gr_nodes g) \<and> b < length (gr_nodes g)
        \<and> (gr_nodes g ! b, c) \<in> set (tight_edges E (gr_nodes g ! start) (gr_nodes g ! a))" for a b c
      unfolding mem e tight_edges_def using tight [of a b c] by auto
    show "q \<in> set (gr_nodes g)" if "p \<in> set (gr_nodes g)" "(q, c) \<in> set (tight_edges E (gr_nodes g ! start) p)" for p q c
      using that closed unfolding tight_edges_def by auto
  qed
qed

lemma next_hops_of_policy:
  assumes "graph_ok g" "start < length (gr_nodes g)" "represents g E" "table_ok t" "rt_next_hop_map_version t < ver"
  shows "\<exists>m. (case policy of LeastHop \<Rightarrow> gen_next_hop_map_with_least_hop dij pop g start ver t
         | LeastCost \<Rightarrow> gen_next_hop_map_with_least_cost pop g start ver t)
       = Some (t\<lparr>rt_next_hop_map := m, rt_next_hop_map_version := ver\<rparr>)
    \<and> table_ok (t\<lparr>rt_next_hop_map := m, rt_next_hop_map_version := ver\<rparr>)
    \<and> (\<forall>q. q \<in> set (gr_nodes g) \<longrightarrow> routed ver id (policy_edges policy E (gr_nodes g ! start)) (gr_nodes g ! start) q
         (get_topology_next_hop (t\<lparr>rt_next_hop_map := m, rt_next_hop_map_version := ver\<rparr>) q))
    \<and> (\<forall>q. q \<notin> set (gr_nodes g) \<longrightarrow> get_topology_next_hop (t\<lparr>rt_next_hop_map := m, rt_next_hop_map_version := ver\<rparr>) q = None)"
proof -
  define g' where "g' = (case policy of LeastCost \<Rightarrow> g
    | LeastHop \<Rightarrow> \<lparr>gr_nodes = gr_nodes g, gr_edges = filter (shortest_hop_edge (dij (normalized_edges g) start)) (gr_edges g)\<rparr>)"
  have nodes: "gr_nodes g' = gr_nodes g" by (simp add: g'_def split: next_hop_policy.splits)
  have ok: "graph_ok g'" "represents g' (policy_edges policy E (gr_nodes g ! start))"
    using least_hop_subgraph [OF assms(1-3)] assms(1,3)
    by (simp_all add: g'_def policy_edges_def split: next_hop_policy.splits)
  have run: "(case policy of LeastHop \<Rightarrow> gen_next_hop_map_with_least_hop dij pop g start ver t
      | LeastCost \<Rightarrow> gen_next_hop_map_with_least_cost pop g start ver t) = gen_next_hop_map_with_least_cost pop g' start ver t"
    using assms(2) by (simp add: g'_def gen_next_hop_map_with_least_hop_def nth_opt_def Let_def split: next_hop_policy.splits)
  have start: "start < length (gr_nodes g')" using assms(2) nodes by simp
  note routes = represents_routed [OF ok(2) start]
  show ?thesis
    unfolding run using least_cost_table [OF min_queue_axioms ok(1) start assms(4,5)] routes
    by (auto simp: nodes in_set_conv_nth)
qed

end

interpretation search: route_search pop_min scores_of
  by unfold_locales

section \<open>Rebuilding the table\<close>

text \<open>The second half of a rebuild, once the next hops are there.\<close>

definition fill_table :: "'c net_ops \<Rightarrow> peer_id \<Rightarrow> route_snapshot \<Rightarrow> 'c route_table \<Rightarrow> 'c route_table" where
  "fill_table ops me s t =
     (let (t, trie, trie_v6) = fold (install_peer ops me s (local_proxy_cidrs ops me s)) (rt_next_hop_map t) (t, [], [])
      in t\<lparr>rt_cidr_peer_id_map := trie, rt_cidr_v6_peer_id_map := trie_v6\<rparr>)"

lemma kv_ok_put_better: "kv_ok m \<Longrightarrow> kv_ok (put_better better k new m)"
  by (auto simp: put_better_def split: option.splits)

definition same_hops :: "'c route_table \<Rightarrow> 'c route_table \<Rightarrow> bool" where
  "same_hops t t' \<longleftrightarrow> rt_next_hop_map t' = rt_next_hop_map t \<and> rt_next_hop_map_version t' = rt_next_hop_map_version t
     \<and> rt_suppressed_peer_ids t' = rt_suppressed_peer_ids t"

lemma same_hops_lookup: "same_hops t t' \<Longrightarrow> get_next_hop t' = get_next_hop t"
  by (rule ext) (simp add: same_hops_def get_next_hop_def get_topology_next_hop_def split: option.splits)

lemma install_peer_keeps:
  "same_hops (fst st) (fst (install_peer ops me s ls item st))
   \<and> (table_ok (fst st) \<longrightarrow> table_ok (fst (install_peer ops me s ls item st)))"
  by (auto simp: install_peer_def same_hops_def table_ok_def Let_def kv_ok_put_better split: prod.splits option.splits)

lemma install_peers_keep:
  "same_hops (fst st) (fst (fold (install_peer ops me s ls) items st))
   \<and> (table_ok (fst st) \<longrightarrow> table_ok (fst (fold (install_peer ops me s ls) items st)))"
proof (induction items arbitrary: st)
  case (Cons item items)
  show ?case
    using Cons.IH [of "install_peer ops me s ls item st"] install_peer_keeps [of st ops me s ls item] by (simp add: same_hops_def)
qed (simp add: same_hops_def)

lemma fill_table_keeps: "same_hops t (fill_table ops me s t) \<and> (table_ok t \<longrightarrow> table_ok (fill_table ops me s t))"
  using install_peers_keep [of "(t, [], [])" ops me s "local_proxy_cidrs ops me s" "rt_next_hop_map t"]
  by (auto simp: fill_table_def same_hops_def table_ok_def split: prod.splits)

lemma clean_next_hop:
  assumes "table_ok t"
  shows "get_next_hop (clean_expired_route_info t) = get_next_hop t"
  using assms
  by (intro ext) (auto simp: get_next_hop_def get_topology_next_hop_def clean_expired_route_info_def Let_def table_ok_def
      kvm.get_retain_eq split: option.splits)

lemma clean_table_ok: "table_ok t \<Longrightarrow> table_ok (clean_expired_route_info t)"
  by (auto simp: table_ok_def clean_expired_route_info_def Let_def kvm.get_retain_eq split: option.splits if_splits)

lemma put_keys:
  "kv_ok m \<Longrightarrow> kv_ok (fold (\<lambda>p. kv_put p ()) ps m)"
  "kv_keys (fold (\<lambda>p. kv_put p ()) ps m) = kv_keys m \<union> set ps"
proof (induction ps arbitrary: m)
  case (Cons p ps)
  { case 1 then show ?case using Cons.IH(1) [of "kv_put p () m"] by (auto intro: kvm.ok_put) }
  { case 2 show ?case using Cons.IH(2) [of "kv_put p () m"] by (simp add: kv_keys_get set_eq_iff del: not_None_eq) }
qed simp_all

lemma sync_suppressed:
  assumes "table_ok t"
  shows "table_ok (sync_suppressed_peer_ids s t)"
    "kv_keys (rt_suppressed_peer_ids (sync_suppressed_peer_ids s t)) = set (rs_suppressed_peer_ids s)"
proof -
  show "table_ok (sync_suppressed_peer_ids s t)"
    using assms by (simp add: sync_suppressed_peer_ids_def table_ok_def put_keys(1) kvm.ok_retain)
  show "kv_keys (rt_suppressed_peer_ids (sync_suppressed_peer_ids s t)) = set (rs_suppressed_peer_ids s)"
    by (simp add: sync_suppressed_peer_ids_def put_keys(2)) (auto simp: kv_keys_def kv_retain_def)
qed

lemma snapshot_graph:
  assumes "snapshot_ok s cost" "me \<in> set (known s)"
  obtains g start where "build_peer_graph_from_snapshot me s cost = (g, Some start)" "gr_nodes g = known s"
    "start < length (gr_nodes g)" "gr_nodes g ! start = me" "graph_ok g" "represents g (route_edges me s cost)"
proof -
  from graph_of_snapshot [OF assms] obtain g start where
    g: "build_peer_graph_from_snapshot me s cost = (g, Some start)" "gr_nodes g = known s" "start < length (known s)" "known s ! start = me"
    and e: "\<And>a b c. (a, b, c) \<in> set (gr_edges g) \<longleftrightarrow>
         a < length (known s) \<and> b < length (known s) \<and> (known s ! b, c) \<in> set (route_edges me s cost (known s ! a))"
    by blast
  have "c < 2 ^ 32" if "(q, c) \<in> set (route_edges me s cost p)" for p q c
    using that link_cost_bound [OF assms(1)] by (auto simp: route_edges_def split: if_splits)
  then have "graph_ok g" using g(2) e known_facts [OF assms(1)] by (auto simp: graph_ok_def)
  moreover have "represents g (route_edges me s cost)"
    using g(2) e known_facts(1) [OF assms(1)] by (auto simp: represents_def route_edges_def split: if_splits)
  ultimately show thesis using that g by simp
qed

lemma policy_edges_known: "p \<in> set (known s) \<Longrightarrow> (q, c) \<in> set (policy_edges policy (route_edges me s cost) me p) \<Longrightarrow> q \<in> set (known s)"
  by (auto simp: policy_edges_def tight_edges_def route_edges_def split: next_hop_policy.splits if_splits)

context route_search
begin

lemma build_step:
  assumes "snapshot_ok s cost" "me \<in> set (known s)" "table_ok t" "rt_next_hop_map_version t < rs_version s"
  obtains t1 where "build_from_snapshot ops dij pop me s policy cost t = Some (clean_expired_route_info (fill_table ops me s t1))"
    "table_ok t1" "rt_next_hop_map_version t1 = rs_version s" "kv_keys (rt_suppressed_peer_ids t1) = set (rs_suppressed_peer_ids s)"
    "\<And>q. routed (rs_version s) id (policy_edges policy (route_edges me s cost) me) me q (get_topology_next_hop t1 q)"
    "rt_ipv4_peer_id_map t1 = rt_ipv4_peer_id_map t" "rt_ipv6_peer_id_map t1 = rt_ipv6_peer_id_map t"
proof -
  let ?E = "policy_edges policy (route_edges me s cost) me" and ?t = "sync_suppressed_peer_ids s t"
  obtain g start where g: "build_peer_graph_from_snapshot me s cost = (g, Some start)" "gr_nodes g = known s"
    "start < length (gr_nodes g)" "gr_nodes g ! start = me" "graph_ok g" "represents g (route_edges me s cost)"
    by (rule snapshot_graph [OF assms(1,2)])
  have t: "table_ok ?t" "rt_next_hop_map_version ?t < rs_version s" "rt_ipv4_peer_id_map ?t = rt_ipv4_peer_id_map t"
    "rt_ipv6_peer_id_map ?t = rt_ipv6_peer_id_map t"
    using sync_suppressed(1) [OF assms(3)] assms(4) by (simp_all add: sync_suppressed_peer_ids_def)
  obtain m where
    run: "(case policy of LeastHop \<Rightarrow> gen_next_hop_map_with_least_hop dij pop g start (rs_version s) ?t
         | LeastCost \<Rightarrow> gen_next_hop_map_with_least_cost pop g start (rs_version s) ?t)
       = Some (?t\<lparr>rt_next_hop_map := m, rt_next_hop_map_version := rs_version s\<rparr>)"
    and ok: "table_ok (?t\<lparr>rt_next_hop_map := m, rt_next_hop_map_version := rs_version s\<rparr>)"
    and routes: "\<And>q. q \<in> set (known s) \<Longrightarrow> routed (rs_version s) id ?E me q
         (get_topology_next_hop (?t\<lparr>rt_next_hop_map := m, rt_next_hop_map_version := rs_version s\<rparr>) q)"
    and none: "\<And>q. q \<notin> set (known s) \<Longrightarrow>
         get_topology_next_hop (?t\<lparr>rt_next_hop_map := m, rt_next_hop_map_version := rs_version s\<rparr>) q = None"
    using next_hops_of_policy [OF g(5,3,6) t(1,2), of policy] unfolding g(4) unfolding g(2)
    by (elim exE conjE) (rule that; blast)
  let ?t1 = "?t\<lparr>rt_next_hop_map := m, rt_next_hop_map_version := rs_version s\<rparr>"
  have "routed (rs_version s) id ?E me q (get_topology_next_hop ?t1 q)" for q
  proof (cases "q \<in> set (known s)")
    case False
    have "\<not> walk ?E me p q w" for p w
      using walk_in [of ?E me p q w "set (known s)"] assms(2) policy_edges_known False by blast
    with none [OF False] show ?thesis by (simp add: routed_def)
  qed (rule routes)
  moreover have "build_from_snapshot ops dij pop me s policy cost t = Some (clean_expired_route_info (fill_table ops me s ?t1))"
    using g(1-3) run by (auto simp: build_from_snapshot_def Let_def fill_table_def split: prod.splits)
  ultimately show thesis using that [of ?t1] ok t sync_suppressed(2) [OF assms(3), of s] by simp
qed

lemma build_routes:
  assumes "snapshot_ok s cost" "me \<in> set (known s)" "table_ok t" "rt_next_hop_map_version t < rs_version s"
  shows "\<exists>t'. build_from_snapshot ops dij pop me s policy cost t = Some t' \<and> table_ok t' \<and> rt_next_hop_map_version t' = rs_version s
    \<and> (\<forall>q \<in> set (rs_suppressed_peer_ids s). get_next_hop t' q = None)
    \<and> (\<forall>q. q \<notin> set (rs_suppressed_peer_ids s) \<longrightarrow>
         routed (rs_version s) id (policy_edges policy (route_edges me s cost) me) me q (get_next_hop t' q))"
proof (rule build_step [OF assms, of ops policy])
  fix t1
  let ?t = "clean_expired_route_info (fill_table ops me s t1)"
  assume b: "build_from_snapshot ops dij pop me s policy cost t = Some ?t"
    and t1: "table_ok t1" "rt_next_hop_map_version t1 = rs_version s" "kv_keys (rt_suppressed_peer_ids t1) = set (rs_suppressed_peer_ids s)"
    and r: "\<And>q. routed (rs_version s) id (policy_edges policy (route_edges me s cost) me) me q (get_topology_next_hop t1 q)"
  have f: "table_ok (fill_table ops me s t1)" "same_hops t1 (fill_table ops me s t1)"
    using fill_table_keeps [of t1 ops me s] t1(1) by simp_all
  have "get_next_hop ?t q = (if q \<in> set (rs_suppressed_peer_ids s) then None else get_topology_next_hop t1 q)" for q
    unfolding clean_next_hop [OF f(1)] same_hops_lookup [OF f(2)] t1(3) [symmetric] by (simp add: get_next_hop_def kv_keys_get)
  moreover have "rt_next_hop_map_version ?t = rs_version s"
    using f(2) t1(2) by (simp add: same_hops_def clean_expired_route_info_def Let_def)
  ultimately show ?thesis using b clean_table_ok [OF f(1)] r by auto
qed

end

section \<open>Routes after a rebuild\<close>

lemma route_edges_unique: "single_links (route_edges me s cost)"
  by (auto simp: single_links_def route_edges_def split: if_splits)

lemma walk_hops_same: "walk (hops_of E) s p v h \<Longrightarrow> \<exists>w. walk E s p v w"
  by (induction rule: walk.induct) (auto simp: hops_of_iff intro: walk.intros)

lemma walk_same_hops: "walk E s p v w \<Longrightarrow> \<exists>h. walk (hops_of E) s p v h"
proof (induction rule: walk.induct)
  case (walk_snoc p v w x c)
  then have "(x, normalize_edge_cost c) \<in> set (hops_of E v)" by (auto simp: hops_of_iff)
  with walk_snoc.IH show ?case by (blast intro: walk.walk_snoc)
qed (blast intro: walk.walk_nil)

text \<open>If there is a walk at all then one of the walks with the fewest hops is over tight links.\<close>

lemma tight_walk_exists:
  assumes unique: "single_links E" and w: "walk E s p v w"
  shows "\<exists>q w'. walk (tight_edges E s) s q v w'"
proof -
  obtain h where "walk (hops_of E) s p v h" using walk_same_hops [OF w] by blast
  then obtain q d where q: "cheapest (hops_of E) s q v d" using dist_least by (metis dist_def)
  then have "walk (hops_of E) s q v d" by (simp add: cheapest_def)
  from walk_hops_same [OF this] obtain w' where "walk E s q v w'" by blast
  from walk_tight [OF unique this q] show ?thesis by blast
qed

lemma routed_tight:
  assumes unique: "single_links E"
    and r: "routed ver id (tight_edges E s) s v r"
  shows "case r of
      None \<Rightarrow> \<forall>p w. \<not> walk E s p v w
    | Some x \<Rightarrow> \<exists>p w h. walk E s p v w \<and> cheapest (hops_of E) s p v h
        \<and> (\<forall>p' w'. walk E s p' v w' \<and> walk (hops_of E) s p' v h \<longrightarrow> w \<le> w') \<and> x = hop_info ver id s p w"
proof (cases r)
  case None
  with r have "\<forall>p w. \<not> walk (tight_edges E s) s p v w" by (simp add: routed_def)
  then have "\<not> walk E s p v w" for p w using tight_walk_exists [OF unique, of s p v w] by blast
  with None show ?thesis by simp
next
  case (Some x)
  with r obtain p w where p: "walk (tight_edges E s) s p v w" "\<And>q w'. walk (tight_edges E s) s q v w' \<Longrightarrow> w \<le> w'"
    "x = hop_info ver id s p w" by (auto simp: routed_def cheapest_def)
  from tight_walk [OF p(1)] obtain h where h: "walk E s p v w" "cheapest (hops_of E) s p v h" by blast
  have "w \<le> w'" if "walk E s p' v w'" "walk (hops_of E) s p' v h" for p' w'
  proof -
    have "cheapest (hops_of E) s p' v h" using h(2) that(2) by (simp add: cheapest_def)
    with p(2) walk_tight [OF unique that(1)] show ?thesis by blast
  qed
  with h p(3) have "\<exists>p w h. walk E s p v w \<and> cheapest (hops_of E) s p v h
      \<and> (\<forall>p' w'. walk E s p' v w' \<and> walk (hops_of E) s p' v h \<longrightarrow> w \<le> w') \<and> x = hop_info ver id s p w"
    by blast
  with Some show ?thesis by simp
qed

text \<open>
  C7: Rebuilding the table with the least-cost policy does not panic. A suppressed peer gets no next hop. For every
  other peer, no next hop means that no chain of links leads there, and a next hop is the first peer of a chain with
  the least total cost, recorded with the number of its hops and its cost modulo the relay penalty.
\<close>

theorem least_cost_routes:
  assumes "route_search pop dij" "snapshot_ok s cost" "me \<in> set (known s)"
    "table_ok t" "rt_next_hop_map_version t < rs_version s"
  shows "\<exists>t'. build_from_snapshot ops dij pop me s LeastCost cost t = Some t' \<and> table_ok t'
    \<and> (\<forall>q. if q \<in> set (rs_suppressed_peer_ids s) then get_next_hop t' q = None
         else case get_next_hop t' q of
             None \<Rightarrow> \<forall>p w. \<not> walk (route_edges me s cost) me p q w
           | Some x \<Rightarrow> \<exists>p w. walk (route_edges me s cost) me p q w
               \<and> (\<forall>p' w'. walk (route_edges me s cost) me p' q w' \<longrightarrow> w \<le> w') \<and> (q = me \<longrightarrow> p = [])
               \<and> x = \<lparr>nh_next_hop_peer_id = fst (hop_of me p), nh_path_latency = int (w mod AVOID_RELAY_COST),
                      nh_path_len = length p, nh_version = rs_version s\<rparr>)"
proof -
  from route_search.build_routes [OF assms, of ops LeastCost] obtain t' where
    t': "build_from_snapshot ops dij pop me s LeastCost cost t = Some t'" "table_ok t'"
    "\<And>q. q \<in> set (rs_suppressed_peer_ids s) \<Longrightarrow> get_next_hop t' q = None"
    "\<And>q. q \<notin> set (rs_suppressed_peer_ids s) \<Longrightarrow> routed (rs_version s) id (route_edges me s cost) me q (get_next_hop t' q)"
    by (auto simp: policy_edges_def)
  show ?thesis
    using t'(1-3) t'(4) [unfolded routed_def cheapest_def hop_info_def id_apply conj_assoc] by (intro exI [of _ t']) simp
qed

text \<open>Three peers in a row; the first one announces a network.\<close>

definition sample_info :: "peer_id \<Rightarrow> route_peer_info" where
  "sample_info p = (new_route_peer_info_with_version ''2'')\<lparr>rp_peer_id := p, rp_version := 1, rp_ipv4_addr := Some (10 + p),
     rp_proxy_cidrs := (if p = 1 then [''net''] else [])\<rparr>"

definition sample_snapshot :: route_snapshot where
  "sample_snapshot =
     \<lparr>rs_peer_infos = map (\<lambda>p. \<lparr>oi_peer_id = p, oi_info = sample_info p\<rparr>) [1, 2, 3],
      rs_conn_map = [\<lparr>oc_peer_id = 1, oc_connected_peers = [2]\<rparr>, \<lparr>oc_peer_id = 2, oc_connected_peers = [1, 3]\<rparr>,
        \<lparr>oc_peer_id = 3, oc_connected_peers = [2]\<rparr>],
      rs_suppressed_peer_ids = [], rs_version = 1\<rparr>"

text \<open>Networks that are numbers, and every text names the network of its length.\<close>

definition sample_ops :: "nat net_ops" where
  "sample_ops = \<lparr>no_from_str = (\<lambda>str. Some (Cidr_V4 (length str))), no_first_address = id, no_last_address = id,
     no_host_v4 = unat, no_host_v6 = unat, no_get_lpm = (\<lambda>m k. map_option (Pair k) (kv_get m k))\<rparr>"

lemma sample_facts:
  "snapshot_ok sample_snapshot (\<lambda>_ _. 5)" "known sample_snapshot = [1, 2, 3]" "table_ok table_new"
  "rt_next_hop_map_version table_new < rs_version sample_snapshot" "rs_suppressed_peer_ids sample_snapshot = []" "rt_next_hop_map_version table_new < 1"
  by (simp_all add: snapshot_ok_def known_def sample_snapshot_def sample_info_def new_route_peer_info_with_version_def
      table_ok_def table_new_def kv_ok_def)

lemma sample_walk: "\<exists>p w. walk (route_edges 1 sample_snapshot (\<lambda>_ _. 5)) 1 p 3 w"
proof -
  let ?E = "route_edges 1 sample_snapshot (\<lambda>_ _. 5)"
  have "\<exists>c. (2, c) \<in> set (?E 1)" "\<exists>c. (3, c) \<in> set (?E 2)"
    unfolding route_edges_def sample_facts by (simp_all add: connected_peers_def lookup_conn_map_def sample_snapshot_def)
  then show ?thesis by (metis walk.intros)
qed

lemma table_at: "\<exists>t. B t \<and> ok t \<and> (\<forall>q. R t q) \<Longrightarrow> (\<And>t. R t q \<Longrightarrow> Q t) \<Longrightarrow> \<exists>t. B t \<and> Q t"
  by blast

theorem least_cost_routes_witness:
  "\<exists>t'. build_from_snapshot sample_ops scores_of pop_min 1 sample_snapshot LeastCost (\<lambda>_ _. 5) table_new = Some t' \<and> get_next_hop t' 3 \<noteq> None"
proof -
  have me: "1 \<in> set (known sample_snapshot)" by (simp add: sample_facts)
  show ?thesis
    by (rule table_at [where q = 3, OF least_cost_routes [OF search.route_search_axioms sample_facts(1) me sample_facts(3,4)]])
      (use sample_walk in \<open>auto simp: sample_facts(5) split: option.splits\<close>)
qed

text \<open>
  C6: Rebuilding the table with the least-hop policy does not panic. A peer that is neither suppressed nor out of reach
  gets the first peer of a chain of links with the fewest hops, where a hop out of a peer that avoids relaying counts
  \<^verbatim>\<open>AVOID_RELAY_COST + 1\<close>, and with the least cost among the chains with so many hops.
\<close>

theorem least_hop_routes:
  assumes "route_search pop dij" "snapshot_ok s cost" "me \<in> set (known s)"
    "table_ok t" "rt_next_hop_map_version t < rs_version s"
  shows "\<exists>t'. build_from_snapshot ops dij pop me s LeastHop cost t = Some t' \<and> table_ok t'
    \<and> (\<forall>q. if q \<in> set (rs_suppressed_peer_ids s) then get_next_hop t' q = None
         else case get_next_hop t' q of
             None \<Rightarrow> \<forall>p w. \<not> walk (route_edges me s cost) me p q w
           | Some x \<Rightarrow> \<exists>p w h. walk (route_edges me s cost) me p q w
               \<and> cheapest (hops_of (route_edges me s cost)) me p q h
               \<and> (\<forall>p' w'. walk (route_edges me s cost) me p' q w' \<and> walk (hops_of (route_edges me s cost)) me p' q h \<longrightarrow> w \<le> w')
               \<and> x = \<lparr>nh_next_hop_peer_id = fst (hop_of me p), nh_path_latency = int (w mod AVOID_RELAY_COST),
                      nh_path_len = length p, nh_version = rs_version s\<rparr>)"
proof -
  let ?E = "route_edges me s cost"
  from route_search.build_routes [OF assms, of ops LeastHop] obtain t' where
    t': "build_from_snapshot ops dij pop me s LeastHop cost t = Some t'" "table_ok t'"
    "\<And>q. q \<in> set (rs_suppressed_peer_ids s) \<Longrightarrow> get_next_hop t' q = None"
    "\<And>q. q \<notin> set (rs_suppressed_peer_ids s) \<Longrightarrow> routed (rs_version s) id (tight_edges ?E me) me q (get_next_hop t' q)"
    by (auto simp: policy_edges_def)
  note r = routed_tight [OF route_edges_unique t'(4), unfolded hop_info_def id_apply]
  show ?thesis
    using t'(1-3) r by (intro exI [of _ t']) simp
qed

theorem least_hop_routes_witness:
  "\<exists>t'. build_from_snapshot sample_ops scores_of pop_min 1 sample_snapshot LeastHop (\<lambda>_ _. 5) table_new = Some t' \<and> get_next_hop t' 3 \<noteq> None"
proof -
  have me: "1 \<in> set (known sample_snapshot)" by (simp add: sample_facts)
  show ?thesis
    by (rule table_at [where q = 3, OF least_hop_routes [OF search.route_search_axioms sample_facts(1) me sample_facts(3,4)]])
      (use sample_walk in \<open>auto simp: sample_facts(5) split: option.splits\<close>)
qed

section \<open>Forwarding hop by hop\<close>

lemma walk_cons: "walk E x p v w \<Longrightarrow> (x, c) \<in> set (E s) \<Longrightarrow> walk E s (x # p) v (c + w)"
proof (induction rule: walk.induct)
  case walk_nil
  then show ?case using walk.walk_snoc [OF walk.walk_nil, of x c E s] by simp
next
  case (walk_snoc p v w y d)
  then show ?case using walk.walk_snoc [of E s "x # p" v "c + w" y d] by (simp add: add.assoc)
qed

lemma walk_consE:
  assumes "walk E s (x # p) v w"
  obtains c w' where "(x, c) \<in> set (E s)" "walk E x p v w'" "w = c + w'"
proof -
  have "\<exists>c w'. (x, c) \<in> set (E s) \<and> walk E x p v w' \<and> w = c + w'"
    using assms
  proof (induction p arbitrary: v w rule: rev_induct)
    case Nil
    then have "walk E s ([] @ [x]) v w" by simp
    then show ?case by (rule walk_snocE) (auto simp: walk_start)
  next
    case (snoc y p)
    then have "walk E s ((x # p) @ [y]) v w" by simp
    then obtain w1 d where y: "v = y" "walk E s (x # p) (last (x # p)) w1" "(y, d) \<in> set (E (last (x # p)))" "w = w1 + d"
      by (rule walk_snocE) simp
    from snoc.IH [OF y(2)] obtain c w2 where "(x, c) \<in> set (E s)" "walk E x p (last (x # p)) w2" "w1 = c + w2" by auto
    with y show ?case using walk.walk_snoc [of E x p "last (x # p)" w2 y d] by auto
  qed
  with that show thesis by blast
qed

definition policy_metric :: "next_hop_policy \<Rightarrow> ('n \<Rightarrow> ('n \<times> nat) list) \<Rightarrow> 'n \<Rightarrow> ('n \<times> nat) list" where
  "policy_metric policy E = (case policy of LeastHop \<Rightarrow> hops_of E | LeastCost \<Rightarrow> E)"

lemma routed_metric:
  assumes "single_links E" "routed ver id (policy_edges policy E n) n dst r" "walk (policy_metric policy E) n q dst d"
  obtains x p d' where "r = Some x" "cheapest (policy_metric policy E) n p dst d'" "nh_next_hop_peer_id x = fst (hop_of n p)"
proof (cases policy)
  case LeastCost
  with assms(2,3) that show thesis
    by (auto simp: routed_def policy_edges_def policy_metric_def hop_info_def split: option.splits)
next
  case LeastHop
  then have "\<exists>w. walk E n q dst w" using assms(3) walk_hops_same by (simp add: policy_metric_def)
  moreover have "routed ver id (tight_edges E n) n dst r" using assms(2) LeastHop by (simp add: policy_edges_def)
  note routed_tight [OF assms(1) this]
  ultimately show thesis
    using that LeastHop by (auto simp: policy_metric_def hop_info_def split: option.splits)
qed

text \<open>Every peer on the way looks the destination up in its own table.\<close>

fun forward :: "(peer_id \<Rightarrow> 'c route_table) \<Rightarrow> nat \<Rightarrow> peer_id \<Rightarrow> peer_id \<Rightarrow> peer_id option" where
  "forward T 0 n dst = Some n"
| "forward T (Suc k) n dst = (case get_next_hop (T n) dst of None \<Rightarrow> None | Some x \<Rightarrow> forward T k (nh_next_hop_peer_id x) dst)"

lemma forward_arrives:
  assumes single: "single_links E"
    and routes: "\<And>n q. n \<in> V \<Longrightarrow> routed (ver n) id (policy_edges policy E n) n q (get_next_hop (T n) q)"
    and closed: "\<And>n q c. n \<in> V \<Longrightarrow> (q, c) \<in> set (policy_metric policy E n) \<Longrightarrow> q \<in> V \<and> 0 < c"
  shows "dist (policy_metric policy E) n dst d \<Longrightarrow> n \<in> V \<Longrightarrow> \<exists>k. forward T k n dst = Some dst"
proof (induction d arbitrary: n rule: less_induct)
  case (less d)
  let ?M = "policy_metric policy E"
  show ?case
  proof (cases "n = dst")
    case True
    then have "forward T 0 n dst = Some dst" by simp
    then show ?thesis by blast
  next
    case False
    from less.prems(1) obtain q where q: "walk ?M n q dst d" by (auto simp: dist_def cheapest_def)
    obtain x p d' where x: "get_next_hop (T n) dst = Some x" "cheapest ?M n p dst d'" "nh_next_hop_peer_id x = fst (hop_of n p)"
      by (rule routed_metric [OF single routes [OF less.prems(2)] q])
    have d': "d' = d" using dist_unique [of ?M n dst d' d] less.prems(1) x(2) by (auto simp: dist_def)
    obtain y p' where p: "p = y # p'"
      using x(2) False by (cases p) (auto simp: cheapest_def walk_start)
    obtain c w' where c: "(y, c) \<in> set (?M n)" "walk ?M y p' dst w'" "d' = c + w'"
      using x(2) p walk_consE [of ?M n y p' dst d'] by (auto simp: cheapest_def)
    from dist_least [OF c(2)] obtain e where e: "dist ?M y dst e" "e \<le> w'" by blast
    have "e < d" "y \<in> V" using closed [OF less.prems(2) c(1)] c(3) e(2) d' by simp_all
    with less.IH e(1) obtain k where "forward T k y dst = Some dst" by blast
    then have "forward T (Suc k) n dst = Some dst" using x(1,3) p by (simp add: hop_of_def)
    then show ?thesis by blast
  qed
qed

lemma route_edges_shared:
  "rs_suppressed_peer_ids s = [] \<Longrightarrow> route_edges n (s\<lparr>rs_version := v\<rparr>) cost = route_edges me s cost"
  by (rule ext) (simp add: route_edges_def known_def connected_peers_def lookup_conn_map_def link_cost_def
      get_avoid_relay_data_def lookup_peer_infos_def)

lemma snapshot_version: "snapshot_ok (s\<lparr>rs_version := v\<rparr>) cost = snapshot_ok s cost" "known (s\<lparr>rs_version := v\<rparr>) = known s"
  by (simp_all add: snapshot_ok_def known_def)

lemma link_cost_positive:
  assumes "snapshot_ok s cost" "0 < cost p q"
  shows "0 < link_cost cost s p q"
proof -
  have "cost p q < 2 ^ 31" using assms(1) by (simp add: snapshot_ok_def)
  with assms(2) have "0 < nat (cost p q mod 2 ^ 64)" "nat (cost p q mod 2 ^ 64) < 2 ^ 31" by (simp_all add: nat_less_iff)
  then show ?thesis by (simp add: link_cost_def Let_def AVOID_RELAY_COST_def)
qed

text \<open>
  C2: When every peer has built its table from the same peers and links, under either policy and each with its own
  table version, a packet that is handed from next hop to next hop reaches every destination that has a chain of links:
  the tables of different peers agree, and no packet runs in a circle. With the least-cost policy every link costs something.
\<close>

theorem forwarding_delivers:
  assumes "route_search pop dij" and "snapshot_ok s cost" and "rs_suppressed_peer_ids s = []"
    and "policy = LeastCost \<longrightarrow> (\<forall>p q. 0 < cost p q)"
    and "\<forall>n \<in> set (known s). table_ok (T0 n) \<and> rt_next_hop_map_version (T0 n) < ver n
      \<and> build_from_snapshot ops dij pop n (s\<lparr>rs_version := ver n\<rparr>) policy cost (T0 n) = Some (T n)"
    and "me \<in> set (known s)" "walk (route_edges me s cost) me p dst w"
  shows "\<exists>k. forward T k me dst = Some dst"
proof -
  let ?E = "route_edges me s cost"
  have routes: "routed (ver n) id (policy_edges policy ?E n) n q (get_next_hop (T n) q)" if "n \<in> set (known s)" for n q
    using route_search.build_routes [OF assms(1), of "s\<lparr>rs_version := ver n\<rparr>" cost n "T0 n" ops policy] assms(2,3,5) that
    by (auto simp: snapshot_version route_edges_shared [OF assms(3), where me = me])
  have closed: "q \<in> set (known s) \<and> 0 < c" if "n \<in> set (known s)" "(q, c) \<in> set (policy_metric policy ?E n)" for n q c
  proof (cases policy)
    case LeastCost
    with that assms(4) link_cost_positive [OF assms(2)] show ?thesis
      by (auto simp: policy_metric_def route_edges_def split: if_splits)
  next
    case LeastHop
    with that show ?thesis by (auto simp: policy_metric_def hops_of_iff route_edges_def normalize_edge_cost_def split: if_splits)
  qed
  obtain d0 where d0: "walk (policy_metric policy ?E) me p dst d0"
    using assms(7) walk_same_hops [OF assms(7)] by (cases policy) (auto simp: policy_metric_def)
  from dist_least [OF d0] obtain d where "dist (policy_metric policy ?E) me dst d" by blast
  then show ?thesis
    by (rule forward_arrives [where E = ?E and V = "set (known s)" and ver = ver, rotated 3, OF _ assms(6) route_edges_unique])
      (use routes closed in blast)+
qed

theorem forwarding_delivers_witness:
  "\<exists>k. forward (\<lambda>n. the (build_from_snapshot sample_ops scores_of pop_min n (sample_snapshot\<lparr>rs_version := 1\<rparr>) LeastHop (\<lambda>_ _. 5) table_new))
     k 1 3 = Some 3"
proof -
  let ?T = "\<lambda>n. the (build_from_snapshot sample_ops scores_of pop_min n (sample_snapshot\<lparr>rs_version := 1\<rparr>) LeastHop (\<lambda>_ _. 5) table_new)"
  have "build_from_snapshot sample_ops scores_of pop_min n (sample_snapshot\<lparr>rs_version := 1\<rparr>) LeastHop (\<lambda>_ _. 5) table_new = Some (?T n)"
    if "n \<in> set (known sample_snapshot)" for n
  proof -
    have "rt_next_hop_map_version (table_new :: nat route_table) < rs_version (sample_snapshot\<lparr>rs_version := 1\<rparr>)"
      by (simp add: table_new_def)
    from search.build_routes [OF _ _ sample_facts(3) this, of "\<lambda>_ _. 5" n sample_ops LeastHop, unfolded snapshot_version, OF sample_facts(1) that]
    show ?thesis by (elim exE conjE) simp
  qed
  then have built: "\<forall>n \<in> set (known sample_snapshot). table_ok table_new \<and> rt_next_hop_map_version (table_new :: nat route_table) < 1
      \<and> build_from_snapshot sample_ops scores_of pop_min n (sample_snapshot\<lparr>rs_version := 1\<rparr>) LeastHop (\<lambda>_ _. 5) table_new = Some (?T n)"
    using sample_facts(3,6) by blast
  obtain p w where w: "walk (route_edges 1 sample_snapshot (\<lambda>_ _. 5)) 1 p 3 w" using sample_walk by blast
  have me: "1 \<in> set (known sample_snapshot)" by (simp add: sample_facts)
  show ?thesis
    by (rule forwarding_delivers [OF search.route_search_axioms sample_facts(1,5) _ built me w]) simp
qed

end
