(* ===== verification/RouteLookup.thy ===== *)
theory RouteLookup
  imports RoutePaths
begin

text \<open>
  Which peer answers for an address or a network after the route table has been rebuilt: the nearest of the reachable
  peers that announce it, and the peer itself for its own networks.
\<close>

section \<open>The nearest peer wins\<close>

definition path_len :: "'c route_table \<Rightarrow> peer_id \<Rightarrow> nat" where
  "path_len t p = nh_path_len (the (get_next_hop t p))"

text \<open>An entry after the peers \<open>A\<close> have claimed its key, and \<open>e0\<close> before.\<close>

definition nearest :: "'c route_table \<Rightarrow> version \<Rightarrow> peer_id_version option \<Rightarrow> peer_id set \<Rightarrow> peer_id_version option \<Rightarrow> bool" where
  "nearest t ver e0 A e \<longleftrightarrow>
     (if A = {} then e = e0
      else \<exists>q \<in> A. e = Some \<lparr>pv_peer_id = q, pv_version = ver\<rparr> \<and> (\<forall>p \<in> A. path_len t q \<le> path_len t p))"

definition outdated_entry :: "version \<Rightarrow> peer_id_version option \<Rightarrow> bool" where
  "outdated_entry ver e \<longleftrightarrow> (\<forall>x. e = Some x \<longrightarrow> pv_version x < ver)"

lemma put_better_nearest:
  assumes near: "nearest t ver e0 A (kv_get m k)" and old: "outdated_entry ver e0"
    and hop: "get_next_hop t p = Some hop" and A: "\<forall>q \<in> A. peer_reachable t q"
    and better: "\<And>e. better e \<longleftrightarrow> first \<or> is_new_peer_better t \<lparr>pv_peer_id = p, pv_version = ver\<rparr> hop e"
    and first: "first \<longrightarrow> (\<forall>q \<in> A. path_len t p \<le> path_len t q)"
  shows "nearest t ver e0 (insert p A) (kv_get (put_better better k \<lparr>pv_peer_id = p, pv_version = ver\<rparr> m) k)"
proof (cases "A = {}")
  case True
  with near have "kv_get m k = e0" by (simp add: nearest_def)
  with old show ?thesis
    by (cases e0) (auto simp: True nearest_def put_better_def better is_new_peer_better_def outdated_entry_def)
next
  case False
  with near obtain q where q: "q \<in> A" "kv_get m k = Some \<lparr>pv_peer_id = q, pv_version = ver\<rparr>" "\<forall>p \<in> A. path_len t q \<le> path_len t p"
    by (auto simp: nearest_def)
  obtain qhop where qhop: "get_next_hop t q = Some qhop" using A q(1) by (auto simp: peer_reachable_def)
  have len: "path_len t p = nh_path_len hop" "path_len t q = nh_path_len qhop" using hop qhop by (simp_all add: path_len_def)
  let ?new = "\<lparr>pv_peer_id = p, pv_version = ver\<rparr>" and ?old = "\<lparr>pv_peer_id = q, pv_version = ver\<rparr>"
  have b: "better ?old \<longleftrightarrow> first \<or> p \<noteq> q \<and> path_len t p < path_len t q"
    using qhop len by (auto simp: better is_new_peer_better_def)
  show ?thesis
  proof (cases "better ?old")
    case True
    then have "kv_get (put_better better k ?new m) k = Some ?new" using q(2) by (simp add: put_better_def)
    moreover have "path_len t p \<le> path_len t r" if "r \<in> insert p A" for r
      using that first q(3) True [unfolded b] by (auto intro: order_trans less_imp_le)
    ultimately show ?thesis unfolding nearest_def by auto
  next
    case False
    then have "kv_get (put_better better k ?new m) k = Some ?old" using q(2) by (simp add: put_better_def)
    moreover have "path_len t q \<le> path_len t p" using False [unfolded b] by (cases "p = q") auto
    ultimately show ?thesis using q(1,3) unfolding nearest_def by auto
  qed
qed

lemma put_better_other: "k' \<noteq> k \<Longrightarrow> kv_get (put_better better k new m) k' = kv_get m k'"
  by (auto simp: put_better_def split: option.splits)

text \<open>One claim on a map: the claims of the other keys stay as they are.\<close>

definition claims_ok :: "'c route_table \<Rightarrow> version \<Rightarrow> ('k \<Rightarrow> peer_id_version option) \<Rightarrow> ('k \<Rightarrow> peer_id set) \<Rightarrow> ('k, peer_id_version) kvs \<Rightarrow> bool" where
  "claims_ok t ver e0 C m \<longleftrightarrow>
     (\<forall>k. nearest t ver (e0 k) (C k) (kv_get m k) \<and> outdated_entry ver (e0 k) \<and> (\<forall>q \<in> C k. peer_reachable t q))"

lemma claim_step:
  assumes "claims_ok t ver e0 C m" "get_next_hop t p = Some hop"
    and better: "\<And>e. better e \<longleftrightarrow> first \<or> is_new_peer_better t \<lparr>pv_peer_id = p, pv_version = ver\<rparr> hop e"
    and "first \<longrightarrow> path_len t p = 0"
  shows "claims_ok t ver e0 (C(k := insert p (C k))) (put_better better k \<lparr>pv_peer_id = p, pv_version = ver\<rparr> m)"
proof -
  have "nearest t ver (e0 k) (insert p (C k)) (kv_get (put_better better k \<lparr>pv_peer_id = p, pv_version = ver\<rparr> m) k)"
    by (rule put_better_nearest [where first = first and hop = hop]) (use assms in \<open>auto simp: claims_ok_def\<close>)
  then show ?thesis
    using assms(1,2) by (auto simp: claims_ok_def put_better_other peer_reachable_def)
qed

lemma claims_fold:
  assumes "get_next_hop t p = Some hop"
    and better: "\<And>e. better e \<longleftrightarrow> first \<or> is_new_peer_better t \<lparr>pv_peer_id = p, pv_version = ver\<rparr> hop e"
    and "first \<longrightarrow> path_len t p = 0"
  shows "claims_ok t ver e0 C m \<Longrightarrow>
    claims_ok t ver e0 (\<lambda>k. if k \<in> set ks then insert p (C k) else C k)
      (fold (\<lambda>k. put_better better k \<lparr>pv_peer_id = p, pv_version = ver\<rparr>) ks m)"
proof (induction ks arbitrary: C m)
  case (Cons k ks)
  have "(\<lambda>k'. if k' \<in> set ks then insert p ((C(k := insert p (C k))) k') else (C(k := insert p (C k))) k')
      = (\<lambda>k'. if k' \<in> set (k # ks) then insert p (C k') else C k')"
    by (rule ext) auto
  with Cons.IH [OF claim_step [OF Cons.prems assms, of k]] show ?case by simp
qed simp

section \<open>What a peer announces\<close>

definition v4_claims :: "route_peer_info \<Rightarrow> u32 list" where
  "v4_claims info = (case rp_ipv4_addr info of Some a \<Rightarrow> [a] | None \<Rightarrow> [])"

definition v6_claims :: "route_peer_info \<Rightarrow> 128 word list" where
  "v6_claims info = List.map_filter (\<lambda>x. x \<bind> ii_address) [rp_ipv6_addr info, rp_ipv6_public_addr_lease info]"

text \<open>The networks of a peer that the table takes: a network of another peer inside one of the own networks is left out.\<close>

definition exported :: "'c net_ops \<Rightarrow> peer_id \<Rightarrow> 'c ip_cidr list \<Rightarrow> peer_id \<Rightarrow> string \<Rightarrow> 'c ip_cidr option" where
  "exported ops me ls p text =
     (case no_from_str ops text of
        None \<Rightarrow> None
      | Some cidr \<Rightarrow> if p \<noteq> me \<and> list_ex (\<lambda>l. cidr_is_subset ops cidr l) ls then None else Some cidr)"

definition proxy_claims :: "'c net_ops \<Rightarrow> peer_id \<Rightarrow> 'c ip_cidr list \<Rightarrow> peer_id \<Rightarrow> string list \<Rightarrow> 'c list" where
  "proxy_claims ops me ls p texts =
     List.map_filter (\<lambda>text. case exported ops me ls p text of Some (Cidr_V4 c) \<Rightarrow> Some c | _ \<Rightarrow> None) texts"

definition proxy_v6_claims :: "'c net_ops \<Rightarrow> peer_id \<Rightarrow> 'c ip_cidr list \<Rightarrow> peer_id \<Rightarrow> string list \<Rightarrow> 'c list" where
  "proxy_v6_claims ops me ls p texts =
     List.map_filter (\<lambda>text. case exported ops me ls p text of Some (Cidr_V6 c) \<Rightarrow> Some c | _ \<Rightarrow> None) texts"

lemma add_proxy_cidr_exported:
  "add_proxy_cidr ops me ls better new text tries =
     (case exported ops me ls (pv_peer_id new) text of
        None \<Rightarrow> tries
      | Some (Cidr_V4 c) \<Rightarrow> (put_better (\<lambda>e. pv_peer_id new = me \<or> better e) c new (fst tries), snd tries)
      | Some (Cidr_V6 c) \<Rightarrow> (fst tries, put_better (\<lambda>e. pv_peer_id new = me \<or> better e) c new (snd tries)))"
  by (simp add: add_proxy_cidr_def exported_def split: option.split)

lemma proxy_claims_simps:
  "proxy_claims ops me ls p [] = []" "proxy_v6_claims ops me ls p [] = []"
  "proxy_claims ops me ls p (x # xs) =
     (case exported ops me ls p x of Some (Cidr_V4 c) \<Rightarrow> c # proxy_claims ops me ls p xs | _ \<Rightarrow> proxy_claims ops me ls p xs)"
  "proxy_v6_claims ops me ls p (x # xs) =
     (case exported ops me ls p x of Some (Cidr_V6 c) \<Rightarrow> c # proxy_v6_claims ops me ls p xs | _ \<Rightarrow> proxy_v6_claims ops me ls p xs)"
  by (simp_all add: proxy_claims_def proxy_v6_claims_def List.map_filter_def split: option.split ip_cidr.split)

lemma fold_add_proxy_cidr:
  "fold (add_proxy_cidr ops me ls better new) texts tries =
     (fold (\<lambda>k. put_better (\<lambda>e. pv_peer_id new = me \<or> better e) k new) (proxy_claims ops me ls (pv_peer_id new) texts) (fst tries),
      fold (\<lambda>k. put_better (\<lambda>e. pv_peer_id new = me \<or> better e) k new) (proxy_v6_claims ops me ls (pv_peer_id new) texts) (snd tries))"
proof (induction texts arbitrary: tries)
  case Nil
  then show ?case by (simp add: proxy_claims_simps)
next
  case (Cons x texts)
  consider "exported ops me ls (pv_peer_id new) x = None"
    | c where "exported ops me ls (pv_peer_id new) x = Some (Cidr_V4 c)"
    | c where "exported ops me ls (pv_peer_id new) x = Some (Cidr_V6 c)"
    by (metis ip_cidr.exhaust option.exhaust)
  then show ?case
    by cases (simp_all add: Cons.IH add_proxy_cidr_exported [of ops me ls better new x tries] proxy_claims_simps)
qed

definition announced :: "route_snapshot \<Rightarrow> peer_id set \<Rightarrow> (peer_id \<Rightarrow> route_peer_info \<Rightarrow> 'k list) \<Rightarrow> 'k \<Rightarrow> peer_id set" where
  "announced s D f k = {p \<in> D. \<exists>info. kv_get (lookup_peer_infos s) p = Some info \<and> k \<in> set (f p info)}"

lemma announced_empty: "announced s {} f = (\<lambda>_. {})"
  by (auto simp: announced_def)

lemma announced_insert:
  "announced s (insert p D) f =
     (case kv_get (lookup_peer_infos s) p of
        None \<Rightarrow> announced s D f
      | Some info \<Rightarrow> (\<lambda>k. if k \<in> set (f p info) then insert p (announced s D f k) else announced s D f k))"
  by (rule ext) (auto simp: announced_def split: option.splits)

lemma same_hops_better: "same_hops t t' \<Longrightarrow> is_new_peer_better t' = is_new_peer_better t"
  by (intro ext) (simp add: is_new_peer_better_def same_hops_lookup)

definition filled :: "'c net_ops \<Rightarrow> peer_id \<Rightarrow> route_snapshot \<Rightarrow> 'c route_table \<Rightarrow> peer_id set \<Rightarrow> 'c route_table \<times> 'c tries \<Rightarrow> bool" where
  "filled ops me s t1 D st \<longleftrightarrow>
     same_hops t1 (fst st)
     \<and> claims_ok t1 (rs_version s) (kv_get (rt_ipv4_peer_id_map t1)) (announced s D (\<lambda>_. v4_claims)) (rt_ipv4_peer_id_map (fst st))
     \<and> claims_ok t1 (rs_version s) (kv_get (rt_ipv6_peer_id_map t1)) (announced s D (\<lambda>_. v6_claims)) (rt_ipv6_peer_id_map (fst st))
     \<and> claims_ok t1 (rs_version s) (\<lambda>_. None)
         (announced s D (\<lambda>p info. proxy_claims ops me (local_proxy_cidrs ops me s) p (rp_proxy_cidrs info))) (fst (snd st))
     \<and> claims_ok t1 (rs_version s) (\<lambda>_. None)
         (announced s D (\<lambda>p info. proxy_v6_claims ops me (local_proxy_cidrs ops me s) p (rp_proxy_cidrs info))) (snd (snd st))
     \<and> (\<forall>p. kv_get (rt_peer_infos (fst st)) p =
         (if p \<in> D \<and> kv_get (lookup_peer_infos s) p \<noteq> None then kv_get (lookup_peer_infos s) p else kv_get (rt_peer_infos t1) p))"

lemma install_peer_filled:
  assumes f: "filled ops me s t1 D st"
    and hop: "kv_get (rt_next_hop_map t1) p = Some hop" and ver: "rt_next_hop_map_version t1 = rs_version s"
    and me: "peer_reachable t1 me \<longrightarrow> path_len t1 me = 0"
  shows "filled ops me s t1 (if peer_reachable t1 p then insert p D else D)
           (install_peer ops me s (local_proxy_cidrs ops me s) (p, hop) st)"
proof (cases "peer_reachable t1 p")
  case False
  obtain t tries where st: "st = (t, tries)" by (cases st)
  have "same_hops t1 (fst st)" using f by (simp add: filled_def)
  then have "\<not> peer_reachable (fst st) p" using False by (simp add: peer_reachable_def same_hops_lookup)
  then show ?thesis using False f by (simp add: install_peer_def st)
next
  case True
  obtain t tries where st: "st = (t, tries)" by (cases st)
  have same: "same_hops t1 (fst st)" using f by (simp add: filled_def)
  then have reach: "peer_reachable (fst st) p" using True by (simp add: peer_reachable_def same_hops_lookup)
  have get: "get_next_hop t1 p = Some hop" and new: "\<not> nh_version hop < rs_version s"
    using True hop ver by (auto simp: peer_reachable_def get_next_hop_def get_topology_next_hop_def split: if_splits)
  show ?thesis
  proof (cases "kv_get (lookup_peer_infos s) p")
    case None
    then have "install_peer ops me s (local_proxy_cidrs ops me s) (p, hop) st = st" by (simp add: install_peer_def st)
    with f True None show ?thesis by (simp add: filled_def announced_insert)
  next
    case (Some info)
    let ?new = "\<lparr>pv_peer_id = p, pv_version = rs_version s\<rparr>" and ?ls = "local_proxy_cidrs ops me s"
    let ?b = "is_new_peer_better t1 ?new hop" and ?st = "install_peer ops me s ?ls (p, hop) st"
    have eq: "rt_ipv4_peer_id_map (fst ?st) = fold (\<lambda>k. put_better ?b k ?new) (v4_claims info) (rt_ipv4_peer_id_map (fst st))"
      "rt_ipv6_peer_id_map (fst ?st) = fold (\<lambda>k. put_better ?b k ?new) (v6_claims info) (rt_ipv6_peer_id_map (fst st))"
      "snd ?st = (fold (\<lambda>k. put_better (\<lambda>e. p = me \<or> ?b e) k ?new) (proxy_claims ops me ?ls p (rp_proxy_cidrs info)) (fst (snd st)),
         fold (\<lambda>k. put_better (\<lambda>e. p = me \<or> ?b e) k ?new) (proxy_v6_claims ops me ?ls p (rp_proxy_cidrs info)) (snd (snd st)))"
      "rt_peer_infos (fst ?st) = kv_put p info (rt_peer_infos (fst st))"
      using reach new Some
      by (simp_all add: install_peer_def Let_def same_hops_better [OF same, unfolded st fst_conv] v4_claims_def v6_claims_def
          List.map_filter_def fold_add_proxy_cidr st split: option.split)
    have old: "claims_ok t1 (rs_version s) (kv_get (rt_ipv4_peer_id_map t1)) (announced s D (\<lambda>_. v4_claims)) (rt_ipv4_peer_id_map (fst st))"
      "claims_ok t1 (rs_version s) (kv_get (rt_ipv6_peer_id_map t1)) (announced s D (\<lambda>_. v6_claims)) (rt_ipv6_peer_id_map (fst st))"
      "claims_ok t1 (rs_version s) (\<lambda>_. None) (announced s D (\<lambda>p info. proxy_claims ops me ?ls p (rp_proxy_cidrs info))) (fst (snd st))"
      "claims_ok t1 (rs_version s) (\<lambda>_. None) (announced s D (\<lambda>p info. proxy_v6_claims ops me ?ls p (rp_proxy_cidrs info))) (snd (snd st))"
      using f by (simp_all add: filled_def)
    have "same_hops t1 (fst ?st)"
      using same install_peer_keeps [of st ops me s ?ls "(p, hop)"] by (simp add: same_hops_def)
    moreover have "claims_ok t1 (rs_version s) (kv_get (rt_ipv4_peer_id_map t1)) (announced s (insert p D) (\<lambda>_. v4_claims)) (rt_ipv4_peer_id_map (fst ?st))"
      "claims_ok t1 (rs_version s) (kv_get (rt_ipv6_peer_id_map t1)) (announced s (insert p D) (\<lambda>_. v6_claims)) (rt_ipv6_peer_id_map (fst ?st))"
      unfolding eq announced_insert Some option.case by (rule claims_fold [OF get, where first = False, OF _ _ old(1)] claims_fold [OF get, where first = False, OF _ _ old(2)], simp, simp)+
    moreover have
      "claims_ok t1 (rs_version s) (\<lambda>_. None) (announced s (insert p D) (\<lambda>p info. proxy_claims ops me ?ls p (rp_proxy_cidrs info))) (fst (snd ?st))"
      "claims_ok t1 (rs_version s) (\<lambda>_. None) (announced s (insert p D) (\<lambda>p info. proxy_v6_claims ops me ?ls p (rp_proxy_cidrs info))) (snd (snd ?st))"
      unfolding eq announced_insert Some option.case fst_conv snd_conv
      by (rule claims_fold [OF get, where first = "p = me", OF _ _ old(3)] claims_fold [OF get, where first = "p = me", OF _ _ old(4)], simp, use me True in auto)+
    ultimately show ?thesis
      using f True Some unfolding filled_def eq(4) by simp
  qed
qed

section \<open>After a rebuild\<close>

lemma install_all_filled:
  assumes "rt_next_hop_map_version t1 = rs_version s" "peer_reachable t1 me \<longrightarrow> path_len t1 me = 0"
  shows "filled ops me s t1 D st \<Longrightarrow> (\<forall>(p, hop) \<in> set items. kv_get (rt_next_hop_map t1) p = Some hop) \<Longrightarrow>
    filled ops me s t1 (D \<union> {p \<in> fst ` set items. peer_reachable t1 p})
      (fold (install_peer ops me s (local_proxy_cidrs ops me s)) items st)"
proof (induction items arbitrary: D st)
  case (Cons item items)
  obtain p hop where item: "item = (p, hop)" by (cases item)
  have D: "(if peer_reachable t1 p then insert p D else D) \<union> {p \<in> fst ` set items. peer_reachable t1 p}
      = D \<union> {p \<in> fst ` set (item # items). peer_reachable t1 p}"
    by (auto simp: item)
  have "filled ops me s t1 (if peer_reachable t1 p then insert p D else D) (install_peer ops me s (local_proxy_cidrs ops me s) item st)"
    unfolding item by (rule install_peer_filled [OF Cons.prems(1) _ assms]) (use Cons.prems(2) item in simp)
  from Cons.IH [OF this] Cons.prems(2) show ?case unfolding D by simp
qed simp

text \<open>No address entry is newer than the table.\<close>

definition addresses_ok :: "'c route_table \<Rightarrow> bool" where
  "addresses_ok t \<longleftrightarrow>
     (\<forall>a x. kv_get (rt_ipv4_peer_id_map t) a = Some x \<longrightarrow> pv_version x \<le> rt_next_hop_map_version t)
     \<and> (\<forall>a x. kv_get (rt_ipv6_peer_id_map t) a = Some x \<longrightarrow> pv_version x \<le> rt_next_hop_map_version t)"

lemma reachable_key:
  assumes "table_ok t" "peer_reachable t p"
  shows "p \<in> fst ` set (rt_next_hop_map t)"
  using assms by (auto simp: peer_reachable_def get_next_hop_def get_topology_next_hop_def kv_get_def dest: map_of_SomeD
      intro!: rev_image_eqI split: if_splits option.splits)

lemma fill_table_filled:
  assumes ver: "rt_next_hop_map_version t1 = rs_version s" and me: "peer_reachable t1 me \<longrightarrow> path_len t1 me = 0"
    and ok: "table_ok t1"
    and old: "\<And>a. outdated_entry (rs_version s) (kv_get (rt_ipv4_peer_id_map t1) a)"
      "\<And>a. outdated_entry (rs_version s) (kv_get (rt_ipv6_peer_id_map t1) a)"
  shows "filled ops me s t1 {p. peer_reachable t1 p}
    (fill_table ops me s t1, rt_cidr_peer_id_map (fill_table ops me s t1), rt_cidr_v6_peer_id_map (fill_table ops me s t1))"
proof -
  have "filled ops me s t1 {} (t1, [], [])"
    using old by (simp add: filled_def same_hops_def announced_empty claims_ok_def nearest_def outdated_entry_def)
  moreover have "\<forall>(p, hop) \<in> set (rt_next_hop_map t1). kv_get (rt_next_hop_map t1) p = Some hop"
    using ok by (auto simp: table_ok_def kv_ok_def kv_get_def)
  moreover have "{} \<union> {p \<in> fst ` set (rt_next_hop_map t1). peer_reachable t1 p} = {p. peer_reachable t1 p}"
    using reachable_key [OF ok] by auto
  ultimately have "filled ops me s t1 {p. peer_reachable t1 p}
      (fold (install_peer ops me s (local_proxy_cidrs ops me s)) (rt_next_hop_map t1) (t1, [], []))"
    using install_all_filled [OF ver me, of ops "{}" "(t1, [], [])" "rt_next_hop_map t1"] by simp
  then show ?thesis
    by (auto simp: fill_table_def filled_def same_hops_def split: prod.split)
qed

context route_search
begin

text \<open>Everything a rebuild leaves in the table.\<close>

lemma build_filled:
  assumes "snapshot_ok s cost" "me \<in> set (known s)" "table_ok t" "addresses_ok t" "rt_next_hop_map_version t < rs_version s"
  obtains t1 tf where "build_from_snapshot ops dij pop me s policy cost t = Some (clean_expired_route_info tf)"
    "filled ops me s t1 {p. peer_reachable t1 p} (tf, rt_cidr_peer_id_map tf, rt_cidr_v6_peer_id_map tf)" "table_ok tf"
    "get_next_hop (clean_expired_route_info tf) = get_next_hop t1"
    "rt_ipv4_peer_id_map t1 = rt_ipv4_peer_id_map t" "rt_ipv6_peer_id_map t1 = rt_ipv6_peer_id_map t"
    "\<And>q. peer_reachable t1 q \<Longrightarrow> q \<in> set (known s) \<and> (path_len t1 q = 0 \<longleftrightarrow> q = me)"
proof (rule build_step [OF assms(1-3,5), of ops policy])
  fix t1
  assume b: "build_from_snapshot ops dij pop me s policy cost t = Some (clean_expired_route_info (fill_table ops me s t1))"
    and t1: "table_ok t1" "rt_next_hop_map_version t1 = rs_version s"
    and r: "\<And>q. routed (rs_version s) id (policy_edges policy (route_edges me s cost) me) me q (get_topology_next_hop t1 q)"
    and maps: "rt_ipv4_peer_id_map t1 = rt_ipv4_peer_id_map t" "rt_ipv6_peer_id_map t1 = rt_ipv6_peer_id_map t"
  let ?E = "policy_edges policy (route_edges me s cost) me"
  have reach: "q \<in> set (known s) \<and> (path_len t1 q = 0 \<longleftrightarrow> q = me)" if "peer_reachable t1 q" for q
  proof -
    from that obtain x where x: "get_next_hop t1 q = Some x" "get_topology_next_hop t1 q = Some x"
      by (auto simp: peer_reachable_def get_next_hop_def split: if_splits)
    with r [of q] obtain p w where p: "walk ?E me p q w" "q = me \<longrightarrow> p = []" "nh_path_len x = length p"
      by (auto simp: routed_def cheapest_def hop_info_def)
    have "q \<in> set (known s)" using walk_in [OF p(1), of "set (known s)"] assms(2) policy_edges_known by blast
    moreover have "p = [] \<longleftrightarrow> q = me" using p(1,2) by (auto simp: walk_start)
    ultimately show ?thesis using x(1) p(3) by (simp add: path_len_def)
  qed
  have old: "outdated_entry (rs_version s) (kv_get (rt_ipv4_peer_id_map t1) a)"
    "outdated_entry (rs_version s) (kv_get (rt_ipv6_peer_id_map t1) a6)" for a a6
    using assms(4,5) unfolding maps outdated_entry_def addresses_ok_def by (meson le_less_trans)+
  have keep: "same_hops t1 (fill_table ops me s t1)" "table_ok (fill_table ops me s t1)"
    using fill_table_keeps [of t1 ops me s] t1(1) by simp_all
  show thesis
    by (rule that [OF b fill_table_filled [OF t1(2) _ t1(1) old] keep(2) _ maps reach])
      (use reach in \<open>auto simp: clean_next_hop [OF keep(2)] same_hops_lookup [OF keep(1)]\<close>)
qed

end

lemma clean_maps:
  assumes "table_ok t"
  defines "t' \<equiv> clean_expired_route_info t"
  shows "rt_peer_infos t' = kv_retain (\<lambda>k _. peer_reachable t' k) (rt_peer_infos t)"
    "rt_ipv4_peer_id_map t' = kv_retain (\<lambda>_ v. peer_reachable t' (pv_peer_id v)) (rt_ipv4_peer_id_map t)"
    "rt_ipv6_peer_id_map t' = kv_retain (\<lambda>_ v. peer_reachable t' (pv_peer_id v)) (rt_ipv6_peer_id_map t)"
    "rt_cidr_peer_id_map t' = rt_cidr_peer_id_map t" "rt_cidr_v6_peer_id_map t' = rt_cidr_v6_peer_id_map t"
proof -
  have r: "peer_reachable u = peer_reachable t'" if "same_hops t' u" for u
    using same_hops_lookup [OF that] by (simp add: peer_reachable_def fun_eq_iff)
  define t2 where "t2 = t\<lparr>rt_next_hop_map := kv_retain (\<lambda>_ v. rt_next_hop_map_version t \<le> nh_version v) (rt_next_hop_map t)\<rparr>"
  define t3 where "t3 = t2\<lparr>rt_peer_infos := kv_retain (\<lambda>k _. peer_reachable t2 k) (rt_peer_infos t)\<rparr>"
  define t4 where "t4 = t3\<lparr>rt_ipv4_peer_id_map := kv_retain (\<lambda>_ v. peer_reachable t3 (pv_peer_id v)) (rt_ipv4_peer_id_map t)\<rparr>"
  have t': "t' = t4\<lparr>rt_ipv6_peer_id_map := kv_retain (\<lambda>_ v. peer_reachable t4 (pv_peer_id v)) (rt_ipv6_peer_id_map t)\<rparr>"
    by (simp add: t'_def clean_expired_route_info_def Let_def t2_def t3_def t4_def)
  have "same_hops t' t2" "same_hops t' t3" "same_hops t' t4" unfolding t' by (simp_all add: same_hops_def t3_def t4_def)
  note eqs = this [THEN r]
  have "rt_peer_infos t' = kv_retain (\<lambda>k _. peer_reachable t2 k) (rt_peer_infos t)"
    "rt_ipv4_peer_id_map t' = kv_retain (\<lambda>_ v. peer_reachable t3 (pv_peer_id v)) (rt_ipv4_peer_id_map t)"
    "rt_ipv6_peer_id_map t' = kv_retain (\<lambda>_ v. peer_reachable t4 (pv_peer_id v)) (rt_ipv6_peer_id_map t)"
    by (simp_all add: t' t3_def t4_def)
  then show "rt_peer_infos t' = kv_retain (\<lambda>k _. peer_reachable t' k) (rt_peer_infos t)"
    "rt_ipv4_peer_id_map t' = kv_retain (\<lambda>_ v. peer_reachable t' (pv_peer_id v)) (rt_ipv4_peer_id_map t)"
    "rt_ipv6_peer_id_map t' = kv_retain (\<lambda>_ v. peer_reachable t' (pv_peer_id v)) (rt_ipv6_peer_id_map t)"
    unfolding eqs by simp_all
  show "rt_cidr_peer_id_map t' = rt_cidr_peer_id_map t" "rt_cidr_v6_peer_id_map t' = rt_cidr_v6_peer_id_map t"
    by (simp_all add: t' t2_def t3_def t4_def)
qed

text \<open>The answer for an address: the nearest peer that announces it, or the old answer as long as that peer is reachable.\<close>

definition answers :: "'c route_table \<Rightarrow> peer_id set \<Rightarrow> peer_id option \<Rightarrow> peer_id option \<Rightarrow> bool" where
  "answers t A before after \<longleftrightarrow>
     (if A = {} then after = (case before of None \<Rightarrow> None | Some p \<Rightarrow> if peer_reachable t p then Some p else None)
      else \<exists>q \<in> A. after = Some q \<and> (\<forall>p \<in> A. path_len t q \<le> path_len t p))"

lemma claims_answer:
  assumes "claims_ok t1 ver (kv_get m0) C m" "kv_ok m" "get_next_hop t = get_next_hop t1"
  shows "answers t (C k) (map_option pv_peer_id (kv_get m0 k))
    (map_option pv_peer_id (kv_get (kv_retain (\<lambda>_ v. peer_reachable t (pv_peer_id v)) m) k))"
proof -
  have same: "peer_reachable t = peer_reachable t1" "path_len t = path_len t1"
    using assms(3) by (simp_all add: peer_reachable_def path_len_def fun_eq_iff)
  have near: "nearest t1 ver (kv_get m0 k) (C k) (kv_get m k)" and reach: "\<forall>q \<in> C k. peer_reachable t1 q"
    using assms(1) by (simp_all add: claims_ok_def)
  show ?thesis
  proof (cases "C k = {}")
    case True
    with near have "kv_get m k = kv_get m0 k" by (simp add: nearest_def)
    with True show ?thesis by (simp add: answers_def same kvm.get_retain_eq [OF assms(2)] split: option.split)
  next
    case False
    with near obtain q where "q \<in> C k" "kv_get m k = Some \<lparr>pv_peer_id = q, pv_version = ver\<rparr>" "\<forall>p \<in> C k. path_len t1 q \<le> path_len t1 p"
      by (auto simp: nearest_def)
    with reach False show ?thesis by (auto simp: answers_def same kvm.get_retain_eq [OF assms(2)])
  qed
qed

definition announces_v4 :: "route_snapshot \<Rightarrow> u32 \<Rightarrow> peer_id \<Rightarrow> bool" where
  "announces_v4 s a p \<longleftrightarrow> (\<exists>info. kv_get (lookup_peer_infos s) p = Some info \<and> rp_ipv4_addr info = Some a)"

definition announces_v6 :: "route_snapshot \<Rightarrow> 128 word \<Rightarrow> peer_id \<Rightarrow> bool" where
  "announces_v6 s a p \<longleftrightarrow> (\<exists>info. kv_get (lookup_peer_infos s) p = Some info
     \<and> (rp_ipv6_addr info \<bind> ii_address = Some a \<or> rp_ipv6_public_addr_lease info \<bind> ii_address = Some a))"

lemma announced_v4: "announced s D (\<lambda>_. v4_claims) a = {p \<in> D. announces_v4 s a p}"
  by (auto simp: announced_def announces_v4_def v4_claims_def split: option.splits)

lemma announced_v6: "announced s D (\<lambda>_. v6_claims) a = {p \<in> D. announces_v6 s a p}"
  by (auto simp: announced_def announces_v6_def v6_claims_def List.map_filter_def split: option.splits if_splits)

lemma known_info: "p \<in> set (known s) \<Longrightarrow> kv_get (lookup_peer_infos s) p \<noteq> None"
proof -
  have "p \<in> oi_peer_id ` set es \<or> kv_get m p \<noteq> None \<Longrightarrow> kv_get (fold (\<lambda>e. kv_put (oi_peer_id e) (oi_info e)) es m) p \<noteq> None" for es m
  proof (induction es arbitrary: m)
    case (Cons e es)
    then show ?case using Cons.IH [of "kv_put (oi_peer_id e) (oi_info e) m"] by auto
  qed simp
  then show "p \<in> set (known s) \<Longrightarrow> kv_get (lookup_peer_infos s) p \<noteq> None"
    unfolding lookup_peer_infos_def known_def by fastforce
qed

text \<open>
  C8: After a rebuild the table answers for an address with the nearest of the reachable peers that announce it. If no
  reachable peer announces the address, the peer of the old table is kept as long as it is reachable. Peer
  information is there for exactly the reachable peers, as the snapshot has it.
\<close>

theorem address_lookup:
  assumes "route_search pop dij" "snapshot_ok s cost" "me \<in> set (known s)"
    "table_ok t" "addresses_ok t" "rt_next_hop_map_version t < rs_version s"
  shows "\<exists>t'. build_from_snapshot ops dij pop me s policy cost t = Some t'
    \<and> (\<forall>a. answers t' {p. peer_reachable t' p \<and> announces_v4 s a p} (get_peer_id_by_ipv4 t a) (get_peer_id_by_ipv4 t' a))
    \<and> (\<forall>a. answers t' {p. peer_reachable t' p \<and> announces_v6 s a p} (get_peer_id_by_ipv6 t a) (get_peer_id_by_ipv6 t' a))
    \<and> (\<forall>p. table_get_peer_info t' p = (if peer_reachable t' p then kv_get (lookup_peer_infos s) p else None))"
proof (rule route_search.build_filled [OF assms, of ops policy])
  fix t1 tf :: "'a route_table"
  let ?t = "clean_expired_route_info tf"
  assume b: "build_from_snapshot ops dij pop me s policy cost t = Some ?t"
    and f: "filled ops me s t1 {p. peer_reachable t1 p} (tf, rt_cidr_peer_id_map tf, rt_cidr_v6_peer_id_map tf)"
    and ok: "table_ok tf" and same: "get_next_hop ?t = get_next_hop t1"
    and maps: "rt_ipv4_peer_id_map t1 = rt_ipv4_peer_id_map t" "rt_ipv6_peer_id_map t1 = rt_ipv6_peer_id_map t"
    and reach: "\<And>q. peer_reachable t1 q \<Longrightarrow> q \<in> set (known s) \<and> (path_len t1 q = 0 \<longleftrightarrow> q = me)"
  have r: "peer_reachable t1 = peer_reachable ?t" using same by (simp add: peer_reachable_def fun_eq_iff)
  have oks: "kv_ok (rt_ipv4_peer_id_map tf)" "kv_ok (rt_ipv6_peer_id_map tf)" "kv_ok (rt_peer_infos tf)" using ok by (simp_all add: table_ok_def)
  have v4: "answers ?t {p. peer_reachable ?t p \<and> announces_v4 s a p} (get_peer_id_by_ipv4 t a) (get_peer_id_by_ipv4 ?t a)" for a
    using claims_answer [of t1 _ _ _ "rt_ipv4_peer_id_map tf", OF _ oks(1) same, of "rs_version s" "rt_ipv4_peer_id_map t1" "announced s {p. peer_reachable t1 p} (\<lambda>_. v4_claims)" a] f
    by (simp add: filled_def maps r announced_v4 get_peer_id_by_ipv4_def clean_maps(2) [OF ok])
  have v6: "answers ?t {p. peer_reachable ?t p \<and> announces_v6 s a p} (get_peer_id_by_ipv6 t a) (get_peer_id_by_ipv6 ?t a)" for a
    using claims_answer [of t1 _ _ _ "rt_ipv6_peer_id_map tf", OF _ oks(2) same, of "rs_version s" "rt_ipv6_peer_id_map t1" "announced s {p. peer_reachable t1 p} (\<lambda>_. v6_claims)" a] f
    by (simp add: filled_def maps r announced_v6 get_peer_id_by_ipv6_def clean_maps(3) [OF ok])
  have "table_get_peer_info ?t p = (if peer_reachable ?t p then kv_get (lookup_peer_infos s) p else None)" for p
    using f reach [of p] known_info [of p s]
    by (auto simp: table_get_peer_info_def clean_maps(1) [OF ok] kvm.get_retain_eq [OF oks(3)] filled_def r split: option.splits)
  with b v4 v6 show ?thesis by blast
qed

lemma sample_addresses: "addresses_ok table_new"
  by (simp add: addresses_ok_def table_new_def)

lemma sample_reachable:
  assumes "build_from_snapshot sample_ops scores_of pop_min 1 sample_snapshot LeastCost (\<lambda>_ _. 5) table_new = Some t"
  shows "peer_reachable t 3" "peer_reachable t 1"
proof -
  have me: "1 \<in> set (known sample_snapshot)" by (simp add: sample_facts)
  from search.build_routes [OF sample_facts(1) me sample_facts(3,4), of sample_ops LeastCost] assms
  have "routed (rs_version sample_snapshot) id (route_edges 1 sample_snapshot (\<lambda>_ _. 5)) 1 q (get_next_hop t q)" for q
    by (simp add: policy_edges_def sample_facts(5))
  from this [of 3] this [of 1] sample_walk walk_nil [of "route_edges 1 sample_snapshot (\<lambda>_ _. 5)" 1]
  show "peer_reachable t 3" "peer_reachable t 1" by (auto simp: routed_def peer_reachable_def split: option.splits)
qed

lemma sample_announces: "announces_v4 sample_snapshot 13 p \<longleftrightarrow> p = 3"
  by (auto simp: announces_v4_def sample_snapshot_def lookup_peer_infos_def sample_info_def new_route_peer_info_with_version_def
      split: if_splits)

theorem address_lookup_witness:
  "\<exists>t. build_from_snapshot sample_ops scores_of pop_min 1 sample_snapshot LeastCost (\<lambda>_ _. 5) table_new = Some t
     \<and> get_peer_id_by_ipv4 t 13 = Some 3"
proof -
  have me: "1 \<in> set (known sample_snapshot)" by (simp add: sample_facts)
  obtain t where t: "build_from_snapshot sample_ops scores_of pop_min 1 sample_snapshot LeastCost (\<lambda>_ _. 5) table_new = Some t"
    and a: "answers t {p. peer_reachable t p \<and> announces_v4 sample_snapshot 13 p} (get_peer_id_by_ipv4 (table_new :: nat route_table) 13) (get_peer_id_by_ipv4 t 13)"
    using address_lookup [OF search.route_search_axioms sample_facts(1) me sample_facts(3) sample_addresses sample_facts(4),
        of sample_ops LeastCost] by blast
  have "{p. peer_reachable t p \<and> announces_v4 sample_snapshot 13 p} = {3}"
    using sample_reachable(1) [OF t] by (auto simp: sample_announces)
  with t a show ?thesis by (auto simp: answers_def)
qed

section \<open>Networks\<close>

definition exports :: "'c net_ops \<Rightarrow> peer_id \<Rightarrow> route_snapshot \<Rightarrow> 'c ip_cidr \<Rightarrow> peer_id \<Rightarrow> bool" where
  "exports ops me s cidr p \<longleftrightarrow> (\<exists>info. kv_get (lookup_peer_infos s) p = Some info
     \<and> (\<exists>str \<in> set (rp_proxy_cidrs info). no_from_str ops str = Some cidr)
     \<and> (p \<noteq> me \<longrightarrow> \<not> list_ex (\<lambda>l. cidr_is_subset ops cidr l) (local_proxy_cidrs ops me s)))"

lemma exported_iff:
  "exported ops me ls p str = Some cidr \<longleftrightarrow>
     no_from_str ops str = Some cidr \<and> (p \<noteq> me \<longrightarrow> \<not> list_ex (\<lambda>l. cidr_is_subset ops cidr l) ls)"
  by (auto simp: exported_def split: option.splits if_splits)

lemma cidr_case_iff:
  "(case e of Some (Cidr_V4 c') \<Rightarrow> Some c' | _ \<Rightarrow> None) = Some c \<longleftrightarrow> e = Some (Cidr_V4 c)"
  "(case e of Some (Cidr_V6 c') \<Rightarrow> Some c' | _ \<Rightarrow> None) = Some c \<longleftrightarrow> e = Some (Cidr_V6 c)"
  by (auto split: option.splits ip_cidr.splits)

lemma proxy_claims_iff:
  "c \<in> set (proxy_claims ops me ls p texts) \<longleftrightarrow> (\<exists>x \<in> set texts. no_from_str ops x = Some (Cidr_V4 c))
     \<and> (p \<noteq> me \<longrightarrow> \<not> list_ex (\<lambda>l. cidr_is_subset ops (Cidr_V4 c) l) ls)"
  "c \<in> set (proxy_v6_claims ops me ls p texts) \<longleftrightarrow> (\<exists>x \<in> set texts. no_from_str ops x = Some (Cidr_V6 c))
     \<and> (p \<noteq> me \<longrightarrow> \<not> list_ex (\<lambda>l. cidr_is_subset ops (Cidr_V6 c) l) ls)"
  unfolding proxy_claims_def proxy_v6_claims_def in_set_map_filter cidr_case_iff exported_iff by blast+

lemma announced_exports:
  "announced s D (\<lambda>p info. proxy_claims ops me (local_proxy_cidrs ops me s) p (rp_proxy_cidrs info)) c = {p \<in> D. exports ops me s (Cidr_V4 c) p}"
  "announced s D (\<lambda>p info. proxy_v6_claims ops me (local_proxy_cidrs ops me s) p (rp_proxy_cidrs info)) c = {p \<in> D. exports ops me s (Cidr_V6 c) p}"
  by (auto simp: announced_def exports_def proxy_claims_iff)

definition serves :: "'c route_table \<Rightarrow> version \<Rightarrow> peer_id \<Rightarrow> peer_id set \<Rightarrow> peer_id_version option \<Rightarrow> bool" where
  "serves t ver me A e \<longleftrightarrow>
     (if A = {} then e = None
      else \<exists>q \<in> A. e = Some \<lparr>pv_peer_id = q, pv_version = ver\<rparr> \<and> (\<forall>p \<in> A. path_len t q \<le> path_len t p) \<and> (me \<in> A \<longrightarrow> q = me))"

lemma nearest_serves:
  assumes "nearest t ver None A e" "\<And>q. q \<in> A \<Longrightarrow> path_len t q = 0 \<longleftrightarrow> q = me"
  shows "serves t ver me A e"
proof (cases "A = {}")
  case False
  with assms(1) obtain q where q: "q \<in> A" "e = Some \<lparr>pv_peer_id = q, pv_version = ver\<rparr>" "\<forall>p \<in> A. path_len t q \<le> path_len t p"
    by (auto simp: nearest_def)
  moreover have "q = me" if "me \<in> A" using q(1,3) assms(2) [OF that] assms(2) [OF q(1)] that by fastforce
  ultimately show ?thesis using False by (auto simp: serves_def)
qed (use assms in \<open>simp add: nearest_def serves_def\<close>)

text \<open>
  C9: After a rebuild a network is mapped to the nearest of the reachable peers that announce it, a network that this
  peer announces itself to this peer, and a network that lies within one of its own networks to no other peer.
\<close>

theorem proxy_lookup:
  assumes "route_search pop dij" "snapshot_ok s cost" "me \<in> set (known s)"
    "table_ok t" "addresses_ok t" "rt_next_hop_map_version t < rs_version s"
  shows "\<exists>t'. build_from_snapshot ops dij pop me s policy cost t = Some t'
    \<and> (\<forall>c. serves t' (rs_version s) me {p. peer_reachable t' p \<and> exports ops me s (Cidr_V4 c) p} (kv_get (rt_cidr_peer_id_map t') c))
    \<and> (\<forall>c. serves t' (rs_version s) me {p. peer_reachable t' p \<and> exports ops me s (Cidr_V6 c) p} (kv_get (rt_cidr_v6_peer_id_map t') c))"
proof (rule route_search.build_filled [OF assms, of ops policy])
  fix t1 tf :: "'a route_table"
  let ?t = "clean_expired_route_info tf"
  assume b: "build_from_snapshot ops dij pop me s policy cost t = Some ?t"
    and f: "filled ops me s t1 {p. peer_reachable t1 p} (tf, rt_cidr_peer_id_map tf, rt_cidr_v6_peer_id_map tf)"
    and ok: "table_ok tf" and same: "get_next_hop ?t = get_next_hop t1"
    and reach: "\<And>q. peer_reachable t1 q \<Longrightarrow> q \<in> set (known s) \<and> (path_len t1 q = 0 \<longleftrightarrow> q = me)"
  have r: "peer_reachable t1 = peer_reachable ?t" "path_len t1 = path_len ?t"
    using same by (simp_all add: peer_reachable_def path_len_def fun_eq_iff)
  have n: "nearest ?t (rs_version s) e0 A e = nearest t1 (rs_version s) e0 A e" for e0 A e by (simp add: nearest_def r)
  have "serves ?t (rs_version s) me {p. peer_reachable ?t p \<and> exports ops me s (Cidr_V4 c) p} (kv_get (rt_cidr_peer_id_map ?t) c)"
    "serves ?t (rs_version s) me {p. peer_reachable ?t p \<and> exports ops me s (Cidr_V6 c) p} (kv_get (rt_cidr_v6_peer_id_map ?t) c)" for c
    unfolding clean_maps(4,5) [OF ok]
    by (rule nearest_serves; use f reach in \<open>auto simp: filled_def claims_ok_def announced_exports n r\<close>)+
  with b show ?thesis by blast
qed

theorem proxy_lookup_witness:
  "\<exists>t. build_from_snapshot sample_ops scores_of pop_min 1 sample_snapshot LeastCost (\<lambda>_ _. 5) table_new = Some t
     \<and> kv_get (rt_cidr_peer_id_map t) 3 = Some \<lparr>pv_peer_id = 1, pv_version = rs_version sample_snapshot\<rparr>"
proof -
  have me: "1 \<in> set (known sample_snapshot)" by (simp add: sample_facts)
  obtain t where t: "build_from_snapshot sample_ops scores_of pop_min 1 sample_snapshot LeastCost (\<lambda>_ _. 5) table_new = Some t"
    and c: "serves t (rs_version sample_snapshot) 1 {p. peer_reachable t p \<and> exports sample_ops 1 sample_snapshot (Cidr_V4 3) p}
      (kv_get (rt_cidr_peer_id_map t) 3)"
    using proxy_lookup [OF search.route_search_axioms sample_facts(1) me sample_facts(3) sample_addresses sample_facts(4),
        of sample_ops LeastCost] by blast
  have "exports sample_ops 1 sample_snapshot (Cidr_V4 3) p \<longleftrightarrow> p = 1" for p
    by (auto simp: exports_def sample_snapshot_def lookup_peer_infos_def sample_info_def new_route_peer_info_with_version_def
        sample_ops_def split: if_splits)
  then have "{p. peer_reachable t p \<and> exports sample_ops 1 sample_snapshot (Cidr_V4 3) p} = {1}"
    using sample_reachable(2) [OF t] by auto
  with t c show ?thesis by (simp add: serves_def)
qed

end
