(* ===== verification/RouteWire.thy ===== *)
theory RouteWire
  imports RouteTypes
begin

text \<open>
  Editing of protobuf messages on the wire (\<^verbatim>\<open>peers/route/route_peer_wire.rs\<close>), by which route information is
  reflected with its unknown fields intact.

    \<^item> The primitives of \<^verbatim>\<open>prost\<close> are the argument \<open>ops\<close>; the locale \<open>wire_codec\<close> says what is used of them, and
      it is interpreted on an implementation of the base-128 varints of protobuf.
    \<^item> An error is \<^const>\<open>Inl\<close>. Outer \<^const>\<open>None\<close> is a parse that does not end, which the laws exclude.
    \<^item> Integers that are lengths or tags are natural numbers.
\<close>

section \<open>Fields of a message\<close>

datatype wire_type = Varint | SixtyFourBit | LengthDelimited | StartGroup | EndGroup | ThirtyTwoBit

datatype wire_error =
    DecodeFailed
  | WrongWireType nat wire_type wire_type
  | TruncatedLengthDelimited
  | PeerInfoCountMismatch

record wire_ops =
  wo_decode_key :: "bytes \<Rightarrow> (nat \<times> wire_type \<times> bytes) option"
  wo_decode_varint :: "bytes \<Rightarrow> (nat \<times> bytes) option"
  wo_skip_field :: "wire_type \<Rightarrow> nat \<Rightarrow> bytes \<Rightarrow> bytes option"
  wo_encode_key :: "nat \<Rightarrow> wire_type \<Rightarrow> bytes"
  wo_encode_varint :: "nat \<Rightarrow> bytes"

record wire_field =
  wf_tag :: nat
  wf_wire_type :: wire_type
  wf_encoded :: bytes
  wf_length_delimited :: "bytes option"

type_synonym 'a wire = "(wire_error + 'a) option"

definition wire_bind :: "'a wire \<Rightarrow> ('a \<Rightarrow> 'b wire) \<Rightarrow> 'b wire" where
  "wire_bind m f = (case m of None \<Rightarrow> None | Some (Inl e) \<Rightarrow> Some (Inl e) | Some (Inr x) \<Rightarrow> f x)"

lemma wire_bind_simps [simp]:
  "wire_bind (Some (Inr x)) f = f x" "wire_bind (Some (Inl e)) f = Some (Inl e)" "wire_bind None f = None"
  by (simp_all add: wire_bind_def)

definition SYNC_ROUTE_PEER_INFOS_TAG :: nat where "SYNC_ROUTE_PEER_INFOS_TAG = 4"
definition ROUTE_PEER_INFOS_ITEM_TAG :: nat where "ROUTE_PEER_INFOS_ITEM_TAG = 1"
definition ROUTE_PEER_INFO_PROXY_CIDRS_TAG :: nat where "ROUTE_PEER_INFO_PROXY_CIDRS_TAG = 5"
definition ROUTE_PEER_INFO_FEATURE_FLAG_TAG :: nat where "ROUTE_PEER_INFO_FEATURE_FLAG_TAG = 11"
definition ROUTE_PEER_INFO_CREDENTIAL_PROOF_TAG :: nat where "ROUTE_PEER_INFO_CREDENTIAL_PROOF_TAG = 19"
definition FEATURE_FLAG_IS_CREDENTIAL_PEER_TAG :: nat where "FEATURE_FLAG_IS_CREDENTIAL_PEER_TAG = 8"
definition CREDENTIAL_PROOF_CREDENTIAL_TAG :: nat where "CREDENTIAL_PROOF_CREDENTIAL_TAG = 1"

text \<open>The body of one turn of the loop: the field and the remaining input.\<close>

definition parse_field :: "wire_ops \<Rightarrow> bytes \<Rightarrow> wire_error + wire_field \<times> bytes" where
  "parse_field ops start =
     (case wo_decode_key ops start of
        None \<Rightarrow> Inl DecodeFailed
      | Some (tag, wt, input) \<Rightarrow>
          (let field = (\<lambda>rest ld. \<lparr>wf_tag = tag, wf_wire_type = wt, wf_encoded = take (length start - length rest) start,
                          wf_length_delimited = ld\<rparr>)
           in if wt = LengthDelimited
              then (case wo_decode_varint ops input of
                      None \<Rightarrow> Inl DecodeFailed
                    | Some (len, input) \<Rightarrow>
                        if length input < len then Inl TruncatedLengthDelimited
                        else Inr (field (drop len input) (Some (take len input)), drop len input))
              else (case wo_skip_field ops wt tag input of
                      None \<Rightarrow> Inl DecodeFailed
                    | Some input \<Rightarrow> Inr (field input None, input))))"

partial_function (option) parse_fields :: "wire_ops \<Rightarrow> bytes \<Rightarrow> (wire_error + wire_field list) option" where
  "parse_fields ops input =
     (if input = [] then Some (Inr [])
      else case parse_field ops input of
             Inl e \<Rightarrow> Some (Inl e)
           | Inr (field, rest) \<Rightarrow>
               Option.bind (parse_fields ops rest)
                 (\<lambda>r. Some (case r of Inl e \<Rightarrow> Inl e | Inr fs \<Rightarrow> Inr (field # fs))))"

fun collect_delimited :: "nat \<Rightarrow> wire_field list \<Rightarrow> wire_error + bytes list" where
  "collect_delimited tag [] = Inr []"
| "collect_delimited tag (f # fs) =
     (if wf_tag f \<noteq> tag then collect_delimited tag fs
      else case wf_length_delimited f of
             None \<Rightarrow> Inl (WrongWireType tag (wf_wire_type f) LengthDelimited)
           | Some payload \<Rightarrow>
               (case collect_delimited tag fs of Inl e \<Rightarrow> Inl e | Inr payloads \<Rightarrow> Inr (payload # payloads)))"

definition length_delimited_fields :: "wire_ops \<Rightarrow> bytes \<Rightarrow> nat \<Rightarrow> bytes list wire" where
  "length_delimited_fields ops message tag =
     wire_bind (parse_fields ops message) (\<lambda>fs. Some (collect_delimited tag fs))"

fun keep_other_fields :: "nat \<Rightarrow> wire_type \<Rightarrow> wire_field list \<Rightarrow> wire_error + bytes" where
  "keep_other_fields tag expected [] = Inr []"
| "keep_other_fields tag expected (f # fs) =
     (if wf_tag f \<noteq> tag
      then (case keep_other_fields tag expected fs of Inl e \<Rightarrow> Inl e | Inr output \<Rightarrow> Inr (wf_encoded f @ output))
      else if wf_wire_type f \<noteq> expected then Inl (WrongWireType tag (wf_wire_type f) expected)
      else keep_other_fields tag expected fs)"

definition replace_fields :: "wire_ops \<Rightarrow> bytes \<Rightarrow> nat \<Rightarrow> wire_type \<Rightarrow> bytes \<Rightarrow> bytes wire" where
  "replace_fields ops message tag expected_wire_type replacement =
     wire_bind (parse_fields ops message)
       (\<lambda>fs. case keep_other_fields tag expected_wire_type fs of
                  Inl e \<Rightarrow> Some (Inl e)
                | Inr output \<Rightarrow> Some (Inr (output @ replacement)))"

definition append_length_delimited_field :: "wire_ops \<Rightarrow> nat \<Rightarrow> bytes \<Rightarrow> bytes \<Rightarrow> bytes" where
  "append_length_delimited_field ops tag payload output =
     output @ wo_encode_key ops tag LengthDelimited @ wo_encode_varint ops (length payload) @ payload"

definition append_varint_field :: "wire_ops \<Rightarrow> nat \<Rightarrow> nat \<Rightarrow> bytes \<Rightarrow> bytes" where
  "append_varint_field ops tag val output = output @ wo_encode_key ops tag Varint @ wo_encode_varint ops val"

definition merged_length_delimited_field :: "wire_ops \<Rightarrow> bytes \<Rightarrow> nat \<Rightarrow> bytes wire" where
  "merged_length_delimited_field ops message tag =
     wire_bind (length_delimited_fields ops message tag) (\<lambda>values. Some (Inr (concat values)))"

section \<open>Route messages\<close>

fun extract_items :: "wire_ops \<Rightarrow> bytes list \<Rightarrow> bytes list wire" where
  "extract_items ops [] = Some (Inr [])"
| "extract_items ops (m # ms) =
     wire_bind (length_delimited_fields ops m ROUTE_PEER_INFOS_ITEM_TAG)
       (\<lambda>infos. wire_bind (extract_items ops ms) (\<lambda>rest. Some (Inr (infos @ rest))))"

definition extract_route_peer_infos :: "wire_ops \<Rightarrow> bytes \<Rightarrow> bytes list wire" where
  "extract_route_peer_infos ops request =
     wire_bind (length_delimited_fields ops request SYNC_ROUTE_PEER_INFOS_TAG) (extract_items ops)"

record sync_route_info_request =
  sq_my_peer_id :: peer_id
  sq_my_session_id :: u64
  sq_is_initiator :: bool
  sq_peer_infos :: "route_peer_info list option"
  sq_conn_info :: "conn_info option"
  sq_foreign_network_infos :: "foreign_network_infos option"

definition encode_sync_route_request ::
  "wire_ops \<Rightarrow> (sync_route_info_request \<Rightarrow> bytes) \<Rightarrow> sync_route_info_request \<Rightarrow> bytes list \<Rightarrow> wire_error + bytes" where
  "encode_sync_route_request ops encode_to_vec request raw_peer_infos =
     (let decoded_count = (case sq_peer_infos request of Some items \<Rightarrow> length items | None \<Rightarrow> 0)
      in if decoded_count \<noteq> length raw_peer_infos then Inl PeerInfoCountMismatch
         else let output = encode_to_vec (request\<lparr>sq_peer_infos := None\<rparr>)
              in if sq_peer_infos request \<noteq> None
                 then Inr (append_length_delimited_field ops SYNC_ROUTE_PEER_INFOS_TAG
                        (fold (append_length_delimited_field ops ROUTE_PEER_INFOS_ITEM_TAG) raw_peer_infos []) output)
                 else Inr output)"

definition str_bytes :: "string \<Rightarrow> bytes" where
  "str_bytes s = map of_char s"

definition patch_credential_route_peer_info :: "wire_ops \<Rightarrow> bytes \<Rightarrow> string list \<Rightarrow> bytes wire" where
  "patch_credential_route_peer_info ops raw proxy_cidrs =
     (let proxy_cidr_fields =
            fold (\<lambda>cidr. append_length_delimited_field ops ROUTE_PEER_INFO_PROXY_CIDRS_TAG (str_bytes cidr)) proxy_cidrs []
      in wire_bind (replace_fields ops raw ROUTE_PEER_INFO_PROXY_CIDRS_TAG LengthDelimited proxy_cidr_fields)
           (\<lambda>route_info.
             wire_bind (merged_length_delimited_field ops route_info ROUTE_PEER_INFO_FEATURE_FLAG_TAG)
               (\<lambda>feature_flag.
                 let credential_flag = append_varint_field ops FEATURE_FLAG_IS_CREDENTIAL_PEER_TAG 1 []
                 in wire_bind (replace_fields ops feature_flag FEATURE_FLAG_IS_CREDENTIAL_PEER_TAG Varint credential_flag)
                      (\<lambda>feature_flag.
                        let feature_flag_field = append_length_delimited_field ops ROUTE_PEER_INFO_FEATURE_FLAG_TAG feature_flag []
                        in replace_fields ops route_info ROUTE_PEER_INFO_FEATURE_FLAG_TAG LengthDelimited feature_flag_field))))"

definition raw_credential_bytes :: "wire_ops \<Rightarrow> bytes \<Rightarrow> nat \<Rightarrow> bytes option wire" where
  "raw_credential_bytes ops raw_route_info proof_idx =
     wire_bind (length_delimited_fields ops raw_route_info ROUTE_PEER_INFO_CREDENTIAL_PROOF_TAG)
       (\<lambda>proofs. case nth_opt proofs proof_idx of
           None \<Rightarrow> Some (Inr None)
         | Some proof \<Rightarrow>
             wire_bind (length_delimited_fields ops proof CREDENTIAL_PROOF_CREDENTIAL_TAG)
               (\<lambda>credentials. if credentials = [] then Some (Inr None) else Some (Inr (Some (concat credentials)))))"

section \<open>The contract of the primitives\<close>

definition tag_ok :: "nat \<Rightarrow> bool" where "tag_ok tag \<longleftrightarrow> 0 < tag \<and> tag < 2 ^ 29"

text \<open>A decoder reads a prefix of its input and does not look at the rest; encoders and decoders fit together.\<close>

locale wire_codec =
  fixes ops :: wire_ops
  assumes key_split: "wo_decode_key ops xs = Some (tag, wt, ys) \<Longrightarrow>
      \<exists>zs. zs \<noteq> [] \<and> xs = zs @ ys \<and> (\<forall>r. wo_decode_key ops (zs @ r) = Some (tag, wt, r))"
    and varint_split: "wo_decode_varint ops xs = Some (n, ys) \<Longrightarrow>
      \<exists>zs. xs = zs @ ys \<and> (\<forall>r. wo_decode_varint ops (zs @ r) = Some (n, r))"
    and skip_split: "wo_skip_field ops wt tag xs = Some ys \<Longrightarrow>
      \<exists>zs. xs = zs @ ys \<and> (\<forall>r. wo_skip_field ops wt tag (zs @ r) = Some r)"
    and key_round: "tag_ok tag \<Longrightarrow> wo_decode_key ops (wo_encode_key ops tag wt @ r) = Some (tag, wt, r)"
    and varint_round: "n < 2 ^ 64 \<Longrightarrow> wo_decode_varint ops (wo_encode_varint ops n @ r) = Some (n, r)"
    and varint_skip: "n < 2 ^ 64 \<Longrightarrow> wo_skip_field ops Varint tag (wo_encode_varint ops n @ r) = Some r"
begin

lemma parse_field_split:
  assumes "parse_field ops xs = Inr (f, ys)"
  shows "wf_encoded f \<noteq> [] \<and> xs = wf_encoded f @ ys \<and> (\<forall>r. parse_field ops (wf_encoded f @ r) = Inr (f, r))"
proof -
  from assms obtain tag wt input where k: "wo_decode_key ops xs = Some (tag, wt, input)"
    by (auto simp: parse_field_def split: option.splits)
  then obtain ks where ks: "ks \<noteq> []" "xs = ks @ input" "\<And>r. wo_decode_key ops (ks @ r) = Some (tag, wt, r)"
    using key_split by blast
  show ?thesis
  proof (cases "wt = LengthDelimited")
    case True
    with assms k obtain len rest where l: "wo_decode_varint ops input = Some (len, rest)" "len \<le> length rest" "ys = drop len rest"
      "f = \<lparr>wf_tag = tag, wf_wire_type = wt, wf_encoded = take (length xs - length ys) xs, wf_length_delimited = Some (take len rest)\<rparr>"
      by (auto simp: parse_field_def Let_def not_less split: option.splits if_splits)
    from varint_split [OF l(1)] obtain vs where vs: "input = vs @ rest" "\<And>r. wo_decode_varint ops (vs @ r) = Some (len, r)" by blast
    have xs: "xs = (ks @ vs @ take len rest) @ ys" using ks(2) vs(1) l(3) by simp
    then have enc: "wf_encoded f = ks @ vs @ take len rest" using l(4) by (metis append_eq_conv_conj diff_diff_cancel length_append le_add1 add_diff_cancel_right' wire_field.select_convs(3))
    have "parse_field ops (wf_encoded f @ r) = Inr (f, r)" for r
      unfolding enc using ks(3) vs(2) l True enc by (simp add: parse_field_def Let_def)
    with enc xs ks(1) show ?thesis by simp
  next
    case False
    with assms k obtain l: "wo_skip_field ops wt tag input = Some ys"
      "f = \<lparr>wf_tag = tag, wf_wire_type = wt, wf_encoded = take (length xs - length ys) xs, wf_length_delimited = None\<rparr>"
      by (auto simp: parse_field_def Let_def split: option.splits if_splits)
    from skip_split [OF l(1)] obtain vs where vs: "input = vs @ ys" "\<And>r. wo_skip_field ops wt tag (vs @ r) = Some r" by blast
    have xs: "xs = (ks @ vs) @ ys" using ks(2) vs(1) by simp
    then have enc: "wf_encoded f = ks @ vs" using l(2) by simp
    have "parse_field ops (wf_encoded f @ r) = Inr (f, r)" for r
      unfolding enc using ks(3) vs(2) l False enc by (simp add: parse_field_def Let_def)
    with enc xs ks(1) show ?thesis by simp
  qed
qed

lemma parse_fields_Nil: "parse_fields ops [] = Some (Inr [])"
  by (subst parse_fields.simps) simp

lemma parse_fields_step:
  assumes "parse_field ops xs = Inr (f, ys)"
  shows "parse_fields ops xs = wire_bind (parse_fields ops ys) (\<lambda>fs. Some (Inr (f # fs)))"
proof -
  have "xs \<noteq> []" using parse_field_split [OF assms] by auto
  then show ?thesis
    by (subst parse_fields.simps) (simp add: assms wire_bind_def Option.bind_def split: option.split sum.split)
qed

lemma parse_fields_error: "xs \<noteq> [] \<Longrightarrow> parse_field ops xs = Inl e \<Longrightarrow> parse_fields ops xs = Some (Inl e)"
  by (subst parse_fields.simps) simp

lemma parse_total: "\<exists>r. parse_fields ops xs = Some r"
proof (induction xs rule: length_induct)
  case (1 xs)
  show ?case
  proof (cases "xs = []")
    case False
    show ?thesis
    proof (cases "parse_field ops xs")
      case (Inr x)
      obtain f ys where x: "x = (f, ys)" by (cases x)
      from parse_field_split [OF Inr [unfolded x]] have "length ys < length xs" by (metis length_append length_greater_0_conv less_add_same_cancel2)
      with 1 obtain r where "parse_fields ops ys = Some r" by blast
      with parse_fields_step [OF Inr [unfolded x]] show ?thesis by (cases r) auto
    qed (use parse_fields_error [OF False] in blast)
  qed (use parse_fields_Nil in blast)
qed

definition field_ok :: "wire_field \<Rightarrow> bool" where
  "field_ok f \<longleftrightarrow> wf_encoded f \<noteq> [] \<and> (\<forall>r. parse_field ops (wf_encoded f @ r) = Inr (f, r))"

text \<open>A message is the concatenation of its fields, and any sequence of fields is a message.\<close>

lemma parse_iff:
  "parse_fields ops xs = Some (Inr fs) \<longleftrightarrow> (\<forall>f \<in> set fs. field_ok f) \<and> xs = concat (map wf_encoded fs)"
proof (induction fs arbitrary: xs)
  case Nil
  have "parse_fields ops xs = Some (Inr []) \<Longrightarrow> xs = []"
  proof (rule ccontr)
    assume p: "parse_fields ops xs = Some (Inr [])" and ne: "xs \<noteq> []"
    show False
    proof (cases "parse_field ops xs")
      case (Inl e)
      with parse_fields_error [OF ne] p show False by simp
    next
      case (Inr x)
      obtain f ys where x: "x = (f, ys)" by (cases x)
      obtain r where "parse_fields ops ys = Some r" using parse_total by blast
      with parse_fields_step [OF Inr [unfolded x]] p show False by (cases r) auto
    qed
  qed
  then show ?case using parse_fields_Nil by auto
next
  case (Cons f fs)
  show ?case
  proof
    assume p: "parse_fields ops xs = Some (Inr (f # fs))"
    then have ne: "xs \<noteq> []" using parse_fields_Nil by auto
    then obtain g ys where g: "parse_field ops xs = Inr (g, ys)"
      using p parse_fields_error by (cases "parse_field ops xs") force+
    obtain r where r: "parse_fields ops ys = Some r" using parse_total by blast
    with parse_fields_step [OF g] p have "g = f" "parse_fields ops ys = Some (Inr fs)" by (cases r; auto)+
    with Cons.IH [of ys] parse_field_split [OF g]
    show "(\<forall>f \<in> set (f # fs). field_ok f) \<and> xs = concat (map wf_encoded (f # fs))" by (auto simp: field_ok_def)
  next
    assume ok: "(\<forall>f \<in> set (f # fs). field_ok f) \<and> xs = concat (map wf_encoded (f # fs))"
    then have "parse_field ops xs = Inr (f, concat (map wf_encoded fs))" by (simp add: field_ok_def)
    from parse_fields_step [OF this] Cons.IH [of "concat (map wf_encoded fs)"] ok
    show "parse_fields ops xs = Some (Inr (f # fs))" by simp
  qed
qed

lemma field_ok_delimited: "field_ok f \<Longrightarrow> wf_length_delimited f \<noteq> None \<longleftrightarrow> wf_wire_type f = LengthDelimited"
proof -
  assume "field_ok f"
  then have "parse_field ops (wf_encoded f) = Inr (f, [])" by (metis append_Nil2 field_ok_def)
  then show ?thesis by (cases f) (auto simp: parse_field_def Let_def split: option.splits if_splits)
qed

end

definition ld_field :: "wire_ops \<Rightarrow> nat \<Rightarrow> bytes \<Rightarrow> wire_field" where
  "ld_field ops tag payload =
     \<lparr>wf_tag = tag, wf_wire_type = LengthDelimited,
      wf_encoded = wo_encode_key ops tag LengthDelimited @ wo_encode_varint ops (length payload) @ payload,
      wf_length_delimited = Some payload\<rparr>"

definition varint_field :: "wire_ops \<Rightarrow> nat \<Rightarrow> nat \<Rightarrow> wire_field" where
  "varint_field ops tag n =
     \<lparr>wf_tag = tag, wf_wire_type = Varint, wf_encoded = wo_encode_key ops tag Varint @ wo_encode_varint ops n,
      wf_length_delimited = None\<rparr>"

lemma append_ld: "append_length_delimited_field ops tag payload out = out @ wf_encoded (ld_field ops tag payload)"
  by (simp add: append_length_delimited_field_def ld_field_def)

lemma fold_append_ld:
  "fold (\<lambda>x. append_length_delimited_field ops tag (g x)) xs out = out @ concat (map (\<lambda>x. wf_encoded (ld_field ops tag (g x))) xs)"
  by (induction xs arbitrary: out) (simp_all add: append_ld)

text \<open>Collecting and replacing fields, on the fields of a message.\<close>

lemma collect_ok:
  "\<forall>f \<in> set fs. wf_tag f = tag \<longrightarrow> wf_length_delimited f \<noteq> None \<Longrightarrow>
    collect_delimited tag fs = Inr (map (\<lambda>f. the (wf_length_delimited f)) (filter (\<lambda>f. wf_tag f = tag) fs))"
  by (induction fs) auto

lemma collect_filter: "\<forall>f \<in> set fs. wf_tag f = tag \<longrightarrow> P f \<Longrightarrow> collect_delimited tag (filter P fs) = collect_delimited tag fs"
  by (induction fs) (auto split: option.split)

lemma collect_append: "collect_delimited tag (fs @ gs) =
    (case collect_delimited tag fs of Inl e \<Rightarrow> Inl e
     | Inr xs \<Rightarrow> (case collect_delimited tag gs of Inl e \<Rightarrow> Inl e | Inr ys \<Rightarrow> Inr (xs @ ys)))"
  by (induction fs) (auto split: option.split sum.split)

lemma keep_ok:
  "\<forall>f \<in> set fs. wf_tag f = tag \<longrightarrow> wf_wire_type f = expected \<Longrightarrow>
    keep_other_fields tag expected fs = Inr (concat (map wf_encoded (filter (\<lambda>f. wf_tag f \<noteq> tag) fs)))"
  by (induction fs) auto

context wire_codec
begin

lemma ld_field_ok: "tag_ok tag \<Longrightarrow> length payload < 2 ^ 64 \<Longrightarrow> field_ok (ld_field ops tag payload)"
proof -
  assume t: "tag_ok tag" and l: "length payload < 2 ^ 64"
  have "wo_encode_key ops tag LengthDelimited \<noteq> []"
    using key_split [OF key_round [OF t, of LengthDelimited "[]"]] by auto
  then show ?thesis
    using key_round [OF t] varint_round [OF l] by (simp add: field_ok_def parse_field_def ld_field_def Let_def)
qed

lemma varint_field_ok: "tag_ok tag \<Longrightarrow> n < 2 ^ 64 \<Longrightarrow> field_ok (varint_field ops tag n)"
proof -
  assume t: "tag_ok tag" and l: "n < 2 ^ 64"
  have "wo_encode_key ops tag Varint \<noteq> []" using key_split [OF key_round [OF t, of Varint "[]"]] by auto
  then show ?thesis
    using key_round [OF t] varint_skip [OF l] by (simp add: field_ok_def parse_field_def varint_field_def Let_def)
qed

lemma delimited_iff:
  "parse_fields ops m = Some (Inr fs) \<Longrightarrow> length_delimited_fields ops m tag = Some (collect_delimited tag fs)"
  by (simp add: length_delimited_fields_def)

lemma replace_ok:
  assumes "parse_fields ops m = Some (Inr fs)" "\<forall>f \<in> set fs. wf_tag f = tag \<longrightarrow> wf_wire_type f = expected"
    "\<forall>g \<in> set gs. field_ok g"
  shows "replace_fields ops m tag expected (concat (map wf_encoded gs)) =
      Some (Inr (concat (map wf_encoded (filter (\<lambda>f. wf_tag f \<noteq> tag) fs @ gs))))"
    and "parse_fields ops (concat (map wf_encoded (filter (\<lambda>f. wf_tag f \<noteq> tag) fs @ gs))) = Some (Inr (filter (\<lambda>f. wf_tag f \<noteq> tag) fs @ gs))"
proof -
  show "replace_fields ops m tag expected (concat (map wf_encoded gs)) =
      Some (Inr (concat (map wf_encoded (filter (\<lambda>f. wf_tag f \<noteq> tag) fs @ gs))))"
    using keep_ok [OF assms(2)] by (simp add: replace_fields_def assms(1))
  show "parse_fields ops (concat (map wf_encoded (filter (\<lambda>f. wf_tag f \<noteq> tag) fs @ gs))) = Some (Inr (filter (\<lambda>f. wf_tag f \<noteq> tag) fs @ gs))"
    using assms(1,3) by (auto simp: parse_iff)
qed

end

section \<open>Base-128 varints\<close>

text \<open>
  The primitives as the protobuf encoding defines them: seven bits per byte, least significant first, at most ten
  bytes and below \<open>2 ^ 64\<close>; a key holds the tag above three bits of wire type. Groups, which no message of the
  program has, are refused.
\<close>

fun leb_encode :: "nat \<Rightarrow> bytes" where
  "leb_encode n = (if n < 128 then [word_of_nat n] else word_of_nat (n mod 128 + 128) # leb_encode (n div 128))"

fun leb_decode :: "nat \<Rightarrow> bytes \<Rightarrow> (nat \<times> bytes) option" where
  "leb_decode 0 bs = None"
| "leb_decode (Suc k) [] = None"
| "leb_decode (Suc k) (b # bs) =
     (if unat b < 128 then Some (unat b, bs)
      else case leb_decode k bs of None \<Rightarrow> None | Some (n, r) \<Rightarrow> Some (unat b - 128 + 128 * n, r))"

declare leb_encode.simps [simp del]

definition pb_decode_varint :: "bytes \<Rightarrow> (nat \<times> bytes) option" where
  "pb_decode_varint bs = (case leb_decode 10 bs of Some (n, r) \<Rightarrow> if n < 2 ^ 64 then Some (n, r) else None | None \<Rightarrow> None)"

fun wire_type_code :: "wire_type \<Rightarrow> nat" where
  "wire_type_code Varint = 0"
| "wire_type_code SixtyFourBit = 1"
| "wire_type_code LengthDelimited = 2"
| "wire_type_code StartGroup = 3"
| "wire_type_code EndGroup = 4"
| "wire_type_code ThirtyTwoBit = 5"

definition wire_type_of :: "nat \<Rightarrow> wire_type option" where
  "wire_type_of c = nth_opt [Varint, SixtyFourBit, LengthDelimited, StartGroup, EndGroup, ThirtyTwoBit] c"

definition pb_decode_key :: "bytes \<Rightarrow> (nat \<times> wire_type \<times> bytes) option" where
  "pb_decode_key bs =
     (case pb_decode_varint bs of
        None \<Rightarrow> None
      | Some (n, r) \<Rightarrow>
          if 2 ^ 32 \<le> n \<or> n div 8 = 0 then None
          else map_option (\<lambda>wt. (n div 8, wt, r)) (wire_type_of (n mod 8)))"

definition pb_skip :: "nat \<Rightarrow> bytes \<Rightarrow> bytes option" where
  "pb_skip n bs = (if length bs < n then None else Some (drop n bs))"

fun pb_skip_field :: "wire_type \<Rightarrow> nat \<Rightarrow> bytes \<Rightarrow> bytes option" where
  "pb_skip_field Varint tag bs = map_option snd (pb_decode_varint bs)"
| "pb_skip_field SixtyFourBit tag bs = pb_skip 8 bs"
| "pb_skip_field ThirtyTwoBit tag bs = pb_skip 4 bs"
| "pb_skip_field LengthDelimited tag bs = (case pb_decode_varint bs of None \<Rightarrow> None | Some (n, r) \<Rightarrow> pb_skip n r)"
| "pb_skip_field StartGroup tag bs = None"
| "pb_skip_field EndGroup tag bs = None"

definition protobuf :: wire_ops where
  "protobuf = \<lparr>wo_decode_key = pb_decode_key, wo_decode_varint = pb_decode_varint, wo_skip_field = pb_skip_field,
     wo_encode_key = (\<lambda>tag wt. leb_encode (tag * 8 + wire_type_code wt)), wo_encode_varint = leb_encode\<rparr>"

lemma leb_round: "n < 128 ^ k \<Longrightarrow> 0 < k \<Longrightarrow> leb_decode k (leb_encode n @ r) = Some (n, r)"
proof (induction k arbitrary: n)
  case (Suc k)
  show ?case
  proof (cases "n < 128")
    case True
    then have "unat (word_of_nat n :: u8) = n" by (simp add: unat_of_nat)
    with True show ?thesis by (subst leb_encode.simps) simp
  next
    case False
    then have k: "0 < k" using Suc.prems(1) by (cases k) auto
    have "n div 128 < 128 ^ k" using Suc.prems(1) by (simp add: div_less_iff_less_mult mult.commute)
    note Suc.IH [OF this k]
    moreover have "unat (word_of_nat (n mod 128 + 128) :: u8) = n mod 128 + 128"
      using mod_less_divisor [of 128 n] by (subst unat_of_nat) (simp add: mod_less)
    ultimately show ?thesis using False by (subst leb_encode.simps) simp
  qed
qed simp

lemma leb_split:
  "leb_decode k xs = Some (n, ys) \<Longrightarrow> \<exists>zs. zs \<noteq> [] \<and> xs = zs @ ys \<and> (\<forall>r. leb_decode k (zs @ r) = Some (n, r))"
proof (induction k xs arbitrary: n rule: leb_decode.induct)
  case (3 k b bs)
  show ?case
  proof (cases "unat b < 128")
    case True
    with "3.prems" show ?thesis by (intro exI [of _ "[b]"]) auto
  next
    case False
    with "3.prems" obtain m where m: "leb_decode k bs = Some (m, ys)" "n = unat b - 128 + 128 * m"
      by (auto split: option.splits)
    from "3.IH" [OF False m(1)] obtain zs where "bs = zs @ ys" "\<And>r. leb_decode k (zs @ r) = Some (m, r)" by blast
    with False m(2) show ?thesis by (intro exI [of _ "b # zs"]) auto
  qed
qed simp_all

lemma pb_varint_round: "n < 2 ^ 64 \<Longrightarrow> pb_decode_varint (leb_encode n @ r) = Some (n, r)"
  by (simp add: pb_decode_varint_def leb_round)

lemma pb_varint_split:
  assumes "pb_decode_varint xs = Some (n, ys)"
  shows "\<exists>zs. zs \<noteq> [] \<and> xs = zs @ ys \<and> (\<forall>r. pb_decode_varint (zs @ r) = Some (n, r))"
proof -
  from assms have n: "leb_decode 10 xs = Some (n, ys)" "n < 2 ^ 64"
    by (auto simp: pb_decode_varint_def split: option.splits if_splits)
  from leb_split [OF n(1)] n(2) show ?thesis by (auto simp: pb_decode_varint_def)
qed

lemma wire_type_code: "wire_type_of (wire_type_code wt) = Some wt" "wire_type_code wt < 8"
  by (cases wt; simp add: wire_type_of_def nth_opt_def)+

lemma pb_key_round: "tag_ok tag \<Longrightarrow> pb_decode_key (leb_encode (tag * 8 + wire_type_code wt) @ r) = Some (tag, wt, r)"
proof -
  assume t: "tag_ok tag"
  let ?n = "tag * 8 + wire_type_code wt"
  have n: "?n < 2 ^ 32" "?n div 8 = tag" "?n mod 8 = wire_type_code wt"
    using t wire_type_code(2) [of wt] by (simp_all add: tag_ok_def)
  then have "pb_decode_varint (leb_encode ?n @ r) = Some (?n, r)" by (intro pb_varint_round) simp
  with n t show ?thesis by (simp add: pb_decode_key_def tag_ok_def wire_type_code(1))
qed

lemma pb_key_split:
  assumes "pb_decode_key xs = Some (tag, wt, ys)"
  shows "\<exists>zs. zs \<noteq> [] \<and> xs = zs @ ys \<and> (\<forall>r. pb_decode_key (zs @ r) = Some (tag, wt, r))"
proof -
  from assms obtain n rest where v: "pb_decode_varint xs = Some (n, rest)"
    unfolding pb_decode_key_def by (cases "pb_decode_varint xs") auto
  with assms have n: "\<not> (2 ^ 32 \<le> n \<or> n div 8 = 0)" "map_option (\<lambda>wt. (n div 8, wt, rest)) (wire_type_of (n mod 8)) = Some (tag, wt, ys)"
    unfolding pb_decode_key_def by (simp_all split: if_split_asm)
  then have rest: "rest = ys" "tag = n div 8" "wire_type_of (n mod 8) = Some wt" by (auto simp: map_option_eq_Some)
  from pb_varint_split [OF v] obtain zs where zs: "zs \<noteq> []" "xs = zs @ rest" "\<And>r. pb_decode_varint (zs @ r) = Some (n, r)" by blast
  have "pb_decode_key (zs @ r) = Some (tag, wt, r)" for r
    unfolding pb_decode_key_def zs(3) using n(1) rest by simp
  with zs(1,2) rest(1) show ?thesis by blast
qed

lemma pb_skip_split: "pb_skip n xs = Some ys \<Longrightarrow> \<exists>zs. xs = zs @ ys \<and> (\<forall>r. pb_skip n (zs @ r) = Some r)"
  by (rule exI [of _ "take n xs"]) (auto simp: pb_skip_def split: if_splits)

lemma pb_skip_field_split:
  assumes "pb_skip_field wt tag xs = Some ys"
  shows "\<exists>zs. xs = zs @ ys \<and> (\<forall>r. pb_skip_field wt tag (zs @ r) = Some r)"
proof (cases wt)
  case Varint
  with assms obtain n where "pb_decode_varint xs = Some (n, ys)" by auto
  from pb_varint_split [OF this] Varint show ?thesis by auto
next
  case LengthDelimited
  with assms obtain n r where n: "pb_decode_varint xs = Some (n, r)" "pb_skip n r = Some ys" by (auto split: option.splits)
  from pb_varint_split [OF n(1)] obtain vs where v: "xs = vs @ r" "\<And>r. pb_decode_varint (vs @ r) = Some (n, r)" by blast
  from pb_skip_split [OF n(2)] obtain zs where "r = zs @ ys" "\<And>r. pb_skip n (zs @ r) = Some r" by blast
  with v LengthDelimited show ?thesis by (intro exI [of _ "vs @ zs"]) simp
qed (use assms pb_skip_split in auto)

interpretation pb: wire_codec protobuf
  by unfold_locales
    (simp_all add: protobuf_def pb_key_split pb_varint_round pb_key_round pb_skip_field_split,
     meson pb_varint_split)

section \<open>Reflecting route information\<close>

lemma tags_ok:
  "tag_ok SYNC_ROUTE_PEER_INFOS_TAG" "tag_ok ROUTE_PEER_INFOS_ITEM_TAG" "tag_ok ROUTE_PEER_INFO_PROXY_CIDRS_TAG"
  "tag_ok ROUTE_PEER_INFO_FEATURE_FLAG_TAG" "tag_ok FEATURE_FLAG_IS_CREDENTIAL_PEER_TAG"
  by (simp_all add: tag_ok_def SYNC_ROUTE_PEER_INFOS_TAG_def ROUTE_PEER_INFOS_ITEM_TAG_def ROUTE_PEER_INFO_PROXY_CIDRS_TAG_def
      ROUTE_PEER_INFO_FEATURE_FLAG_TAG_def FEATURE_FLAG_IS_CREDENTIAL_PEER_TAG_def)

lemma tags_distinct:
  "ROUTE_PEER_INFO_FEATURE_FLAG_TAG \<noteq> ROUTE_PEER_INFO_PROXY_CIDRS_TAG"
  "ROUTE_PEER_INFO_CREDENTIAL_PROOF_TAG \<noteq> ROUTE_PEER_INFO_PROXY_CIDRS_TAG"
  "ROUTE_PEER_INFO_CREDENTIAL_PROOF_TAG \<noteq> ROUTE_PEER_INFO_FEATURE_FLAG_TAG"
  by (simp_all add: ROUTE_PEER_INFO_PROXY_CIDRS_TAG_def ROUTE_PEER_INFO_FEATURE_FLAG_TAG_def ROUTE_PEER_INFO_CREDENTIAL_PROOF_TAG_def)

definition delimited_payloads :: "nat \<Rightarrow> wire_field list \<Rightarrow> bytes list" where
  "delimited_payloads tag fs = map (\<lambda>f. the (wf_length_delimited f)) (filter (\<lambda>f. wf_tag f = tag) fs)"

definition cidr_fields :: "wire_ops \<Rightarrow> string list \<Rightarrow> wire_field list" where
  "cidr_fields ops cidrs = map (\<lambda>c. ld_field ops ROUTE_PEER_INFO_PROXY_CIDRS_TAG (str_bytes c)) cidrs"

context wire_codec
begin

lemma collect_parsed:
  assumes "parse_fields ops m = Some (Inr fs)" "\<forall>f \<in> set fs. wf_tag f = tag \<longrightarrow> wf_wire_type f = LengthDelimited"
  shows "length_delimited_fields ops m tag = Some (Inr (delimited_payloads tag fs))"
proof -
  have "\<forall>f \<in> set fs. wf_tag f = tag \<longrightarrow> wf_length_delimited f \<noteq> None"
    using assms field_ok_delimited by (auto simp: parse_iff)
  then show ?thesis by (simp add: delimited_iff [OF assms(1)] collect_ok delimited_payloads_def)
qed

lemma patch_ok:
  assumes fs: "parse_fields ops raw = Some (Inr fs)"
    and types: "\<forall>f \<in> set fs. wf_tag f = ROUTE_PEER_INFO_PROXY_CIDRS_TAG \<or> wf_tag f = ROUTE_PEER_INFO_FEATURE_FLAG_TAG \<longrightarrow> wf_wire_type f = LengthDelimited"
    and flags: "parse_fields ops (concat (delimited_payloads ROUTE_PEER_INFO_FEATURE_FLAG_TAG fs)) = Some (Inr flags)"
    and flag: "\<forall>f \<in> set flags. wf_tag f = FEATURE_FLAG_IS_CREDENTIAL_PEER_TAG \<longrightarrow> wf_wire_type f = Varint"
    and cidrs: "\<forall>c \<in> set cidrs. length c < 2 ^ 64"
  defines "flags' \<equiv> filter (\<lambda>f. wf_tag f \<noteq> FEATURE_FLAG_IS_CREDENTIAL_PEER_TAG) flags @ [varint_field ops FEATURE_FLAG_IS_CREDENTIAL_PEER_TAG 1]"
  defines "flag_bytes \<equiv> concat (map wf_encoded flags')"
  assumes len: "length flag_bytes < 2 ^ 64"
  defines "fs' \<equiv> filter (\<lambda>f. wf_tag f \<noteq> ROUTE_PEER_INFO_PROXY_CIDRS_TAG \<and> wf_tag f \<noteq> ROUTE_PEER_INFO_FEATURE_FLAG_TAG) fs
    @ cidr_fields ops cidrs @ [ld_field ops ROUTE_PEER_INFO_FEATURE_FLAG_TAG flag_bytes]"
  shows "patch_credential_route_peer_info ops raw cidrs = Some (Inr (concat (map wf_encoded fs')))"
    and "parse_fields ops (concat (map wf_encoded fs')) = Some (Inr fs')"
    and "parse_fields ops flag_bytes = Some (Inr flags')"
proof -
  let ?P = ROUTE_PEER_INFO_PROXY_CIDRS_TAG and ?F = ROUTE_PEER_INFO_FEATURE_FLAG_TAG and ?C = FEATURE_FLAG_IS_CREDENTIAL_PEER_TAG
  let ?mid = "filter (\<lambda>f. wf_tag f \<noteq> ?P) fs @ cidr_fields ops cidrs" and ?one = "[varint_field ops ?C 1]"
  have cidr_ok: "\<forall>g \<in> set (cidr_fields ops cidrs). field_ok g"
    using cidrs by (auto simp: cidr_fields_def str_bytes_def intro!: ld_field_ok tags_ok)
  have cidr_bytes: "fold (\<lambda>cidr. append_length_delimited_field ops ?P (str_bytes cidr)) cidrs [] = concat (map wf_encoded (cidr_fields ops cidrs))"
    by (simp add: fold_append_ld cidr_fields_def comp_def)
  have cidr_tag: "\<forall>g \<in> set (cidr_fields ops cidrs). wf_tag g = ?P \<and> wf_wire_type g = LengthDelimited"
    by (auto simp: cidr_fields_def ld_field_def)
  note r1 = replace_ok [OF fs _ cidr_ok, of ?P LengthDelimited]
  have mid: "\<forall>f \<in> set ?mid. wf_tag f = ?F \<longrightarrow> wf_wire_type f = LengthDelimited"
    using types cidr_tag tags_distinct by auto
  have no_flag: "filter (\<lambda>f. wf_tag f = ?F) (cidr_fields ops cidrs) = []"
    using cidr_tag tags_distinct(1) by (auto simp: filter_empty_conv)
  have "filter (\<lambda>f. wf_tag f = ?F) (filter (\<lambda>f. wf_tag f \<noteq> ?P) fs) = filter (\<lambda>f. wf_tag f = ?F) fs"
    using tags_distinct(1) by (auto intro!: filter_cong)
  then have same: "delimited_payloads ?F ?mid = delimited_payloads ?F fs"
    using no_flag by (simp add: delimited_payloads_def)
  have merged: "merged_length_delimited_field ops (concat (map wf_encoded ?mid)) ?F = Some (Inr (concat (delimited_payloads ?F fs)))"
    using collect_parsed [OF r1(2) mid] types same by (simp add: merged_length_delimited_field_def)
  have one_ok: "\<forall>g \<in> set ?one. field_ok g" by (simp add: varint_field_ok tags_ok)
  have one: "append_varint_field ops ?C 1 [] = concat (map wf_encoded ?one)" by (simp add: append_varint_field_def varint_field_def)
  note r2 = replace_ok [OF flags flag one_ok]
  have last_ok: "\<forall>g \<in> set [ld_field ops ?F flag_bytes]. field_ok g" by (simp add: ld_field_ok [OF tags_ok(4) len])
  have last: "append_length_delimited_field ops ?F flag_bytes [] = concat (map wf_encoded [ld_field ops ?F flag_bytes])" by (simp add: append_ld)
  note r3 = replace_ok [OF r1(2) mid last_ok]
  have "filter (\<lambda>f. wf_tag f \<noteq> ?F) (cidr_fields ops cidrs) = cidr_fields ops cidrs"
    using cidr_tag tags_distinct(1) by (auto simp: filter_id_conv)
  then have fs': "filter (\<lambda>f. wf_tag f \<noteq> ?F) ?mid @ [ld_field ops ?F flag_bytes] = fs'" by (simp add: fs'_def)
  show "parse_fields ops flag_bytes = Some (Inr flags')" using r2(2) by (simp only: flag_bytes_def flags'_def)
  show "parse_fields ops (concat (map wf_encoded fs')) = Some (Inr fs')" using r3(2) types unfolding fs' by blast
  have s2: "replace_fields ops (concat (delimited_payloads ?F fs)) ?C Varint (concat (map wf_encoded ?one)) = Some (Inr flag_bytes)"
    using r2(1) by (simp only: flag_bytes_def flags'_def)
  have s1: "replace_fields ops raw ?P LengthDelimited (concat (map wf_encoded (cidr_fields ops cidrs))) = Some (Inr (concat (map wf_encoded ?mid)))"
    using r1(1) types by blast
  have s3: "replace_fields ops (concat (map wf_encoded ?mid)) ?F LengthDelimited (append_length_delimited_field ops ?F flag_bytes [])
      = Some (Inr (concat (map wf_encoded fs')))"
    using r3(1) types unfolding fs' last by blast
  show "patch_credential_route_peer_info ops raw cidrs = Some (Inr (concat (map wf_encoded fs')))"
    unfolding patch_credential_route_peer_info_def Let_def cidr_bytes one s1 wire_bind_simps merged s2 by (rule s3)
qed

end

text \<open>What a credential peer has signed reads the same after the patch.\<close>

lemma collect_other:
  assumes "tag \<noteq> a" "tag \<noteq> b" "\<forall>g \<in> set gs. wf_tag g = a \<or> wf_tag g = b"
  shows "collect_delimited tag (filter (\<lambda>f. wf_tag f \<noteq> a \<and> wf_tag f \<noteq> b) fs @ gs) = collect_delimited tag fs"
proof -
  have gs: "collect_delimited tag gs = Inr []" using assms by (induction gs) auto
  have "collect_delimited tag (filter (\<lambda>f. wf_tag f \<noteq> a \<and> wf_tag f \<noteq> b) fs) = collect_delimited tag fs"
    by (rule collect_filter) (use assms(1,2) in auto)
  then show ?thesis by (simp add: collect_append gs split: sum.split)
qed

text \<open>
  C38: Patching the route information of a credential peer succeeds on every well-formed message. Every field but the
  proxy networks and the feature flag is kept byte for byte and in order, unknown fields included; the networks are
  replaced by the given ones; within the feature flag all fields are kept and the credential mark is set. The signed
  credential bytes read the same as before.
\<close>

theorem patch_preserves:
  assumes "wire_codec ops" and fs: "parse_fields ops raw = Some (Inr fs)"
    and "\<forall>f \<in> set fs. wf_tag f = ROUTE_PEER_INFO_PROXY_CIDRS_TAG \<or> wf_tag f = ROUTE_PEER_INFO_FEATURE_FLAG_TAG \<longrightarrow> wf_wire_type f = LengthDelimited"
    and "parse_fields ops (concat (delimited_payloads ROUTE_PEER_INFO_FEATURE_FLAG_TAG fs)) = Some (Inr flags)"
    and "\<forall>f \<in> set flags. wf_tag f = FEATURE_FLAG_IS_CREDENTIAL_PEER_TAG \<longrightarrow> wf_wire_type f = Varint"
    and "\<forall>c \<in> set cidrs. length c < 2 ^ 64"
    and "length (concat (map wf_encoded (filter (\<lambda>f. wf_tag f \<noteq> FEATURE_FLAG_IS_CREDENTIAL_PEER_TAG) flags
          @ [varint_field ops FEATURE_FLAG_IS_CREDENTIAL_PEER_TAG 1]))) < 2 ^ 64"
  shows "\<exists>out flag. patch_credential_route_peer_info ops raw cidrs = Some (Inr out)
    \<and> parse_fields ops out = Some (Inr (filter (\<lambda>f. wf_tag f \<noteq> ROUTE_PEER_INFO_PROXY_CIDRS_TAG \<and> wf_tag f \<noteq> ROUTE_PEER_INFO_FEATURE_FLAG_TAG) fs
        @ cidr_fields ops cidrs @ [ld_field ops ROUTE_PEER_INFO_FEATURE_FLAG_TAG flag]))
    \<and> parse_fields ops flag = Some (Inr (filter (\<lambda>f. wf_tag f \<noteq> FEATURE_FLAG_IS_CREDENTIAL_PEER_TAG) flags
        @ [varint_field ops FEATURE_FLAG_IS_CREDENTIAL_PEER_TAG 1]))
    \<and> (\<forall>i. raw_credential_bytes ops out i = raw_credential_bytes ops raw i)"
proof -
  note patched = wire_codec.patch_ok [OF assms]
  let ?C = ROUTE_PEER_INFO_CREDENTIAL_PROOF_TAG
  let ?flag = "concat (map wf_encoded (filter (\<lambda>f. wf_tag f \<noteq> FEATURE_FLAG_IS_CREDENTIAL_PEER_TAG) flags @ [varint_field ops FEATURE_FLAG_IS_CREDENTIAL_PEER_TAG 1]))"
  let ?new = "cidr_fields ops cidrs @ [ld_field ops ROUTE_PEER_INFO_FEATURE_FLAG_TAG ?flag]"
  let ?fs = "filter (\<lambda>f. wf_tag f \<noteq> ROUTE_PEER_INFO_PROXY_CIDRS_TAG \<and> wf_tag f \<noteq> ROUTE_PEER_INFO_FEATURE_FLAG_TAG) fs @ ?new"
  have "\<forall>g \<in> set ?new. wf_tag g = ROUTE_PEER_INFO_PROXY_CIDRS_TAG \<or> wf_tag g = ROUTE_PEER_INFO_FEATURE_FLAG_TAG"
    by (auto simp: cidr_fields_def ld_field_def)
  from collect_other [OF tags_distinct(2,3) this] have "collect_delimited ?C ?fs = collect_delimited ?C fs" by simp
  then have "length_delimited_fields ops (concat (map wf_encoded ?fs)) ?C = length_delimited_fields ops raw ?C"
    by (simp only: wire_codec.delimited_iff [OF assms(1) patched(2)] wire_codec.delimited_iff [OF assms(1) fs])
  then have "raw_credential_bytes ops (concat (map wf_encoded ?fs)) i = raw_credential_bytes ops raw i" for i
    by (simp add: raw_credential_bytes_def)
  with patched show ?thesis by blast
qed

definition sample_flag_field :: wire_field where
  "sample_flag_field = varint_field protobuf 2 1"

definition sample_fields :: "wire_field list" where
  "sample_fields = [ld_field protobuf ROUTE_PEER_INFO_PROXY_CIDRS_TAG (str_bytes ''10.0.0.0/8''),
     ld_field protobuf ROUTE_PEER_INFO_FEATURE_FLAG_TAG (wf_encoded sample_flag_field), varint_field protobuf 100 99]"

lemma sample_encoded: "length (wf_encoded (varint_field protobuf FEATURE_FLAG_IS_CREDENTIAL_PEER_TAG 1)) = 2" "length (wf_encoded sample_flag_field) = 2"
  by (simp_all add: sample_flag_field_def varint_field_def protobuf_def leb_encode.simps FEATURE_FLAG_IS_CREDENTIAL_PEER_TAG_def)

lemma sample_parse:
  "parse_fields protobuf (concat (map wf_encoded sample_fields)) = Some (Inr sample_fields)"
  "parse_fields protobuf (wf_encoded sample_flag_field) = Some (Inr [sample_flag_field])"
proof -
  have flag: "pb.field_ok sample_flag_field" unfolding sample_flag_field_def by (rule pb.varint_field_ok) (simp_all add: tag_ok_def)
  have "pb.field_ok f" if "f \<in> set sample_fields" for f
    using that by (auto simp: sample_fields_def sample_encoded str_bytes_def tag_ok_def intro!: pb.ld_field_ok tags_ok pb.varint_field_ok)
  then show "parse_fields protobuf (concat (map wf_encoded sample_fields)) = Some (Inr sample_fields)" by (simp add: pb.parse_iff)
  show "parse_fields protobuf (wf_encoded sample_flag_field) = Some (Inr [sample_flag_field])" using flag by (simp add: pb.parse_iff)
qed

theorem patch_preserves_witness:
  "\<exists>out flag. patch_credential_route_peer_info protobuf (concat (map wf_encoded sample_fields)) [''10.1.0.0/16''] = Some (Inr out)
     \<and> parse_fields protobuf out = Some (Inr [varint_field protobuf 100 99,
         ld_field protobuf ROUTE_PEER_INFO_PROXY_CIDRS_TAG (str_bytes ''10.1.0.0/16''), ld_field protobuf ROUTE_PEER_INFO_FEATURE_FLAG_TAG flag])
     \<and> parse_fields protobuf flag = Some (Inr [sample_flag_field, varint_field protobuf FEATURE_FLAG_IS_CREDENTIAL_PEER_TAG 1])"
proof -
  have payload: "concat (delimited_payloads ROUTE_PEER_INFO_FEATURE_FLAG_TAG sample_fields) = wf_encoded sample_flag_field"
    by (simp add: delimited_payloads_def sample_fields_def ld_field_def varint_field_def ROUTE_PEER_INFO_FEATURE_FLAG_TAG_def
        ROUTE_PEER_INFO_PROXY_CIDRS_TAG_def)
  have keep: "filter (\<lambda>f. wf_tag f \<noteq> FEATURE_FLAG_IS_CREDENTIAL_PEER_TAG) [sample_flag_field] = [sample_flag_field]"
    "filter (\<lambda>f. wf_tag f \<noteq> ROUTE_PEER_INFO_PROXY_CIDRS_TAG \<and> wf_tag f \<noteq> ROUTE_PEER_INFO_FEATURE_FLAG_TAG) sample_fields = [varint_field protobuf 100 99]"
    by (simp_all add: sample_flag_field_def varint_field_def sample_fields_def ld_field_def FEATURE_FLAG_IS_CREDENTIAL_PEER_TAG_def
        ROUTE_PEER_INFO_FEATURE_FLAG_TAG_def ROUTE_PEER_INFO_PROXY_CIDRS_TAG_def)
  have types: "\<forall>f \<in> set sample_fields. wf_tag f = ROUTE_PEER_INFO_PROXY_CIDRS_TAG \<or> wf_tag f = ROUTE_PEER_INFO_FEATURE_FLAG_TAG
      \<longrightarrow> wf_wire_type f = LengthDelimited"
    by (simp add: sample_fields_def ld_field_def varint_field_def ROUTE_PEER_INFO_FEATURE_FLAG_TAG_def ROUTE_PEER_INFO_PROXY_CIDRS_TAG_def)
  have flag: "\<forall>f \<in> set [sample_flag_field]. wf_tag f = FEATURE_FLAG_IS_CREDENTIAL_PEER_TAG \<longrightarrow> wf_wire_type f = Varint"
    by (simp add: sample_flag_field_def varint_field_def)
  have parsed: "parse_fields protobuf (concat (delimited_payloads ROUTE_PEER_INFO_FEATURE_FLAG_TAG sample_fields)) = Some (Inr [sample_flag_field])"
    unfolding payload by (rule sample_parse(2))
  have len: "length (concat (map wf_encoded (filter (\<lambda>f. wf_tag f \<noteq> FEATURE_FLAG_IS_CREDENTIAL_PEER_TAG) [sample_flag_field]
      @ [varint_field protobuf FEATURE_FLAG_IS_CREDENTIAL_PEER_TAG 1]))) < 2 ^ 64"
    unfolding keep by (simp add: sample_encoded del: One_nat_def)
  have "\<forall>c \<in> set [''10.1.0.0/16'']. length c < 2 ^ 64" by simp
  from patch_preserves [OF pb.wire_codec_axioms sample_parse(1) types parsed flag this len]
  show ?thesis unfolding keep cidr_fields_def list.map append.simps by blast
qed

text \<open>
  C39: The raw route information put into a synchronisation request is read back from it unchanged and in order, whatever
  bytes it consists of, as long as the encoding of the other fields does not use the field of the route information.
\<close>

theorem sync_request_roundtrip:
  assumes "wire_codec ops" and "parse_fields ops (encode_to_vec (req\<lparr>sq_peer_infos := None\<rparr>)) = Some (Inr fs)"
    and "\<forall>f \<in> set fs. wf_tag f \<noteq> SYNC_ROUTE_PEER_INFOS_TAG"
    and "sq_peer_infos req = Some items" "length items = length raws"
    and "length (concat (map (\<lambda>raw. wf_encoded (ld_field ops ROUTE_PEER_INFOS_ITEM_TAG raw)) raws)) < 2 ^ 64"
  shows "\<exists>out. encode_sync_route_request ops encode_to_vec req raws = Inr out
    \<and> extract_route_peer_infos ops out = Some (Inr raws)"
proof -
  let ?I = ROUTE_PEER_INFOS_ITEM_TAG and ?S = SYNC_ROUTE_PEER_INFOS_TAG
  let ?gs = "map (ld_field ops ?I) raws"
  let ?body = "concat (map wf_encoded ?gs)"
  have body: "fold (append_length_delimited_field ops ?I) raws [] = ?body"
    using fold_append_ld [of ops ?I "\<lambda>x. x" raws "[]"] by (simp add: comp_def)
  have short: "length raw < 2 ^ 64" if "raw \<in> set raws" for raw
  proof -
    have "length raw \<le> length (concat (map (\<lambda>raw. wf_encoded (ld_field ops ?I raw)) raws))"
      using that by (induction raws) (auto simp: ld_field_def)
    with assms(6) show ?thesis by simp
  qed
  have gs_ok: "\<forall>g \<in> set ?gs. wire_codec.field_ok ops g"
    using short by (auto intro: wire_codec.ld_field_ok [OF assms(1)] tags_ok)
  have inner: "length_delimited_fields ops ?body ?I = Some (Inr raws)"
  proof -
    have "parse_fields ops ?body = Some (Inr ?gs)" using gs_ok by (simp only: wire_codec.parse_iff [OF assms(1)])
    from wire_codec.delimited_iff [OF assms(1) this] have "length_delimited_fields ops ?body ?I = Some (collect_delimited ?I ?gs)" .
    also have "collect_delimited ?I ?gs = Inr raws" by (induction raws) (simp_all add: ld_field_def)
    finally show ?thesis .
  qed
  let ?out = "encode_to_vec (req\<lparr>sq_peer_infos := None\<rparr>) @ wf_encoded (ld_field ops ?S ?body)"
  have "wire_codec.field_ok ops (ld_field ops ?S ?body)"
    by (rule wire_codec.ld_field_ok [OF assms(1) tags_ok(1)]) (use assms(6) in \<open>simp add: comp_def\<close>)
  then have "parse_fields ops ?out = Some (Inr (fs @ [ld_field ops ?S ?body]))"
    using assms(2) by (auto simp: wire_codec.parse_iff [OF assms(1)])
  from wire_codec.delimited_iff [OF assms(1) this, of ?S]
  have "length_delimited_fields ops ?out ?S = Some (collect_delimited ?S (fs @ [ld_field ops ?S ?body]))" .
  moreover have "collect_delimited ?S fs = Inr []" using assms(3) by (induction fs) auto
  ultimately have "length_delimited_fields ops ?out ?S = Some (Inr [?body])" by (simp add: collect_append ld_field_def)
  then have "extract_route_peer_infos ops ?out = Some (Inr raws)" by (simp add: extract_route_peer_infos_def inner del: map_map)
  moreover have "encode_sync_route_request ops encode_to_vec req raws = Inr ?out"
    using assms(4,5) by (simp add: encode_sync_route_request_def append_ld body Let_def)
  ultimately show ?thesis by blast
qed

definition sample_request :: sync_route_info_request where
  "sample_request = \<lparr>sq_my_peer_id = 1, sq_my_session_id = 2, sq_is_initiator = True,
     sq_peer_infos = Some [new_route_peer_info_with_version ''2''], sq_conn_info = None, sq_foreign_network_infos = None\<rparr>"

theorem sync_request_roundtrip_witness:
  "\<exists>out. encode_sync_route_request protobuf (\<lambda>req. wf_encoded sample_flag_field) sample_request [[1, 2, 3]] = Inr out
     \<and> extract_route_peer_infos protobuf out = Some (Inr [[1, 2, 3]])"
proof (rule sync_request_roundtrip [OF pb.wire_codec_axioms sample_parse(2)])
  show "\<forall>f \<in> set [sample_flag_field]. wf_tag f \<noteq> SYNC_ROUTE_PEER_INFOS_TAG"
    by (simp add: sample_flag_field_def varint_field_def SYNC_ROUTE_PEER_INFOS_TAG_def)
  show "sq_peer_infos sample_request = Some [new_route_peer_info_with_version ''2'']" by (simp add: sample_request_def)
qed (simp_all add: ld_field_def protobuf_def leb_encode.simps ROUTE_PEER_INFOS_ITEM_TAG_def)

end
