(* ===== verification/RouteSync.thy ===== *)
theory RouteSync
  imports RouteTable
begin

text \<open>
  The store of route information that a peer keeps and synchronises (\<^verbatim>\<open>SyncedRouteInfo\<close> in
  \<^verbatim>\<open>peers/route/peer_ospf_route.rs\<close>) and the connection bitmap on the wire (\<^verbatim>\<open>easytier-proto/src/peer_rpc.rs\<close>).

    \<^item> An \<^verbatim>\<open>OrderedHashMap\<close> is an association list in the order of its iteration; an inserted entry is the last one.
      A \<^verbatim>\<open>BTreeSet\<close> is its list in ascending order.
    \<^item> \<open>now\<close> is the reading of the clock, in nanoseconds since the epoch. Locks are not modelled: every operation
      holds the locks it needs, and an operation is one step.
    \<^item> Outer \<^const>\<open>None\<close> is a panic, \<^const>\<open>Inl\<close> an error that is returned to the caller.
\<close>

section \<open>State\<close>

definition btree :: "'a::linorder list \<Rightarrow> 'a list" where
  "btree xs = sorted_list_of_set (set xs)"

definition om_insert :: "'k \<Rightarrow> 'v \<Rightarrow> ('k, 'v) kvs \<Rightarrow> ('k, 'v) kvs" where
  "om_insert k v m = kv_remove k m @ [(k, v)]"

datatype sync_error = DuplicatePeerId | Stopped

record route_conn_info =
  rc_connected_peers :: "peer_id list"
  rc_version :: version
  rc_last_update :: nat

definition route_conn_default :: "nat \<Rightarrow> route_conn_info" where
  "route_conn_default now = \<lparr>rc_connected_peers = [], rc_version = 0, rc_last_update = now\<rparr>"

record synced_route_info =
  sy_default_easytier_version :: string
  sy_peer_infos :: "(peer_id, route_peer_info) kvs"
  sy_raw_peer_infos :: "(peer_id, bytes) kvs"
  sy_conn_map :: "(peer_id, route_conn_info) kvs"
  sy_foreign_network :: "(foreign_network_key, foreign_network_entry) kvs"
  sy_group_trust_map :: "(peer_id, (string, bytes) kvs) kvs"
  sy_group_trust_map_cache :: "(peer_id, string list) kvs"
  sy_trusted_credential_pubkeys :: "(bytes, trusted_credential_pubkey) kvs"
  sy_non_reusable_credential_owners :: "(bytes, peer_id) kvs"
  sy_suppressed_non_reusable_credential_peers :: "(peer_id, unit) kvs"
  sy_version :: version

definition synced_new :: "string \<Rightarrow> synced_route_info" where
  "synced_new easytier_version =
     \<lparr>sy_default_easytier_version = easytier_version, sy_peer_infos = [], sy_raw_peer_infos = [], sy_conn_map = [],
      sy_foreign_network = [], sy_group_trust_map = [], sy_group_trust_map_cache = [], sy_trusted_credential_pubkeys = [],
      sy_non_reusable_credential_owners = [], sy_suppressed_non_reusable_credential_peers = [], sy_version = 0\<rparr>"

definition sync_inc_version :: "synced_route_info \<Rightarrow> synced_route_info" where
  "sync_inc_version s = s\<lparr>sy_version := version_inc (sy_version s)\<rparr>"

definition inc_if :: "bool \<Rightarrow> synced_route_info \<Rightarrow> synced_route_info" where
  "inc_if b s = (if b then sync_inc_version s else s)"

section \<open>Reading the store\<close>

definition sync_get_connected_peers :: "synced_route_info \<Rightarrow> peer_id \<Rightarrow> peer_id list option" where
  "sync_get_connected_peers s p = map_option rc_connected_peers (kv_get (sy_conn_map s) p)"

definition take_snapshot :: "synced_route_info \<Rightarrow> route_snapshot" where
  "take_snapshot s =
     \<lparr>rs_peer_infos = map (\<lambda>(p, info). \<lparr>oi_peer_id = p, oi_info = info\<rparr>) (sy_peer_infos s),
      rs_conn_map = map (\<lambda>(p, c). \<lparr>oc_peer_id = p, oc_connected_peers = rc_connected_peers c\<rparr>) (sy_conn_map s),
      rs_suppressed_peer_ids = btree (map fst (sy_suppressed_non_reusable_credential_peers s)),
      rs_version = sy_version s\<rparr>"

definition get_peer_info_version_with_default :: "synced_route_info \<Rightarrow> peer_id \<Rightarrow> version" where
  "get_peer_info_version_with_default s p = (case kv_get (sy_peer_infos s) p of Some info \<Rightarrow> rp_version info | None \<Rightarrow> 0)"

section \<open>Removing and completing peers\<close>

definition remove_peers :: "peer_id list \<Rightarrow> synced_route_info \<Rightarrow> synced_route_info" where
  "remove_peers peer_ids s =
     (if peer_ids = [] then s
      else sync_inc_version (s\<lparr>
        sy_peer_infos := fold kv_remove peer_ids (sy_peer_infos s),
        sy_conn_map := fold kv_remove peer_ids (sy_conn_map s),
        sy_group_trust_map := fold kv_remove peer_ids (sy_group_trust_map s),
        sy_group_trust_map_cache := fold kv_remove peer_ids (sy_group_trust_map_cache s),
        sy_raw_peer_infos := fold kv_remove peer_ids (sy_raw_peer_infos s),
        sy_foreign_network := kv_retain (\<lambda>k _. fk_peer_id k \<notin> set peer_ids) (sy_foreign_network s)\<rparr>))"

definition fill_one_peer :: "nat \<Rightarrow> peer_id \<Rightarrow> synced_route_info \<times> bool \<Rightarrow> synced_route_info \<times> bool" where
  "fill_one_peer now p st =
     (let (s, need) = st;
          (s, need) =
            (if kv_get (sy_peer_infos s) p = None
             then (s\<lparr>sy_peer_infos := om_insert p
                      ((new_route_peer_info_with_version (sy_default_easytier_version s))\<lparr>rp_last_update := Some now\<rparr>) (sy_peer_infos s)\<rparr>, True)
             else (s, need))
      in if kv_get (sy_conn_map s) p = None
         then (s\<lparr>sy_conn_map := om_insert p (route_conn_default now) (sy_conn_map s)\<rparr>, True)
         else (s, need))"

definition fill_empty_peer_info :: "nat \<Rightarrow> peer_id list \<Rightarrow> synced_route_info \<Rightarrow> synced_route_info" where
  "fill_empty_peer_info now peer_ids s =
     (let (s, need_inc_version) = fold (fill_one_peer now) peer_ids (s, False) in inc_if need_inc_version s)"

section \<open>Received peer information\<close>

definition check_duplicate_peer_id ::
  "peer_id \<Rightarrow> u64 \<Rightarrow> peer_id \<Rightarrow> u64 option \<Rightarrow> route_peer_info \<Rightarrow> synced_route_info \<Rightarrow> (sync_error + unit) option" where
  "check_duplicate_peer_id my_peer_id my_peer_route_id dst_peer_id dst_peer_route_id info s =
     (if rp_peer_id info = my_peer_id
      then if rp_peer_route_id info \<noteq> my_peer_route_id
              \<and> get_peer_info_version_with_default s (rp_peer_id info) < rp_version info
           then None else Some (Inr ())
      else if rp_peer_id info = dst_peer_id
      then (case dst_peer_route_id of
              None \<Rightarrow> Some (Inr ())
            | Some r \<Rightarrow>
                if r \<noteq> rp_peer_route_id info
                   \<and> rp_version info < get_peer_info_version_with_default s (rp_peer_id info)
                then Some (Inl DuplicatePeerId) else Some (Inr ()))
      else Some (Inr ()))"

definition insert_newer_info ::
  "nat \<Rightarrow> route_peer_info \<Rightarrow> bytes \<Rightarrow> synced_route_info \<times> bool \<Rightarrow> synced_route_info \<times> bool" where
  "insert_newer_info now info raw st =
     (let (s, need) = st; info = info\<lparr>rp_last_update := Some now\<rparr>
      in if (case kv_get (sy_peer_infos s) (rp_peer_id info) of None \<Rightarrow> True | Some old \<Rightarrow> rp_version old < rp_version info)
         then (s\<lparr>sy_raw_peer_infos := kv_put (rp_peer_id info) raw (sy_raw_peer_infos s),
                 sy_peer_infos := om_insert (rp_peer_id info) info (sy_peer_infos s)\<rparr>, True)
         else (s, need))"

text \<open>The loop counts the position in the list of raw messages; an error ends it before the version is raised.\<close>

fun update_peer_infos_loop ::
  "nat \<Rightarrow> peer_id \<Rightarrow> u64 \<Rightarrow> peer_id \<Rightarrow> bytes list \<Rightarrow> nat \<Rightarrow> route_peer_info list \<Rightarrow> synced_route_info \<times> bool
    \<Rightarrow> ((sync_error + unit) \<times> synced_route_info) option" where
  "update_peer_infos_loop now me my_route dst raws idx [] st = Some (Inr (), inc_if (snd st) (fst st))"
| "update_peer_infos_loop now me my_route dst raws idx (info # infos) st = do {
     raw \<leftarrow> nth_opt raws idx;
     r \<leftarrow> check_duplicate_peer_id me my_route dst
            (if rp_peer_id info = dst then map_option rp_peer_route_id (kv_get (sy_peer_infos (fst st)) dst) else None)
            info (fst st);
     case r of
       Inl e \<Rightarrow> Some (Inl e, fst st)
     | Inr _ \<Rightarrow> update_peer_infos_loop now me my_route dst raws (Suc idx) infos (insert_newer_info now info raw st) }"

definition update_peer_infos ::
  "nat \<Rightarrow> peer_id \<Rightarrow> u64 \<Rightarrow> peer_id \<Rightarrow> route_peer_info list \<Rightarrow> bytes list \<Rightarrow> synced_route_info
    \<Rightarrow> ((sync_error + unit) \<times> synced_route_info) option" where
  "update_peer_infos now me my_route dst infos raws s = update_peer_infos_loop now me my_route dst raws 0 infos (s, False)"

section \<open>Received connections\<close>

definition get_bit :: "route_conn_bitmap \<Rightarrow> nat \<Rightarrow> bool option" where
  "get_bit b idx = map_option (\<lambda>x. bit x (idx mod 8)) (nth_opt (cb_bitmap b) (idx div 8))"

fun connected_row :: "route_conn_bitmap \<Rightarrow> nat \<Rightarrow> peer_id_version list \<Rightarrow> peer_id list option" where
  "connected_row b idx [] = Some []"
| "connected_row b idx (pv # pvs) = do {
     set_bit \<leftarrow> get_bit b idx;
     rest \<leftarrow> connected_row b (Suc idx) pvs;
     Some (if set_bit then pv_peer_id pv # rest else rest) }"

definition bitmap_connected_peers :: "route_conn_bitmap \<Rightarrow> nat \<Rightarrow> peer_id list option" where
  "bitmap_connected_peers b peer_idx =
     map_option btree (connected_row b (peer_idx * length (cb_peer_ids b)) (cb_peer_ids b))"

definition update_conn_info_one_peer ::
  "nat \<Rightarrow> peer_id_version \<Rightarrow> peer_id list \<Rightarrow> synced_route_info \<Rightarrow> synced_route_info \<times> bool" where
  "update_conn_info_one_peer now pv connected s =
     (if (case kv_get (sy_conn_map s) (pv_peer_id pv) of None \<Rightarrow> True | Some old \<Rightarrow> rc_version old < pv_version pv)
      then (s\<lparr>sy_conn_map := om_insert (pv_peer_id pv)
               \<lparr>rc_connected_peers = connected, rc_version = pv_version pv, rc_last_update = now\<rparr> (sy_conn_map s)\<rparr>, True)
      else (s, False))"

definition add_conn_row :: "nat \<Rightarrow> peer_id_version \<Rightarrow> peer_id list \<Rightarrow> synced_route_info \<times> bool \<Rightarrow> synced_route_info \<times> bool" where
  "add_conn_row now pv connected st =
     (let (s, need) = st;
          s = fill_empty_peer_info now connected s;
          (s, updated) = update_conn_info_one_peer now pv connected s
      in (s, need \<or> updated))"

fun bitmap_rows :: "nat \<Rightarrow> route_conn_bitmap \<Rightarrow> nat \<Rightarrow> peer_id_version list \<Rightarrow> synced_route_info \<times> bool \<Rightarrow> (synced_route_info \<times> bool) option" where
  "bitmap_rows now b idx [] st = Some st"
| "bitmap_rows now b idx (pv # pvs) st = do {
     connected \<leftarrow> bitmap_connected_peers b idx;
     bitmap_rows now b (Suc idx) pvs (add_conn_row now pv connected st) }"

definition update_conn_info_with_bitmap :: "nat \<Rightarrow> route_conn_bitmap \<Rightarrow> synced_route_info \<Rightarrow> synced_route_info option" where
  "update_conn_info_with_bitmap now b s = do {
     (s, need_inc_version) \<leftarrow>
       bitmap_rows now b 0 (cb_peer_ids b) (fill_empty_peer_info now (btree (map pv_peer_id (cb_peer_ids b))) s, False);
     Some (inc_if need_inc_version s) }"

definition add_list_row :: "nat \<Rightarrow> peer_conn_info \<Rightarrow> synced_route_info \<times> bool \<Rightarrow> synced_route_info \<times> bool" where
  "add_list_row now row st =
     (case pc_peer_id row of
        None \<Rightarrow> st
      | Some pv \<Rightarrow> add_conn_row now pv (btree (pc_connected_peer_ids row)) st)"

definition update_conn_info_with_list :: "nat \<Rightarrow> route_conn_peer_list \<Rightarrow> synced_route_info \<Rightarrow> synced_route_info" where
  "update_conn_info_with_list now rows s =
     (let (s, need_inc_version) = fold (add_list_row now) rows (s, False) in inc_if need_inc_version s)"

definition update_conn_info :: "nat \<Rightarrow> conn_info \<Rightarrow> synced_route_info \<Rightarrow> synced_route_info option" where
  "update_conn_info now c s =
     (case c of
        ConnBitmap b \<Rightarrow> update_conn_info_with_bitmap now b s
      | ConnPeerList rows \<Rightarrow> Some (update_conn_info_with_list now rows s))"

section \<open>Received foreign networks\<close>

definition add_foreign_entry ::
  "nat \<Rightarrow> foreign_network_key option \<times> foreign_network_entry option \<Rightarrow> synced_route_info \<times> bool \<Rightarrow> synced_route_info \<times> bool" where
  "add_foreign_entry now item st =
     (case item of
        (Some key, Some entry) \<Rightarrow>
          (let (s, changed) = st; entry = entry\<lparr>fn_last_update := Some now\<rparr>
           in if (case kv_get (sy_foreign_network s) key of None \<Rightarrow> True | Some old \<Rightarrow> fn_version old < fn_version entry)
              then (s\<lparr>sy_foreign_network := kv_put key entry (sy_foreign_network s)\<rparr>, True)
              else (s, changed))
      | _ \<Rightarrow> st)"

definition update_foreign_network :: "nat \<Rightarrow> foreign_network_infos \<Rightarrow> synced_route_info \<Rightarrow> synced_route_info \<times> bool" where
  "update_foreign_network now infos s = fold (add_foreign_entry now) infos (s, False)"

section \<open>The entries of this peer\<close>

text \<open>What the peer says about itself. The context is the record of the answers it gives; \<open>mc_ipv4\<close> is the address with the
  length of its network.\<close>

record peer_context =
  mc_udp_nat_type :: int
  mc_tcp_nat_type :: int
  mc_network_secret :: "string option"
  mc_ipv4 :: "(u32 \<times> u32) option"
  mc_ipv6 :: "ipv6_inet option"
  mc_secure_public_key :: "bytes option"
  mc_instance_id :: "128 word"
  mc_proxy_cidrs :: "string list"
  mc_hostname :: string
  mc_easytier_version :: string
  mc_feature_flags :: feature_flag
  mc_advertised_ipv6_prefix :: "ipv6_inet option"
  mc_peer_groups :: "peer_id \<Rightarrow> peer_group_info list"
  mc_trusted_credential_pubkeys :: "string \<Rightarrow> trusted_credential_proof list"

definition new_updated_self_route_peer_info :: "peer_id \<Rightarrow> u64 \<Rightarrow> peer_context \<Rightarrow> ipv6_inet option \<Rightarrow> route_peer_info" where
  "new_updated_self_route_peer_info me peer_route_id ctx lease =
     \<lparr>rp_peer_id = me, rp_inst_id = Some (mc_instance_id ctx), rp_cost = 0, rp_ipv4_addr = map_option fst (mc_ipv4 ctx),
      rp_proxy_cidrs = mc_proxy_cidrs ctx, rp_hostname = Some (mc_hostname ctx), rp_udp_nat_type = mc_udp_nat_type ctx,
      rp_last_update = None, rp_version = 0, rp_easytier_version = mc_easytier_version ctx,
      rp_feature_flag = Some (mc_feature_flags ctx), rp_peer_route_id = peer_route_id,
      rp_network_length = (case mc_ipv4 ctx of Some (_, len) \<Rightarrow> len | None \<Rightarrow> 24), rp_quic_port = None,
      rp_ipv6_addr = mc_ipv6 ctx, rp_groups = mc_peer_groups ctx me, rp_tcp_nat_type = mc_tcp_nat_type ctx,
      rp_noise_static_pubkey = (case mc_secure_public_key ctx of Some k \<Rightarrow> k | None \<Rightarrow> []),
      rp_trusted_credential_pubkeys =
        (case mc_network_secret ctx of Some secret \<Rightarrow> mc_trusted_credential_pubkeys ctx secret | None \<Rightarrow> []),
      rp_ipv6_public_addr_prefix = mc_advertised_ipv6_prefix ctx, rp_ipv6_public_addr_lease = lease\<rparr>"

definition UPDATE_PEER_INFO_PERIOD :: nat where "UPDATE_PEER_INFO_PERIOD = secs 3600"

text \<open>\<^verbatim>\<open>elapsed\<close> fails when the time lies in the future; a missing time is the epoch.\<close>

definition try_update_new_peer_info :: "nat \<Rightarrow> route_peer_info \<Rightarrow> route_peer_info \<Rightarrow> route_peer_info \<times> bool" where
  "try_update_new_peer_info now old new =
     (let last = (case rp_last_update old of Some t \<Rightarrow> t | None \<Rightarrow> 0);
          need_update_periodically = (if last \<le> now then UPDATE_PEER_INFO_PERIOD < now - last else True);
          new = new\<lparr>rp_version := rp_version old, rp_last_update := rp_last_update old\<rparr>
      in if new \<noteq> old \<or> need_update_periodically then (new\<lparr>rp_version := rp_version new + 1\<rparr>, True) else (new, False))"

definition set_peer_groups :: "peer_id \<Rightarrow> (string, bytes) kvs \<Rightarrow> synced_route_info \<Rightarrow> synced_route_info" where
  "set_peer_groups p groups s =
     (if groups = []
      then s\<lparr>sy_group_trust_map := kv_remove p (sy_group_trust_map s), sy_group_trust_map_cache := kv_remove p (sy_group_trust_map_cache s)\<rparr>
      else s\<lparr>sy_group_trust_map := kv_put p groups (sy_group_trust_map s),
             sy_group_trust_map_cache := kv_put p (map fst groups) (sy_group_trust_map_cache s)\<rparr>)"

definition update_my_group_trusts :: "peer_id \<Rightarrow> peer_group_info list \<Rightarrow> synced_route_info \<Rightarrow> synced_route_info" where
  "update_my_group_trusts me groups s =
     set_peer_groups me (fold (\<lambda>g. kv_put (pg_group_name g) (pg_group_proof g)) groups []) s"

definition update_my_peer_info ::
  "nat \<Rightarrow> peer_id \<Rightarrow> u64 \<Rightarrow> peer_context \<Rightarrow> ipv6_inet option \<Rightarrow> synced_route_info \<Rightarrow> synced_route_info \<times> bool" where
  "update_my_peer_info now me my_route ctx lease s =
     (let new = new_updated_self_route_peer_info me my_route ctx lease;
          old = kv_get (sy_peer_infos s) me;
          new_version = (case old of Some x \<Rightarrow> rp_version x | None \<Rightarrow> 0) + 1;
          (new, need_insert_new) = (case old of Some x \<Rightarrow> try_update_new_peer_info now x new | None \<Rightarrow> (new, True))
      in if need_insert_new
         then let acl_groups = (if (case old of Some x \<Rightarrow> rp_groups x \<noteq> rp_groups new | None \<Rightarrow> True) then Some (rp_groups new) else None);
                  s = s\<lparr>sy_peer_infos := om_insert me (new\<lparr>rp_last_update := Some now, rp_version := new_version\<rparr>) (sy_peer_infos s)\<rparr>;
                  s = (case acl_groups of Some g \<Rightarrow> update_my_group_trusts me g s | None \<Rightarrow> s)
              in (sync_inc_version s, True)
         else (s, False))"

definition update_my_conn_info :: "nat \<Rightarrow> peer_id \<Rightarrow> peer_id list \<Rightarrow> synced_route_info \<Rightarrow> synced_route_info \<times> bool" where
  "update_my_conn_info now me connected s =
     (let s = fill_empty_peer_info now connected s;
          mine = kv_get (sy_conn_map s) me;
          new_version = (case mine of Some c \<Rightarrow> rc_version c | None \<Rightarrow> 0) + 1
      in if (case mine of None \<Rightarrow> True | Some old \<Rightarrow> rc_connected_peers old \<noteq> connected)
         then (sync_inc_version (s\<lparr>sy_conn_map := om_insert me
                 \<lparr>rc_connected_peers = connected, rc_version = new_version, rc_last_update = now\<rparr> (sy_conn_map s)\<rparr>), True)
         else (s, False))"

definition is_foreign_network_info_newer :: "foreign_network_entry \<Rightarrow> foreign_network_entry \<Rightarrow> bool option" where
  "is_foreign_network_info_newer next prev = do {
     n \<leftarrow> fn_last_update next;
     p \<leftarrow> fn_last_update prev;
     Some (p < n) }"

definition renew_my_foreign ::
  "nat \<Rightarrow> (foreign_network_key, foreign_network_entry) kvs \<Rightarrow> foreign_network_key \<Rightarrow> foreign_network_entry
    \<Rightarrow> (foreign_network_entry \<times> bool) option" where
  "renew_my_foreign now mine key entry =
     (let now_version = of_nat (now div secs 1) :: version in
      case kv_get mine key of
        Some new_entry \<Rightarrow>
          if fn_foreign_peer_ids new_entry = [] then None
          else Some (case is_foreign_network_info_newer new_entry entry of
              Some is_newer \<Rightarrow>
                if is_newer \<or> UPDATE_PEER_INFO_PERIOD < now - (case fn_last_update entry of Some t \<Rightarrow> t | None \<Rightarrow> 0)
                then (new_entry\<lparr>fn_version := max (fn_version new_entry + 1) now_version\<rparr>, True)
                else (entry, False)
            | None \<Rightarrow> (entry, False))
      | None \<Rightarrow>
          Some (if fn_foreign_peer_ids entry \<noteq> []
                then (entry\<lparr>fn_foreign_peer_ids := [], fn_last_update := Some now, fn_version := max (fn_version entry + 1) now_version\<rparr>, True)
                else (entry, False)))"

fun renew_all_foreign ::
  "nat \<Rightarrow> peer_id \<Rightarrow> (foreign_network_key, foreign_network_entry) kvs \<Rightarrow> (foreign_network_key, foreign_network_entry) kvs
    \<Rightarrow> ((foreign_network_key, foreign_network_entry) kvs \<times> bool) option" where
  "renew_all_foreign now me mine [] = Some ([], False)"
| "renew_all_foreign now me mine ((key, entry) # rest) = do {
     (entry, updated) \<leftarrow> (if fk_peer_id key = me then renew_my_foreign now mine key entry else Some (entry, False));
     (rest, updated') \<leftarrow> renew_all_foreign now me mine rest;
     Some ((key, entry) # rest, updated \<or> updated') }"

fun insert_my_foreign ::
  "version \<Rightarrow> (foreign_network_key, foreign_network_entry) kvs \<Rightarrow> (foreign_network_key, foreign_network_entry) kvs
    \<Rightarrow> (foreign_network_key, foreign_network_entry) kvs option" where
  "insert_my_foreign now_version [] m = Some m"
| "insert_my_foreign now_version ((key, entry) # rest) m =
     (if fn_foreign_peer_ids entry = [] then None
      else insert_my_foreign now_version rest
        (case kv_get m key of
           Some old \<Rightarrow> if fn_version old < fn_version entry then kv_put key entry m else m
         | None \<Rightarrow> kv_put key (entry\<lparr>fn_version := now_version\<rparr>) m))"

definition update_my_foreign_network ::
  "nat \<Rightarrow> peer_id \<Rightarrow> (foreign_network_key, foreign_network_entry) kvs \<Rightarrow> synced_route_info \<Rightarrow> (synced_route_info \<times> bool) option" where
  "update_my_foreign_network now me mine s = do {
     (stored, renewed) \<leftarrow> renew_all_foreign now me mine (sy_foreign_network s);
     let fresh = kv_retain (\<lambda>key _. \<not> (fk_peer_id key = me \<and> kv_get (sy_foreign_network s) key \<noteq> None)) mine;
     stored \<leftarrow> insert_my_foreign (of_nat (now div secs 1)) fresh stored;
     let updated = (renewed \<or> fresh \<noteq> []);
     Some (inc_if updated (s\<lparr>sy_foreign_network := stored\<rparr>), updated) }"

section \<open>Replicas: the newest version wins\<close>

text \<open>The abstract store: a map in which an update replaces an entry of a smaller version only.\<close>

definition deliver :: "('v \<Rightarrow> version) \<Rightarrow> 'k \<times> 'v \<Rightarrow> ('k \<rightharpoonup> 'v) \<Rightarrow> ('k \<rightharpoonup> 'v)" where
  "deliver ver u f =
     (let (k, v) = u in
      case f k of None \<Rightarrow> f(k \<mapsto> v) | Some old \<Rightarrow> if ver old < ver v then f(k \<mapsto> v) else f)"

definition offered :: "('k \<rightharpoonup> 'v) \<Rightarrow> ('k \<times> 'v) list \<Rightarrow> 'k \<Rightarrow> 'v set" where
  "offered f us k = {v. f k = Some v} \<union> {v. (k, v) \<in> set us}"

lemma deliver_None: "deliver ver u f k = None \<longleftrightarrow> f k = None \<and> fst u \<noteq> k"
  by (auto simp: deliver_def split: prod.splits option.splits)

lemma deliver_step:
  assumes "deliver ver u f k = Some v"
  shows "v \<in> offered f [u] k" and "\<forall>v' \<in> offered f [u] k. ver v' \<le> ver v"
  using assms by (auto simp: deliver_def offered_def split: prod.splits option.splits if_splits)

lemma offered_Cons: "offered f (u # us) k = {v. f k = Some v} \<union> {v. (k, v) = u} \<union> {v. (k, v) \<in> set us}"
  by (auto simp: offered_def)

lemma deliver_all:
  "(fold (deliver ver) us f k = None \<longleftrightarrow> offered f us k = {})
   \<and> (\<forall>v. fold (deliver ver) us f k = Some v \<longrightarrow> v \<in> offered f us k \<and> (\<forall>v' \<in> offered f us k. ver v' \<le> ver v))"
proof (induction us arbitrary: f)
  case Nil
  then show ?case by (auto simp: offered_def)
next
  case (Cons u us)
  let ?f = "deliver ver u f"
  have none: "fold (deliver ver) (u # us) f k = None \<longleftrightarrow> offered f (u # us) k = {}"
  proof -
    have "fold (deliver ver) (u # us) f k = None \<longleftrightarrow> offered ?f us k = {}" using Cons.IH [of ?f] by simp
    also have "\<dots> \<longleftrightarrow> ?f k = None \<and> (\<forall>v. (k, v) \<notin> set us)" by (auto simp: offered_def)
    also have "\<dots> \<longleftrightarrow> offered f (u # us) k = {}" by (cases u) (auto simp: deliver_None offered_Cons)
    finally show ?thesis .
  qed
  moreover have "v \<in> offered f (u # us) k \<and> (\<forall>v' \<in> offered f (u # us) k. ver v' \<le> ver v)"
    if v: "fold (deliver ver) (u # us) f k = Some v" for v
  proof -
    have ih: "v \<in> offered ?f us k" "\<forall>v' \<in> offered ?f us k. ver v' \<le> ver v" using Cons.IH [of ?f] v by auto
    have keep: "w \<in> offered f (u # us) k" if "?f k = Some w" for w
      using deliver_step(1) [OF that] by (auto simp: offered_def)
    have up: "\<exists>w. ?f k = Some w \<and> ver v' \<le> ver w" if "v' \<in> offered f [u] k" for v'
    proof -
      have "?f k \<noteq> None" using that by (auto simp: deliver_None offered_def)
      then obtain w where "?f k = Some w" by blast
      with deliver_step(2) [OF this] that show ?thesis by blast
    qed
    have "ver v' \<le> ver v" if "v' \<in> offered f (u # us) k" for v'
    proof (cases "v' \<in> offered f [u] k")
      case True
      from up [OF True] obtain w where "?f k = Some w" "ver v' \<le> ver w" by blast
      with ih(2) show ?thesis by (force simp: offered_def)
    next
      case False
      with that have "(k, v') \<in> set us" by (auto simp: offered_def)
      with ih(2) show ?thesis by (auto simp: offered_def)
    qed
    moreover have "v \<in> offered f (u # us) k" using ih(1) keep by (auto simp: offered_def)
    ultimately show ?thesis by blast
  qed
  ultimately show ?case by blast
qed

lemma deliver_converges:
  assumes "offered f us k = offered f' us' k" "inj_on ver (offered f us k)"
  shows "fold (deliver ver) us f k = fold (deliver ver) us' f' k"
proof (cases "fold (deliver ver) us f k")
  case None
  with deliver_all [of ver us f k] deliver_all [of ver us' f' k] assms(1) show ?thesis by simp
next
  case (Some v)
  then obtain v' where v': "fold (deliver ver) us' f' k = Some v'"
    using deliver_all [of ver us f k] deliver_all [of ver us' f' k] assms(1) by (cases "fold (deliver ver) us' f' k") auto
  have a: "v \<in> offered f us k" "\<forall>w \<in> offered f us k. ver w \<le> ver v" using deliver_all [of ver us f k] Some by auto
  have b: "v' \<in> offered f us k" "\<forall>w \<in> offered f us k. ver w \<le> ver v'" using deliver_all [of ver us' f' k] v' assms(1) by auto
  have "ver v = ver v'" using a b by (auto intro: antisym)
  then have "v = v'" using assms(2) a(1) b(1) by (auto dest: inj_onD)
  with Some v' show ?thesis by simp
qed

text \<open>A component that, seen through \<open>look\<close>, delivers the updates of each message.\<close>

fun receive_all :: "('m \<Rightarrow> 's \<Rightarrow> 's option) \<Rightarrow> 'm list \<Rightarrow> 's \<Rightarrow> 's option" where
  "receive_all receive [] s = Some s"
| "receive_all receive (m # ms) s = receive m s \<bind> receive_all receive ms"

locale replica =
  fixes look :: "'s \<Rightarrow> 'k \<rightharpoonup> 'v" and ver :: "'v \<Rightarrow> version"
    and receive :: "'m \<Rightarrow> 's \<Rightarrow> 's option" and updates :: "'m \<Rightarrow> ('k \<times> 'v) list"
  assumes receive_look: "receive m s = Some s' \<Longrightarrow> look s' = fold (deliver ver) (updates m) (look s)"
begin

lemma receive_all_look: "receive_all receive ms s = Some s' \<Longrightarrow> look s' = fold (deliver ver) (concat (map updates ms)) (look s)"
  by (induction ms arbitrary: s) (auto simp: bind_eq_Some_conv receive_look)

lemma replicas_converge:
  assumes "receive_all receive ms s = Some t" "receive_all receive ms' s' = Some t'"
    "offered (look s) (concat (map updates ms)) k = offered (look s') (concat (map updates ms')) k"
    "inj_on ver (offered (look s) (concat (map updates ms)) k)"
  shows "look t k = look t' k"
  unfolding receive_all_look [OF assms(1)] receive_all_look [OF assms(2)] by (rule deliver_converges [OF assms(3,4)])

lemma versions_grow:
  assumes "receive_all receive ms s = Some t" "look s k = Some v"
  obtains v' where "look t k = Some v'" "ver v \<le> ver v'"
proof -
  let ?us = "concat (map updates ms)"
  have v: "v \<in> offered (look s) ?us k" using assms(2) by (simp add: offered_def)
  then obtain v' where v': "look t k = Some v'"
    using deliver_all [of ver ?us "look s" k] receive_all_look [OF assms(1)] by (cases "look t k") auto
  with deliver_all [of ver ?us "look s" k] receive_all_look [OF assms(1)] v have "ver v \<le> ver v'" by auto
  with v' that show thesis by blast
qed

end

section \<open>The messages of the route exchange\<close>

datatype sync_msg =
    Peer_Infos nat peer_id u64 peer_id "route_peer_info list" "bytes list"
  | Conn_Info nat conn_info
  | Foreign_Networks nat foreign_network_infos

fun sync_receive :: "sync_msg \<Rightarrow> synced_route_info \<Rightarrow> synced_route_info option" where
  "sync_receive (Peer_Infos now me my_route dst infos raws) s =
     (case update_peer_infos now me my_route dst infos raws s of Some (Inr _, s') \<Rightarrow> Some s' | _ \<Rightarrow> None)"
| "sync_receive (Conn_Info now c) s = update_conn_info now c s"
| "sync_receive (Foreign_Networks now infos) s = Some (fst (update_foreign_network now infos s))"

text \<open>What counts as known: entries made up for peers that are only mentioned have version 0. Local times are left out.\<close>

definition known_info :: "synced_route_info \<Rightarrow> peer_id \<rightharpoonup> route_peer_info" where
  "known_info s p =
     (case kv_get (sy_peer_infos s) p of
        Some info \<Rightarrow> if rp_version info = 0 then None else Some (info\<lparr>rp_last_update := None\<rparr>)
      | None \<Rightarrow> None)"

definition known_conn :: "synced_route_info \<Rightarrow> peer_id \<rightharpoonup> version \<times> peer_id list" where
  "known_conn s p =
     (case kv_get (sy_conn_map s) p of
        Some c \<Rightarrow> if rc_version c = 0 then None else Some (rc_version c, rc_connected_peers c)
      | None \<Rightarrow> None)"

definition known_foreign :: "synced_route_info \<Rightarrow> foreign_network_key \<rightharpoonup> foreign_network_entry" where
  "known_foreign s k = map_option (\<lambda>e. e\<lparr>fn_last_update := None\<rparr>) (kv_get (sy_foreign_network s) k)"

fun info_updates :: "sync_msg \<Rightarrow> (peer_id \<times> route_peer_info) list" where
  "info_updates (Peer_Infos now me my_route dst infos raws) =
     map (\<lambda>i. (rp_peer_id i, i\<lparr>rp_last_update := None\<rparr>)) (filter (\<lambda>i. rp_version i \<noteq> 0) infos)"
| "info_updates _ = []"

definition row_updates :: "(peer_id_version \<times> peer_id list) list \<Rightarrow> (peer_id \<times> version \<times> peer_id list) list" where
  "row_updates rows = map (\<lambda>(pv, ps). (pv_peer_id pv, pv_version pv, ps)) (filter (\<lambda>(pv, ps). pv_version pv \<noteq> 0) rows)"

definition bitmap_table :: "route_conn_bitmap \<Rightarrow> (peer_id_version \<times> peer_id list) list" where
  "bitmap_table b = map (\<lambda>i. (cb_peer_ids b ! i, the (bitmap_connected_peers b i))) [0..<length (cb_peer_ids b)]"

definition list_table :: "route_conn_peer_list \<Rightarrow> (peer_id_version \<times> peer_id list) list" where
  "list_table rows = List.map_filter (\<lambda>row. map_option (\<lambda>pv. (pv, btree (pc_connected_peer_ids row))) (pc_peer_id row)) rows"

fun conn_updates :: "sync_msg \<Rightarrow> (peer_id \<times> version \<times> peer_id list) list" where
  "conn_updates (Conn_Info now (ConnBitmap b)) = row_updates (bitmap_table b)"
| "conn_updates (Conn_Info now (ConnPeerList rows)) = row_updates (list_table rows)"
| "conn_updates _ = []"

fun foreign_updates :: "sync_msg \<Rightarrow> (foreign_network_key \<times> foreign_network_entry) list" where
  "foreign_updates (Foreign_Networks now infos) =
     List.map_filter (\<lambda>item. case item of (Some k, Some e) \<Rightarrow> Some (k, e\<lparr>fn_last_update := None\<rparr>) | _ \<Rightarrow> None) infos"
| "foreign_updates _ = []"

section \<open>The store refines the abstract one\<close>

lemma get_om_insert [simp]: "kv_get (om_insert k v m) k' = (if k' = k then Some v else kv_get m k')"
proof -
  have "map_of (filter (\<lambda>e. fst e \<noteq> k) m) k' = (if k' = k then None else map_of m k')"
    by (induction m) auto
  then show ?thesis by (auto simp: om_insert_def kv_get_def kv_remove_def map_add_def split: option.splits)
qed

lemma kv_ok_om_insert: "kv_ok m \<Longrightarrow> kv_ok (om_insert k v m)"
  by (auto simp: om_insert_def kv_ok_def kv_remove_def distinct_map_filter)

lemma inc_keeps [simp]:
  "known_info (inc_if b s) = known_info s" "known_conn (inc_if b s) = known_conn s" "known_foreign (inc_if b s) = known_foreign s"
  by (auto simp: inc_if_def sync_inc_version_def known_info_def known_conn_def known_foreign_def fun_eq_iff)

lemma fill_one_keeps:
  "known_info (fst (fill_one_peer now p st)) = known_info (fst st)"
  "known_conn (fst (fill_one_peer now p st)) = known_conn (fst st)"
  "known_foreign (fst (fill_one_peer now p st)) = known_foreign (fst st)"
  by (auto simp: fill_one_peer_def known_info_def known_conn_def known_foreign_def fun_eq_iff Let_def route_conn_default_def
      new_route_peer_info_with_version_def split: prod.splits option.splits)

lemma fill_keeps [simp]:
  "known_info (fill_empty_peer_info now ps s) = known_info s"
  "known_conn (fill_empty_peer_info now ps s) = known_conn s"
  "known_foreign (fill_empty_peer_info now ps s) = known_foreign s"
proof -
  have "known_info (fst (fold (fill_one_peer now) ps st)) = known_info (fst st)
      \<and> known_conn (fst (fold (fill_one_peer now) ps st)) = known_conn (fst st)
      \<and> known_foreign (fst (fold (fill_one_peer now) ps st)) = known_foreign (fst st)" for st
    by (induction ps arbitrary: st) (simp_all add: fill_one_keeps)
  from this [of "(s, False)"] show "known_info (fill_empty_peer_info now ps s) = known_info s"
    "known_conn (fill_empty_peer_info now ps s) = known_conn s"
    "known_foreign (fill_empty_peer_info now ps s) = known_foreign s"
    by (simp_all add: fill_empty_peer_info_def case_prod_unfold Let_def)
qed

lemma insert_newer_look:
  "known_info (fst (insert_newer_info now info raw st)) =
     (if rp_version info = 0 then known_info (fst st)
      else deliver rp_version (rp_peer_id info, info\<lparr>rp_last_update := None\<rparr>) (known_info (fst st)))"
  "known_conn (fst (insert_newer_info now info raw st)) = known_conn (fst st)"
  "known_foreign (fst (insert_newer_info now info raw st)) = known_foreign (fst st)"
proof -
  obtain s b where st: "st = (s, b)" by (cases st)
  show "known_conn (fst (insert_newer_info now info raw st)) = known_conn (fst st)"
    "known_foreign (fst (insert_newer_info now info raw st)) = known_foreign (fst st)"
    by (auto simp: insert_newer_info_def st Let_def known_conn_def known_foreign_def fun_eq_iff)
  consider "kv_get (sy_peer_infos s) (rp_peer_id info) = None"
    | old where "kv_get (sy_peer_infos s) (rp_peer_id info) = Some old" by blast
  then show "known_info (fst (insert_newer_info now info raw st)) =
     (if rp_version info = 0 then known_info (fst st)
      else deliver rp_version (rp_peer_id info, info\<lparr>rp_last_update := None\<rparr>) (known_info (fst st)))"
  proof cases
    case 1
    then show ?thesis
      by (auto simp: insert_newer_info_def st Let_def known_info_def deliver_def fun_eq_iff)
  next
    case (2 old)
    then show ?thesis
      by (auto simp: insert_newer_info_def st Let_def known_info_def deliver_def fun_eq_iff word_neq_0_conv)
  qed
qed

lemma update_loop_look:
  "update_peer_infos_loop now me my_route dst raws idx infos st = Some (Inr (), s') \<Longrightarrow>
     known_info s' = fold (deliver rp_version) (info_updates (Peer_Infos now me my_route dst infos raws)) (known_info (fst st))
     \<and> known_conn s' = known_conn (fst st) \<and> known_foreign s' = known_foreign (fst st)"
proof (induction infos arbitrary: idx st)
  case (Cons info infos)
  from Cons.prems obtain raw and r :: "sync_error + unit" where
    "(case r of Inl e \<Rightarrow> Some (Inl e, fst st)
      | Inr _ \<Rightarrow> update_peer_infos_loop now me my_route dst raws (Suc idx) infos (insert_newer_info now info raw st)) = Some (Inr (), s')"
    by (auto simp: bind_eq_Some_conv)
  then have "update_peer_infos_loop now me my_route dst raws (Suc idx) infos (insert_newer_info now info raw st) = Some (Inr (), s')"
    by (cases r) auto
  from Cons.IH [OF this] show ?case by (simp add: insert_newer_look)
qed auto

lemma one_peer_look:
  "known_conn (fst (update_conn_info_one_peer now pv connected s)) =
     (if pv_version pv = 0 then known_conn s else deliver fst (pv_peer_id pv, pv_version pv, connected) (known_conn s))"
  "known_info (fst (update_conn_info_one_peer now pv connected s)) = known_info s"
  "known_foreign (fst (update_conn_info_one_peer now pv connected s)) = known_foreign s"
proof -
  show "known_info (fst (update_conn_info_one_peer now pv connected s)) = known_info s"
    "known_foreign (fst (update_conn_info_one_peer now pv connected s)) = known_foreign s"
    by (auto simp: update_conn_info_one_peer_def known_info_def known_foreign_def fun_eq_iff)
  consider "kv_get (sy_conn_map s) (pv_peer_id pv) = None" | old where "kv_get (sy_conn_map s) (pv_peer_id pv) = Some old" by blast
  then show "known_conn (fst (update_conn_info_one_peer now pv connected s)) =
     (if pv_version pv = 0 then known_conn s else deliver fst (pv_peer_id pv, pv_version pv, connected) (known_conn s))"
    by cases (auto simp: update_conn_info_one_peer_def known_conn_def deliver_def fun_eq_iff word_neq_0_conv)
qed

lemma add_row_look:
  "known_conn (fst (add_conn_row now pv connected st)) = fold (deliver fst) (row_updates [(pv, connected)]) (known_conn (fst st))"
  "known_info (fst (add_conn_row now pv connected st)) = known_info (fst st)"
  "known_foreign (fst (add_conn_row now pv connected st)) = known_foreign (fst st)"
  by (simp_all add: add_conn_row_def Let_def case_prod_unfold one_peer_look row_updates_def)

lemma row_updates_Cons: "row_updates (r # rows) = row_updates [r] @ row_updates rows"
  by (simp add: row_updates_def)

lemma list_rows_look:
  "known_conn (fst (fold (add_list_row now) rows st)) = fold (deliver fst) (row_updates (list_table rows)) (known_conn (fst st))
   \<and> known_info (fst (fold (add_list_row now) rows st)) = known_info (fst st)
   \<and> known_foreign (fst (fold (add_list_row now) rows st)) = known_foreign (fst st)"
proof (induction rows arbitrary: st)
  case Nil
  then show ?case by (simp add: list_table_def List.map_filter_def row_updates_def)
next
  case (Cons row rows)
  show ?case
  proof (cases "pc_peer_id row")
    case None
    then have "list_table (row # rows) = list_table rows" by (simp add: list_table_def List.map_filter_def)
    with Cons.IH [of st] None show ?thesis by (simp add: add_list_row_def)
  next
    case (Some pv)
    let ?ps = "btree (pc_connected_peer_ids row)"
    have "row_updates (list_table (row # rows)) = row_updates [(pv, ?ps)] @ row_updates (list_table rows)"
      using Some by (subst row_updates_Cons [symmetric]) (simp add: list_table_def List.map_filter_def)
    with Cons.IH [of "add_conn_row now pv ?ps st"] Some show ?thesis by (simp add: add_list_row_def add_row_look)
  qed
qed

lemma bitmap_rows_look:
  "bitmap_rows now b idx pvs st = Some st' \<Longrightarrow>
     known_conn (fst st') = fold (deliver fst)
       (row_updates (map (\<lambda>i. (pvs ! i, the (bitmap_connected_peers b (idx + i)))) [0..<length pvs])) (known_conn (fst st))
     \<and> known_info (fst st') = known_info (fst st) \<and> known_foreign (fst st') = known_foreign (fst st)"
proof (induction pvs arbitrary: idx st)
  case Nil
  then show ?case by (simp add: row_updates_def)
next
  case (Cons pv pvs)
  from Cons.prems obtain ps where ps: "bitmap_connected_peers b idx = Some ps"
    "bitmap_rows now b (Suc idx) pvs (add_conn_row now pv ps st) = Some st'" by (auto simp: bind_eq_Some_conv)
  let ?rest = "map (\<lambda>i. (pvs ! i, the (bitmap_connected_peers b (Suc idx + i)))) [0..<length pvs]"
  have rows: "map (\<lambda>i. ((pv # pvs) ! i, the (bitmap_connected_peers b (idx + i)))) [0..<length (pv # pvs)] = (pv, ps) # ?rest"
    using ps(1) by (simp only: list.size map_upt_Suc add_Suc_right plus_nat.add_0) simp
  show ?case
    using Cons.IH [OF ps(2)] unfolding rows row_updates_Cons [of "(pv, ps)" ?rest] fold_append add_row_look by simp
qed

lemma foreign_rows_look:
  "known_foreign (fst (fold (add_foreign_entry now) infos st)) =
     fold (deliver fn_version) (foreign_updates (Foreign_Networks now infos)) (known_foreign (fst st))
   \<and> known_info (fst (fold (add_foreign_entry now) infos st)) = known_info (fst st)
   \<and> known_conn (fst (fold (add_foreign_entry now) infos st)) = known_conn (fst st)"
proof (induction infos arbitrary: st)
  case Nil
  then show ?case by (simp add: List.map_filter_def)
next
  case (Cons item infos)
  have frame: "known_info (fst (add_foreign_entry now item st)) = known_info (fst st)"
    "known_conn (fst (add_foreign_entry now item st)) = known_conn (fst st)"
    by (auto simp: add_foreign_entry_def Let_def known_info_def known_conn_def fun_eq_iff split: prod.splits option.splits)
  show ?case
  proof (cases "\<exists>k e. item = (Some k, Some e)")
    case True
    then obtain k e where item: "item = (Some k, Some e)" by blast
    have "known_foreign (fst (add_foreign_entry now item st)) = deliver fn_version (k, e\<lparr>fn_last_update := None\<rparr>) (known_foreign (fst st))"
      by (cases st; cases "kv_get (sy_foreign_network (fst st)) k")
        (auto simp: item add_foreign_entry_def Let_def known_foreign_def deliver_def fun_eq_iff)
    with Cons.IH [of "add_foreign_entry now item st"] frame show ?thesis by (simp add: item List.map_filter_def)
  next
    case False
    then have "add_foreign_entry now item st = st" by (cases item) (auto simp: add_foreign_entry_def split: option.splits)
    moreover have "foreign_updates (Foreign_Networks now (item # infos)) = foreign_updates (Foreign_Networks now infos)"
      using False by (cases item) (auto simp: List.map_filter_def split: option.splits)
    ultimately show ?thesis using Cons.IH [of st] by simp
  qed
qed

lemma receive_look:
  assumes "sync_receive m s = Some s'"
  shows "known_info s' = fold (deliver rp_version) (info_updates m) (known_info s)"
    and "known_conn s' = fold (deliver fst) (conn_updates m) (known_conn s)"
    and "known_foreign s' = fold (deliver fn_version) (foreign_updates m) (known_foreign s)"
proof -
  have "known_info s' = fold (deliver rp_version) (info_updates m) (known_info s)
      \<and> known_conn s' = fold (deliver fst) (conn_updates m) (known_conn s)
      \<and> known_foreign s' = fold (deliver fn_version) (foreign_updates m) (known_foreign s)"
  proof (cases m)
    case (Peer_Infos now me my_route dst infos raws)
    with assms have "update_peer_infos_loop now me my_route dst raws 0 infos (s, False) = Some (Inr (), s')"
      by (auto simp: update_peer_infos_def split: option.splits sum.splits)
    from update_loop_look [OF this] Peer_Infos show ?thesis by simp
  next
    case (Conn_Info now c)
    show ?thesis
    proof (cases c)
      case (ConnBitmap b)
      let ?start = "(fill_empty_peer_info now (btree (map pv_peer_id (cb_peer_ids b))) s, False)"
      obtain st where "bitmap_rows now b 0 (cb_peer_ids b) ?start = Some st" "s' = inc_if (snd st) (fst st)"
        using assms by (auto simp: Conn_Info ConnBitmap update_conn_info_def update_conn_info_with_bitmap_def bind_eq_Some_conv)
      with bitmap_rows_look [OF this(1)] show ?thesis by (simp add: Conn_Info ConnBitmap bitmap_table_def)
    next
      case (ConnPeerList rows)
      have "s' = update_conn_info_with_list now rows s"
        using assms by (simp add: Conn_Info ConnPeerList update_conn_info_def)
      with list_rows_look [of now rows "(s, False)"] show ?thesis
        by (simp add: Conn_Info ConnPeerList update_conn_info_with_list_def case_prod_unfold Let_def)
    qed
  next
    case (Foreign_Networks now infos)
    with assms foreign_rows_look [of now infos "(s, False)"] show ?thesis by (auto simp: update_foreign_network_def)
  qed
  then show "known_info s' = fold (deliver rp_version) (info_updates m) (known_info s)"
    and "known_conn s' = fold (deliver fst) (conn_updates m) (known_conn s)"
    and "known_foreign s' = fold (deliver fn_version) (foreign_updates m) (known_foreign s)" by simp_all
qed

interpretation infos: replica known_info rp_version sync_receive info_updates by unfold_locales (rule receive_look(1))

interpretation conns: replica known_conn fst sync_receive conn_updates by unfold_locales (rule receive_look(2))

interpretation foreigns: replica known_foreign fn_version sync_receive foreign_updates by unfold_locales (rule receive_look(3))

section \<open>Convergence\<close>

definition one_content :: "('v \<Rightarrow> version) \<Rightarrow> ('k \<Rightarrow> 'v set) \<Rightarrow> bool" where
  "one_content ver h \<longleftrightarrow> (\<forall>k. inj_on ver (h k))"

definition heard :: "('s \<Rightarrow> 'k \<rightharpoonup> 'v) \<Rightarrow> ('m \<Rightarrow> ('k \<times> 'v) list) \<Rightarrow> 'm list \<Rightarrow> 's \<Rightarrow> 'k \<Rightarrow> 'v set" where
  "heard look updates ms s = offered (look s) (concat (map updates ms))"

text \<open>C5: Two stores that have heard of the same peer information, connections and foreign networks know the same, whatever
  the order, grouping, format and repetition in which they heard it, provided that a version number stands for one content
  and no message was refused.\<close>

theorem sync_converges:
  assumes "receive_all sync_receive ms s = Some t" "receive_all sync_receive ms' s' = Some t'"
    and "heard known_info info_updates ms s = heard known_info info_updates ms' s'"
      "one_content rp_version (heard known_info info_updates ms s)"
    and "heard known_conn conn_updates ms s = heard known_conn conn_updates ms' s'"
      "one_content fst (heard known_conn conn_updates ms s)"
    and "heard known_foreign foreign_updates ms s = heard known_foreign foreign_updates ms' s'"
      "one_content fn_version (heard known_foreign foreign_updates ms s)"
  shows "known_info t = known_info t' \<and> known_conn t = known_conn t' \<and> known_foreign t = known_foreign t'"
proof (intro conjI ext)
  fix k
  show "known_info t k = known_info t' k"
    by (rule infos.replicas_converge [OF assms(1,2)]) (use assms(3,4) in \<open>auto simp: heard_def one_content_def fun_eq_iff\<close>)
  show "known_conn t k = known_conn t' k"
    by (rule conns.replicas_converge [OF assms(1,2)]) (use assms(5,6) in \<open>auto simp: heard_def one_content_def fun_eq_iff\<close>)
next
  fix k
  show "known_foreign t k = known_foreign t' k"
    by (rule foreigns.replicas_converge [OF assms(1,2)]) (use assms(7,8) in \<open>auto simp: heard_def one_content_def fun_eq_iff\<close>)
qed

definition sample_row :: "peer_id \<Rightarrow> version \<Rightarrow> peer_id list \<Rightarrow> sync_msg" where
  "sample_row p v ps = Conn_Info 0 (ConnPeerList [\<lparr>pc_peer_id = Some \<lparr>pv_peer_id = p, pv_version = v\<rparr>, pc_connected_peer_ids = ps\<rparr>])"

theorem sync_converges_witness:
  "\<exists>t t'. receive_all sync_receive [sample_row 1 1 [2], sample_row 1 2 [2, 3]] (synced_new ''a'') = Some t
      \<and> receive_all sync_receive [sample_row 1 2 [2, 3], sample_row 1 1 [2]] (synced_new ''b'') = Some t'
      \<and> known_info t = known_info t' \<and> known_conn t = known_conn t' \<and> known_foreign t = known_foreign t'"
proof -
  let ?ms = "[sample_row 1 1 [2], sample_row 1 2 [2, 3]]" and ?ms' = "[sample_row 1 2 [2, 3], sample_row 1 1 [2]]"
  obtain t t' where t: "receive_all sync_receive ?ms (synced_new ''a'') = Some t" "receive_all sync_receive ?ms' (synced_new ''b'') = Some t'"
    by (simp add: sample_row_def update_conn_info_def)
  have empty: "known_info (synced_new v) = (\<lambda>_. None)" "known_conn (synced_new v) = (\<lambda>_. None)" "known_foreign (synced_new v) = (\<lambda>_. None)" for v
    by (simp_all add: known_info_def known_conn_def known_foreign_def synced_new_def fun_eq_iff)
  have rows: "conn_updates (sample_row 1 v ps) = (if v = 0 then [] else [(1, v, btree ps)])" for v ps
    by (simp add: sample_row_def row_updates_def list_table_def List.map_filter_def)
  have none: "info_updates (sample_row p v ps) = []" "foreign_updates (sample_row p v ps) = []" for p v ps by (simp_all add: sample_row_def)
  have "known_info t = known_info t' \<and> known_conn t = known_conn t' \<and> known_foreign t = known_foreign t'"
    by (rule sync_converges [OF t])
      (auto simp: heard_def one_content_def offered_def empty none rows fun_eq_iff inj_on_def)
  with t show ?thesis by blast
qed

section \<open>Bitmaps\<close>

lemma get_bit_Some: "get_bit b idx \<noteq> None \<longleftrightarrow> idx < 8 * length (cb_bitmap b)"
  by (simp add: get_bit_def nth_opt_def less_mult_imp_div_less)
    (metis div_less_iff_less_mult mult.commute zero_less_numeral)

lemma connected_row_Some: "connected_row b idx pvs \<noteq> None \<longleftrightarrow> pvs = [] \<or> idx + length pvs \<le> 8 * length (cb_bitmap b)"
proof (induction pvs arbitrary: idx)
  case (Cons pv pvs)
  have "connected_row b idx (pv # pvs) \<noteq> None \<longleftrightarrow> get_bit b idx \<noteq> None \<and> connected_row b (Suc idx) pvs \<noteq> None"
    by (cases "get_bit b idx"; cases "connected_row b (Suc idx) pvs") auto
  also have "\<dots> \<longleftrightarrow> idx + length (pv # pvs) \<le> 8 * length (cb_bitmap b)" unfolding get_bit_Some Cons.IH by auto
  finally show ?case by simp
qed simp

lemma bitmap_rows_Some:
  "bitmap_rows now b idx pvs st \<noteq> None \<longleftrightarrow> (\<forall>j < length pvs. bitmap_connected_peers b (idx + j) \<noteq> None)"
proof (induction pvs arbitrary: idx st)
  case (Cons pv pvs)
  show ?case
  proof (cases "bitmap_connected_peers b idx")
    case None
    then show ?thesis by force
  next
    case (Some ps)
    have "(\<forall>j < length (pv # pvs). bitmap_connected_peers b (idx + j) \<noteq> None) \<longleftrightarrow>
        (\<forall>j < length pvs. bitmap_connected_peers b (Suc idx + j) \<noteq> None)"
      using Some by (simp add: All_less_Suc2)
    with Some Cons.IH [of "Suc idx"] show ?thesis by simp
  qed
qed simp

lemma update_bitmap_None:
  "update_conn_info now (ConnBitmap b) s = None \<longleftrightarrow> 8 * length (cb_bitmap b) < length (cb_peer_ids b) * length (cb_peer_ids b)"
proof -
  let ?n = "length (cb_peer_ids b)"
  have row: "bitmap_connected_peers b i \<noteq> None \<longleftrightarrow> ?n = 0 \<or> Suc i * ?n \<le> 8 * length (cb_bitmap b)" for i
    using connected_row_Some [of b "i * ?n" "cb_peer_ids b"] by (simp add: bitmap_connected_peers_def add.commute)
  have "(\<forall>i < ?n. Suc i * ?n \<le> 8 * length (cb_bitmap b)) \<longleftrightarrow> ?n * ?n \<le> 8 * length (cb_bitmap b)"
  proof
    assume all: "\<forall>i < ?n. Suc i * ?n \<le> 8 * length (cb_bitmap b)"
    show "?n * ?n \<le> 8 * length (cb_bitmap b)"
    proof (cases "?n = 0")
      case False
      then have "Suc (?n - 1) * ?n \<le> 8 * length (cb_bitmap b)" using all by (meson diff_less neq0_conv zero_less_one)
      with False show ?thesis by simp
    qed simp
  next
    assume "?n * ?n \<le> 8 * length (cb_bitmap b)"
    then show "\<forall>i < ?n. Suc i * ?n \<le> 8 * length (cb_bitmap b)" by (meson Suc_leI le_trans mult_le_mono1)
  qed
  then have "(\<forall>i < ?n. bitmap_connected_peers b i \<noteq> None) \<longleftrightarrow> ?n * ?n \<le> 8 * length (cb_bitmap b)" unfolding row by auto
  then have "bitmap_rows now b 0 (cb_peer_ids b) st = None \<longleftrightarrow> 8 * length (cb_bitmap b) < ?n * ?n" for st
    using bitmap_rows_Some [of now b 0 "cb_peer_ids b" st] by (auto simp: not_less [symmetric])
  then show ?thesis
    by (simp add: update_conn_info_def update_conn_info_with_bitmap_def bind_eq_None_conv case_prod_unfold)
qed

end
