(* ===== verification/RouteTrust.thy ===== *)
theory RouteTrust
  imports RouteSync RouteWire
begin

text \<open>
  Trust in route information (\<^verbatim>\<open>peers/route/peer_ospf_route.rs\<close>, \<^verbatim>\<open>easytier-proto/src/peer_rpc.rs\<close>): groups proved with a
  shared secret, credentials that administrators publish, the election of one owner of a credential that may be used once,
  and the removal of peers whose credential was withdrawn.

    \<^item> \<^verbatim>\<open>Hmac<Sha256>\<close> and the encoding of a credential by \<^verbatim>\<open>prost\<close> are fields of \<open>trust_ops\<close>. \<^verbatim>\<open>verify_slice\<close> compares the
      whole tag.
    \<^item> The order in which a hash map or hash set is walked is that of its association list; no result below depends on it.
\<close>

record trust_ops =
  to_hmac :: "bytes \<Rightarrow> bytes \<Rightarrow> bytes"
  to_encode_credential :: "trusted_credential_pubkey \<Rightarrow> bytes"
  to_wire :: wire_ops

section \<open>Proofs\<close>

definition group_data :: "string \<Rightarrow> peer_id \<Rightarrow> bytes" where
  "group_data group_name p = str_bytes group_name @ [0] @ u32_be p"

definition generate_with_proof :: "trust_ops \<Rightarrow> string \<Rightarrow> string \<Rightarrow> peer_id \<Rightarrow> peer_group_info" where
  "generate_with_proof ops group_name group_secret p =
     \<lparr>pg_group_name = group_name, pg_group_proof = to_hmac ops (str_bytes group_secret) (group_data group_name p)\<rparr>"

definition verify_group :: "trust_ops \<Rightarrow> peer_group_info \<Rightarrow> string \<Rightarrow> peer_id \<Rightarrow> bool" where
  "verify_group ops g group_secret p \<longleftrightarrow>
     to_hmac ops (str_bytes group_secret) (group_data (pg_group_name g) p) = pg_group_proof g"

definition generate_credential_hmac_from_bytes :: "trust_ops \<Rightarrow> bytes \<Rightarrow> string \<Rightarrow> bytes" where
  "generate_credential_hmac_from_bytes ops credential_bytes network_secret =
     to_hmac ops (str_bytes network_secret) (str_bytes ''easytier credential proof'' @ credential_bytes)"

definition generate_credential_hmac :: "trust_ops \<Rightarrow> trusted_credential_pubkey \<Rightarrow> string \<Rightarrow> bytes" where
  "generate_credential_hmac ops credential network_secret =
     generate_credential_hmac_from_bytes ops (to_encode_credential ops credential) network_secret"

definition new_signed :: "trust_ops \<Rightarrow> trusted_credential_pubkey \<Rightarrow> string \<Rightarrow> trusted_credential_proof" where
  "new_signed ops credential network_secret =
     \<lparr>tp_credential = Some credential, tp_credential_hmac = generate_credential_hmac ops credential network_secret\<rparr>"

definition verify_credential_hmac_with_bytes :: "trust_ops \<Rightarrow> trusted_credential_proof \<Rightarrow> bytes \<Rightarrow> string \<Rightarrow> bool" where
  "verify_credential_hmac_with_bytes ops proof credential_bytes network_secret \<longleftrightarrow>
     tp_credential_hmac proof \<noteq> []
     \<and> to_hmac ops (str_bytes network_secret) (str_bytes ''easytier credential proof'' @ credential_bytes) = tp_credential_hmac proof"

definition verify_credential_hmac :: "trust_ops \<Rightarrow> trusted_credential_proof \<Rightarrow> string \<Rightarrow> bool" where
  "verify_credential_hmac ops proof network_secret =
     (case tp_credential proof of
        None \<Rightarrow> False
      | Some c \<Rightarrow> verify_credential_hmac_with_bytes ops proof (to_encode_credential ops c) network_secret)"

section \<open>Peers and credentials\<close>

definition flag_default :: feature_flag where
  "flag_default = \<lparr>ff_is_public_server = False, ff_avoid_relay_data = False, ff_kcp_input = False, ff_no_relay_kcp = False,
     ff_support_conn_list_sync = False, ff_quic_input = False, ff_no_relay_quic = False, ff_is_credential_peer = False,
     ff_need_p2p = False, ff_disable_p2p = False, ff_ipv6_public_addr_provider = False\<rparr>"

definition mark_credential_peer :: "route_peer_info \<Rightarrow> bool \<Rightarrow> route_peer_info" where
  "mark_credential_peer info is_credential =
     info\<lparr>rp_feature_flag :=
       Some ((case rp_feature_flag info of Some f \<Rightarrow> f | None \<Rightarrow> flag_default)\<lparr>ff_is_credential_peer := is_credential\<rparr>)\<rparr>"

definition is_credential_peer_info :: "route_peer_info \<Rightarrow> bool" where
  "is_credential_peer_info info = (case rp_feature_flag info of Some f \<Rightarrow> ff_is_credential_peer f | None \<Rightarrow> False)"

definition is_admin_peer :: "route_peer_info \<Rightarrow> bool" where
  "is_admin_peer info = (if rp_version info = 0 then False else \<not> is_credential_peer_info info)"

definition is_credential_peer :: "synced_route_info \<Rightarrow> peer_id \<Rightarrow> bool" where
  "is_credential_peer s p = (case kv_get (sy_peer_infos s) p of Some info \<Rightarrow> is_credential_peer_info info | None \<Rightarrow> False)"

definition get_credential_info_by_pubkey :: "synced_route_info \<Rightarrow> bytes \<Rightarrow> trusted_credential_pubkey option" where
  "get_credential_info_by_pubkey s key = (if key = [] then None else kv_get (sy_trusted_credential_pubkeys s) key)"

definition credential_is_reusable :: "trusted_credential_pubkey \<Rightarrow> bool" where
  "credential_is_reusable c = (case tc_reusable c of Some b \<Rightarrow> b | None \<Rightarrow> True)"

definition credential_proof_is_valid ::
  "trust_ops \<Rightarrow> bytes option \<Rightarrow> nat \<Rightarrow> trusted_credential_proof \<Rightarrow> string option \<Rightarrow> bool" where
  "credential_proof_is_valid ops raw_route_info proof_idx proof network_secret =
     (case network_secret of
        None \<Rightarrow> True
      | Some secret \<Rightarrow>
          (case raw_route_info of
             None \<Rightarrow> verify_credential_hmac ops proof secret
           | Some raw \<Rightarrow>
               (case raw_credential_bytes (to_wire ops) raw proof_idx of
                  Some (Inr (Some credential_bytes)) \<Rightarrow> verify_credential_hmac_with_bytes ops proof credential_bytes secret
                | _ \<Rightarrow> False)))"

section \<open>Trusted credentials\<close>

datatype trusted_key_source = OspfNode | OspfCredential

record trusted_key_metadata =
  tk_source :: trusted_key_source
  tk_expiry_unix :: "int option"

type_synonym trust_maps = "(bytes, trusted_credential_pubkey) kvs \<times> (bytes, trusted_key_metadata) kvs"

definition add_credential ::
  "trust_ops \<Rightarrow> bytes option \<Rightarrow> string option \<Rightarrow> int \<Rightarrow> nat \<times> trusted_credential_proof \<Rightarrow> trust_maps \<Rightarrow> trust_maps" where
  "add_credential ops raw_route_info network_secret now item st =
     (let (proof_idx, proof) = item; (all_trusted, keys) = st in
      if \<not> credential_proof_is_valid ops raw_route_info proof_idx proof network_secret then st
      else case tp_credential proof of
             None \<Rightarrow> st
           | Some c \<Rightarrow>
               if tc_expiry_unix c \<le> now then st
               else (if kv_get all_trusted (tc_pubkey c) = None then kv_put (tc_pubkey c) c all_trusted else all_trusted,
                     kv_put (tc_pubkey c) \<lparr>tk_source = OspfCredential, tk_expiry_unix = Some (tc_expiry_unix c)\<rparr> keys))"

definition add_admin ::
  "trust_ops \<Rightarrow> synced_route_info \<Rightarrow> string option \<Rightarrow> int \<Rightarrow> peer_id \<times> route_peer_info \<Rightarrow> trust_maps \<Rightarrow> trust_maps" where
  "add_admin ops s network_secret now item st =
     (let (p, info) = item; (all_trusted, keys) = st in
      if \<not> is_admin_peer info then st
      else fold (add_credential ops (kv_get (sy_raw_peer_infos s) p) network_secret now)
             (List.enumerate 0 (rp_trusted_credential_pubkeys info))
             (all_trusted,
              if rp_noise_static_pubkey info \<noteq> []
              then kv_put (rp_noise_static_pubkey info) \<lparr>tk_source = OspfNode, tk_expiry_unix = None\<rparr> keys else keys))"

definition collect_trusted_credentials :: "trust_ops \<Rightarrow> synced_route_info \<Rightarrow> string option \<Rightarrow> int \<Rightarrow> trust_maps" where
  "collect_trusted_credentials ops s network_secret now = fold (add_admin ops s network_secret now) (sy_peer_infos s) ([], [])"

definition replace_trusted_credential_pubkeys ::
  "(bytes, trusted_credential_pubkey) kvs \<Rightarrow> synced_route_info \<Rightarrow> synced_route_info \<times> bytes list" where
  "replace_trusted_credential_pubkeys all_trusted s =
     (s\<lparr>sy_trusted_credential_pubkeys := all_trusted\<rparr>, map fst (sy_trusted_credential_pubkeys s))"

section \<open>Owners of credentials that may be used once\<close>

definition add_candidate ::
  "(bytes, trusted_credential_pubkey) kvs \<Rightarrow> (peer_id \<Rightarrow> bool) \<Rightarrow> peer_id \<times> route_peer_info
    \<Rightarrow> (bytes, peer_id list) kvs \<Rightarrow> (bytes, peer_id list) kvs" where
  "add_candidate all_trusted is_peer_active item candidates =
     (let (p, info) = item; key = rp_noise_static_pubkey info in
      if key = [] then candidates
      else case kv_get all_trusted key of
             None \<Rightarrow> candidates
           | Some c \<Rightarrow>
               if credential_is_reusable c then candidates
               else if \<not> is_peer_active p then candidates
               else kv_put key (btree (p # (case kv_get candidates key of Some ps \<Rightarrow> ps | None \<Rightarrow> []))) candidates)"

definition elect_owner ::
  "bytes \<times> peer_id list \<Rightarrow> (bytes, peer_id) kvs \<times> peer_id list \<Rightarrow> (bytes, peer_id) kvs \<times> peer_id list" where
  "elect_owner item st =
     (let (key, ps) = item; (owners, dups) = st in
      case ps of
        [] \<Rightarrow> st
      | owner # _ \<Rightarrow> (kv_put key owner owners, btree (filter (\<lambda>p. p \<noteq> owner) ps @ dups)))"

definition collect_non_reusable_credential_owners ::
  "(peer_id, route_peer_info) kvs \<Rightarrow> (bytes, trusted_credential_pubkey) kvs \<Rightarrow> (peer_id \<Rightarrow> bool)
    \<Rightarrow> (bytes, peer_id) kvs \<times> peer_id list" where
  "collect_non_reusable_credential_owners infos all_trusted is_peer_active =
     fold elect_owner (fold (add_candidate all_trusted is_peer_active) infos []) ([], [])"

definition replace_non_reusable_credential_owners :: "(bytes, peer_id) kvs \<Rightarrow> synced_route_info \<Rightarrow> synced_route_info" where
  "replace_non_reusable_credential_owners owners s =
     s\<lparr>sy_non_reusable_credential_owners :=
        fold (\<lambda>(key, p). kv_put key p) owners
          (kv_retain (\<lambda>key _. kv_get owners key \<noteq> None) (sy_non_reusable_credential_owners s))\<rparr>"

definition replace_suppressed_non_reusable_credential_peers :: "peer_id list \<Rightarrow> synced_route_info \<Rightarrow> synced_route_info \<times> bool" where
  "replace_suppressed_non_reusable_credential_peers suppressed s =
     (if btree (map fst (sy_suppressed_non_reusable_credential_peers s)) = suppressed then (s, False)
      else (sync_inc_version (s\<lparr>sy_suppressed_non_reusable_credential_peers :=
              fold (\<lambda>p. kv_put p ()) suppressed
                (kv_retain (\<lambda>p _. p \<in> set suppressed) (sy_suppressed_non_reusable_credential_peers s))\<rparr>), True))"

section \<open>Groups\<close>

definition get_proof_groups :: "synced_route_info \<Rightarrow> peer_id \<Rightarrow> (string, bytes) kvs" where
  "get_proof_groups s p =
     (case kv_get (sy_group_trust_map s) p of Some groups \<Rightarrow> filter (\<lambda>(_, proof). proof \<noteq> []) groups | None \<Rightarrow> [])"

definition or_default :: "string \<Rightarrow> (string, bytes) kvs \<Rightarrow> (string, bytes) kvs" where
  "or_default g m = (if kv_get m g = None then kv_put g [] m else m)"

definition grant_credential_groups ::
  "(bytes, trusted_credential_pubkey) kvs \<Rightarrow> peer_id \<times> route_peer_info \<Rightarrow> synced_route_info \<Rightarrow> synced_route_info" where
  "grant_credential_groups all_trusted item s =
     (let info = snd item in
      if rp_noise_static_pubkey info = [] then s
      else case kv_get all_trusted (rp_noise_static_pubkey info) of
             None \<Rightarrow> s
           | Some c \<Rightarrow> set_peer_groups (rp_peer_id info) (fold or_default (tc_groups c) (get_proof_groups s (rp_peer_id info))) s)"

definition update_credential_groups ::
  "(peer_id, route_peer_info) kvs \<Rightarrow> (bytes, trusted_credential_pubkey) kvs \<Rightarrow> synced_route_info \<Rightarrow> synced_route_info" where
  "update_credential_groups infos all_trusted s = fold (grant_credential_groups all_trusted) infos s"

definition verify_groups :: "trust_ops \<Rightarrow> (string, string) kvs \<Rightarrow> bool \<Rightarrow> route_peer_info \<Rightarrow> (string, bytes) kvs" where
  "verify_groups ops declarations trust_admin info =
     (let proved = fold (\<lambda>g m. case kv_get declarations (pg_group_name g) of
                             Some secret \<Rightarrow> if verify_group ops g secret (rp_peer_id info)
                                            then kv_put (pg_group_name g) (pg_group_proof g) m else m
                           | None \<Rightarrow> m) (rp_groups info) []
      in if trust_admin \<and> is_admin_peer info then fold or_default (map pg_group_name (rp_groups info)) proved else proved)"

definition declared_groups :: "(string \<times> string) list \<Rightarrow> (string, string) kvs" where
  "declared_groups declarations = fold (\<lambda>(name, secret). kv_put name secret) declarations []"

definition update_peer_groups :: "peer_id \<Rightarrow> (string, bytes) kvs \<Rightarrow> synced_route_info \<Rightarrow> synced_route_info" where
  "update_peer_groups p groups s =
     (case kv_get (sy_group_trust_map s) p of
        Some _ \<Rightarrow> set_peer_groups p groups s
      | None \<Rightarrow> if groups = [] then s else set_peer_groups p groups s)"

definition verify_and_update_group_trusts ::
  "trust_ops \<Rightarrow> route_peer_info list \<Rightarrow> (string \<times> string) list \<Rightarrow> bool \<Rightarrow> synced_route_info \<Rightarrow> synced_route_info" where
  "verify_and_update_group_trusts ops infos declarations trust_admin s =
     fold (\<lambda>info. update_peer_groups (rp_peer_id info) (verify_groups ops (declared_groups declarations) trust_admin info)) infos s"

definition get_peer_groups :: "synced_route_info \<Rightarrow> peer_id \<Rightarrow> string list" where
  "get_peer_groups s p = (case kv_get (sy_group_trust_map_cache s) p of Some groups \<Rightarrow> groups | None \<Rightarrow> [])"

definition verify_and_update_current_group_trusts ::
  "trust_ops \<Rightarrow> route_peer_info list \<Rightarrow> (string \<times> string) list \<Rightarrow> bool \<Rightarrow> synced_route_info \<Rightarrow> synced_route_info" where
  "verify_and_update_current_group_trusts ops received declarations trust_admin s =
     verify_and_update_group_trusts ops
       (List.map_filter (kv_get (sy_peer_infos s)) (remdups (map rp_peer_id received))) declarations trust_admin s"

definition verify_and_update_all_current_group_trusts ::
  "trust_ops \<Rightarrow> (string \<times> string) list \<Rightarrow> bool \<Rightarrow> synced_route_info \<Rightarrow> synced_route_info" where
  "verify_and_update_all_current_group_trusts ops declarations trust_admin s =
     verify_and_update_group_trusts ops (map snd (sy_peer_infos s)) declarations trust_admin s"

section \<open>The refresh of trust\<close>

definition collect_revoked_credential_peers ::
  "(peer_id, route_peer_info) kvs \<Rightarrow> bytes list \<Rightarrow> (bytes, trusted_credential_pubkey) kvs \<Rightarrow> peer_id list" where
  "collect_revoked_credential_peers infos prev_trusted all_trusted =
     btree (map fst (filter (\<lambda>(p, info).
       \<not> (rp_noise_static_pubkey info = [] \<or> rp_version info = 0)
       \<and> rp_noise_static_pubkey info \<in> set prev_trusted \<and> kv_get all_trusted (rp_noise_static_pubkey info) = None) infos))"

definition unprotected :: "peer_id option \<Rightarrow> peer_id list \<Rightarrow> peer_id list" where
  "unprotected protected ps = (case protected of Some p \<Rightarrow> removeAll p ps | None \<Rightarrow> ps)"

record trust_result =
  tr_untrusted :: "peer_id list"
  tr_keys :: "(bytes, trusted_key_metadata) kvs"
  tr_suppressed_changed :: bool

definition verify_and_update_credential_trusts_protecting ::
  "trust_ops \<Rightarrow> nat \<Rightarrow> string option \<Rightarrow> (peer_id \<Rightarrow> bool) \<Rightarrow> peer_id option \<Rightarrow> synced_route_info
    \<Rightarrow> synced_route_info \<times> trust_result" where
  "verify_and_update_credential_trusts_protecting ops now network_secret is_peer_active protected s =
     (let infos = sy_peer_infos s;
          (all_trusted, keys) = collect_trusted_credentials ops s network_secret (int (now div secs 1));
          (s, prev_trusted) = replace_trusted_credential_pubkeys all_trusted s;
          (owners, dups) = collect_non_reusable_credential_owners infos all_trusted is_peer_active;
          s = replace_non_reusable_credential_owners owners s;
          (s, suppressed_changed) = replace_suppressed_non_reusable_credential_peers (unprotected protected dups) s;
          s = update_credential_groups infos all_trusted s;
          untrusted = unprotected protected (collect_revoked_credential_peers infos prev_trusted all_trusted);
          s = (if untrusted \<noteq> [] then remove_peers untrusted s else s)
      in (s, \<lparr>tr_untrusted = untrusted, tr_keys = keys, tr_suppressed_changed = suppressed_changed\<rparr>))"

definition verify_and_update_credential_trusts_with_active_peers ::
  "trust_ops \<Rightarrow> nat \<Rightarrow> string option \<Rightarrow> (peer_id \<Rightarrow> bool) \<Rightarrow> synced_route_info
    \<Rightarrow> synced_route_info \<times> peer_id list \<times> (bytes, trusted_key_metadata) kvs" where
  "verify_and_update_credential_trusts_with_active_peers ops now network_secret is_peer_active s =
     (let (s, r) = verify_and_update_credential_trusts_protecting ops now network_secret is_peer_active None s
      in (s, tr_untrusted r, tr_keys r))"

definition verify_and_update_credential_trusts ::
  "trust_ops \<Rightarrow> nat \<Rightarrow> string option \<Rightarrow> synced_route_info \<Rightarrow> synced_route_info \<times> peer_id list \<times> (bytes, trusted_key_metadata) kvs" where
  "verify_and_update_credential_trusts ops now network_secret s =
     verify_and_update_credential_trusts_with_active_peers ops now network_secret (\<lambda>_. True) s"

section \<open>Which credentials are trusted\<close>

definition endorses :: "trust_ops \<Rightarrow> synced_route_info \<Rightarrow> string option \<Rightarrow> int \<Rightarrow> peer_id \<times> route_peer_info \<Rightarrow> trusted_credential_pubkey \<Rightarrow> bool" where
  "endorses ops s network_secret now item c \<longleftrightarrow>
     (let (p, info) = item in
      is_admin_peer info \<and> now < tc_expiry_unix c
      \<and> (\<exists>i < length (rp_trusted_credential_pubkeys info).
           let proof = rp_trusted_credential_pubkeys info ! i in
           tp_credential proof = Some c \<and> credential_proof_is_valid ops (kv_get (sy_raw_peer_infos s) p) i proof network_secret))"

definition credential_ok :: "trust_ops \<Rightarrow> bytes option \<Rightarrow> string option \<Rightarrow> int \<Rightarrow> nat \<times> trusted_credential_proof \<Rightarrow> trusted_credential_pubkey \<Rightarrow> bool" where
  "credential_ok ops raw network_secret now item c \<longleftrightarrow>
     tp_credential (snd item) = Some c \<and> now < tc_expiry_unix c \<and> credential_proof_is_valid ops raw (fst item) (snd item) network_secret"

text \<open>A fold that adds entries without replacing any: what ends up in the map.\<close>

definition collects :: "('i \<Rightarrow> 'v \<Rightarrow> bool) \<Rightarrow> ('v \<Rightarrow> 'k) \<Rightarrow> 'i set \<Rightarrow> ('k, 'v) kvs \<Rightarrow> ('k, 'v) kvs \<Rightarrow> bool" where
  "collects gives key items m m' \<longleftrightarrow>
     (\<forall>k. (kv_get m' k \<noteq> None \<longleftrightarrow> kv_get m k \<noteq> None \<or> (\<exists>i \<in> items. \<exists>v. gives i v \<and> key v = k))
        \<and> (\<forall>v. kv_get m' k = Some v \<longrightarrow> kv_get m k = Some v \<or> (\<exists>i \<in> items. gives i v \<and> key v = k)))"

lemma collects_empty: "collects gives key {} m m"
  by (simp add: collects_def)

lemma collects_trans:
  assumes "collects gives key A m m1" "collects gives key B m1 m2"
  shows "collects gives key (A \<union> B) m m2"
  unfolding collects_def
proof (intro allI conjI impI)
  fix k v
  note one = assms(1) [unfolded collects_def, rule_format, of k] and two = assms(2) [unfolded collects_def, rule_format, of k]
  show "kv_get m2 k \<noteq> None \<longleftrightarrow> kv_get m k \<noteq> None \<or> (\<exists>i \<in> A \<union> B. \<exists>v. gives i v \<and> key v = k)"
    unfolding two [THEN conjunct1] one [THEN conjunct1] by blast
  assume "kv_get m2 k = Some v"
  with two consider "kv_get m1 k = Some v" | "\<exists>i \<in> B. gives i v \<and> key v = k" by blast
  then show "kv_get m k = Some v \<or> (\<exists>i \<in> A \<union> B. gives i v \<and> key v = k)" by cases (use one in blast)+
qed

lemma fold_collects:
  assumes "\<And>i st. collects gives key {i} (fst st) (fst (f i st))"
  shows "collects gives key (set items) (fst st) (fst (fold f items st))"
proof (induction items arbitrary: st)
  case Nil
  then show ?case by (simp add: collects_empty)
next
  case (Cons i items)
  from collects_trans [OF assms [of i st] Cons.IH [of "f i st"]] show ?case by simp
qed

lemma collects_cong:
  assumes "\<And>v. (\<exists>i \<in> A. gives i v) \<longleftrightarrow> (\<exists>i \<in> B. gives' i v)"
  shows "collects gives key A m m' \<longleftrightarrow> collects gives' key B m m'"
proof -
  have "(\<exists>i \<in> A. \<exists>v. gives i v \<and> key v = k) \<longleftrightarrow> (\<exists>i \<in> B. \<exists>v. gives' i v \<and> key v = k)" for k using assms by blast
  moreover have "(\<exists>i \<in> A. gives i v \<and> key v = k) \<longleftrightarrow> (\<exists>i \<in> B. gives' i v \<and> key v = k)" for k v using assms by blast
  ultimately show ?thesis by (simp only: collects_def)
qed

lemma bex_enumerate: "(\<exists>i \<in> set (List.enumerate 0 xs). P i) \<longleftrightarrow> (\<exists>i < length xs. P (i, xs ! i))"
  by (force simp: in_set_enumerate_eq)

lemma add_credential_collects:
  "collects (credential_ok ops raw network_secret now) tc_pubkey {i} (fst st) (fst (add_credential ops raw network_secret now i st))"
  by (cases i; cases st) (auto simp: collects_def credential_ok_def add_credential_def not_le split: option.splits)

lemma add_admin_collects:
  "collects (endorses ops s network_secret now) tc_pubkey {item} (fst st) (fst (add_admin ops s network_secret now item st))"
proof (cases "is_admin_peer (snd item)")
  case False
  then show ?thesis by (cases item) (simp add: add_admin_def endorses_def collects_def case_prod_unfold)
next
  case True
  let ?raw = "kv_get (sy_raw_peer_infos s) (fst item)" and ?proofs = "rp_trusted_credential_pubkeys (snd item)"
  let ?give = "credential_ok ops ?raw network_secret now"
  have give: "(\<exists>i \<in> set (List.enumerate 0 ?proofs). ?give i c) \<longleftrightarrow> endorses ops s network_secret now item c" for c
    using True by (cases item) (auto simp: credential_ok_def endorses_def bex_enumerate Let_def)
  have "collects ?give tc_pubkey (set (List.enumerate 0 ?proofs)) (fst st)
     (fst (fold (add_credential ops ?raw network_secret now) (List.enumerate 0 ?proofs)
        (fst st, if rp_noise_static_pubkey (snd item) \<noteq> []
                 then kv_put (rp_noise_static_pubkey (snd item)) \<lparr>tk_source = OspfNode, tk_expiry_unix = None\<rparr> (snd st) else snd st)))"
    using fold_collects [OF add_credential_collects] by (metis fst_conv)
  then have "collects ?give tc_pubkey (set (List.enumerate 0 ?proofs)) (fst st) (fst (add_admin ops s network_secret now item st))"
    using True by (simp add: add_admin_def case_prod_unfold Let_def)
  then show ?thesis by (rule collects_cong [THEN iffD1, rotated]) (simp add: give)
qed

lemma trusted_collects:
  "collects (endorses ops s network_secret now) tc_pubkey (set (sy_peer_infos s)) []
     (fst (collect_trusted_credentials ops s network_secret now))"
  using fold_collects [OF add_admin_collects, of ops s network_secret now "sy_peer_infos s" "([], [])"]
  by (simp add: collect_trusted_credentials_def)

lemma trusted_iff:
  "kv_get (fst (collect_trusted_credentials ops s network_secret now)) k \<noteq> None
     \<longleftrightarrow> (\<exists>item \<in> set (sy_peer_infos s). \<exists>c. endorses ops s network_secret now item c \<and> tc_pubkey c = k)"
  using trusted_collects [of ops s network_secret now] by (simp add: collects_def)

lemma trusted_by:
  "kv_get (fst (collect_trusted_credentials ops s network_secret now)) k = Some c
     \<Longrightarrow> tc_pubkey c = k \<and> (\<exists>item \<in> set (sy_peer_infos s). endorses ops s network_secret now item c)"
  using trusted_collects [of ops s network_secret now] by (auto simp: collects_def)

section \<open>Who owns a credential\<close>

definition claimants ::
  "(peer_id, route_peer_info) kvs \<Rightarrow> (bytes, trusted_credential_pubkey) kvs \<Rightarrow> (peer_id \<Rightarrow> bool) \<Rightarrow> bytes \<Rightarrow> peer_id set" where
  "claimants infos all_trusted is_peer_active k =
     {p. \<exists>info. (p, info) \<in> set infos \<and> rp_noise_static_pubkey info = k \<and> k \<noteq> []
        \<and> (\<exists>c. kv_get all_trusted k = Some c \<and> \<not> credential_is_reusable c) \<and> is_peer_active p}"

lemma finite_claimants: "finite (claimants infos all_trusted is_peer_active k)"
  by (rule finite_subset [of _ "fst ` set infos"]) (force simp: claimants_def)+

lemma claimants_Cons:
  "claimants (item # infos) all_trusted active k = claimants [item] all_trusted active k \<union> claimants infos all_trusted active k"
  by (auto simp: claimants_def)

definition holds :: "('k, 'a::linorder list) kvs \<Rightarrow> ('k \<Rightarrow> 'a set) \<Rightarrow> bool" where
  "holds m f \<longleftrightarrow> kv_ok m \<and> (\<forall>k. finite (f k) \<and> kv_get m k = (if f k = {} then None else Some (sorted_list_of_set (f k))))"

lemma add_candidate_holds:
  assumes "holds m f"
  shows "holds (add_candidate all_trusted active item m) (\<lambda>k. f k \<union> claimants [item] all_trusted active k)"
proof -
  obtain p info where item: "item = (p, info)" by (cases item)
  let ?k = "rp_noise_static_pubkey info"
  show ?thesis
  proof (cases "p \<in> claimants [item] all_trusted active ?k")
    case True
    then have new: "claimants [item] all_trusted active k = (if k = ?k then {p} else {})" for k
      by (auto simp: claimants_def item)
    have put: "add_candidate all_trusted active item m = kv_put ?k (sorted_list_of_set (insert p (f ?k))) m"
    proof -
      have old: "set (case kv_get m ?k of Some ps \<Rightarrow> ps | None \<Rightarrow> []) = f ?k" using assms by (auto simp: holds_def)
      obtain c where "?k \<noteq> []" "kv_get all_trusted ?k = Some c" "\<not> credential_is_reusable c" "active p"
        using True by (auto simp: claimants_def item)
      then have "add_candidate all_trusted active item m = kv_put ?k (btree (p # (case kv_get m ?k of Some ps \<Rightarrow> ps | None \<Rightarrow> []))) m"
        by (simp add: item add_candidate_def Let_def)
      then show ?thesis by (simp only: btree_def list.set old)
    qed
    show ?thesis using assms unfolding put holds_def by (auto simp: new)
  next
    case False
    then have new: "claimants [item] all_trusted active k = {}" for k by (auto simp: claimants_def item)
    have "add_candidate all_trusted active item m = m"
      using False by (auto simp: claimants_def item add_candidate_def Let_def split: option.splits)
    then show ?thesis using assms by (simp add: new)
  qed
qed

lemma candidates_hold: "holds m f \<Longrightarrow> holds (fold (add_candidate all_trusted active) infos m) (\<lambda>k. f k \<union> claimants infos all_trusted active k)"
proof (induction infos arbitrary: m f)
  case Nil
  then show ?case by (simp add: claimants_def)
next
  case (Cons item infos)
  from Cons.IH [OF add_candidate_holds [OF Cons.prems]] show ?case
    by (simp add: claimants_Cons [of item infos] Un_assoc)
qed

lemma elect_owner_eq:
  assumes "ps \<noteq> []" "distinct ps"
  shows "elect_owner (key, ps) st = (kv_put key (hd ps) (fst st), btree (tl ps @ snd st))"
proof -
  obtain q qs where ps: "ps = q # qs" using assms(1) by (cases ps) auto
  then have "filter (\<lambda>p. p \<noteq> q) qs = qs" using assms(2) by (auto intro: filter_True)
  then show ?thesis by (simp add: elect_owner_def ps case_prod_unfold Let_def)
qed

lemma fold_elect:
  assumes "\<forall>(k, ps) \<in> set m. ps \<noteq> [] \<and> distinct ps"
  shows "fst (fold elect_owner m st) = fold (\<lambda>(k, ps). kv_put k (hd ps)) m (fst st)"
    and "set (snd (fold elect_owner m st)) = set (snd st) \<union> (\<Union>(k, ps) \<in> set m. set (tl ps))"
  using assms by (induction m arbitrary: st) (auto simp: elect_owner_eq btree_def)

lemma get_fold_puts:
  "kv_ok m \<Longrightarrow> kv_get (fold (\<lambda>(k, v). kv_put k (g v)) m m0) k = (case kv_get m k of Some v \<Rightarrow> Some (g v) | None \<Rightarrow> kv_get m0 k)"
proof (induction m arbitrary: m0)
  case Nil
  then show ?case by simp
next
  case (Cons e m)
  obtain a v where e: "e = (a, v)" by (cases e)
  have ok: "kv_ok m" "a \<notin> fst ` set m" using Cons.prems by (auto simp: kv_ok_def e)
  then have "kv_get m a = None" by (auto simp: kv_get_def map_of_eq_None_iff)
  moreover have "kv_get (e # m) k = (if k = a then Some v else kv_get m k)" by (simp add: e kv_get_def)
  ultimately show ?case using Cons.IH [OF ok(1)] by (auto simp: e split: option.splits)
qed

lemma kv_ok_mem: "kv_ok m \<Longrightarrow> (k, v) \<in> set m \<longleftrightarrow> kv_get m k = Some v"
  by (simp add: kv_ok_def kv_get_def)

lemma sorted_list_hd_tl:
  assumes "finite A" "A \<noteq> {}"
  shows "hd (sorted_list_of_set A) = Min A" "set (tl (sorted_list_of_set A)) = A - {Min A}"
proof -
  have "sorted_list_of_set A = Min A # sorted_list_of_set (A - {Min A})" using assms by (rule sorted_list_of_set_nonempty)
  then show "hd (sorted_list_of_set A) = Min A" "set (tl (sorted_list_of_set A)) = A - {Min A}" using assms by simp_all
qed

lemma owners_elected:
  fixes infos all_trusted active
  defines "C \<equiv> claimants infos all_trusted active"
  shows "kv_get (fst (collect_non_reusable_credential_owners infos all_trusted active)) k = (if C k = {} then None else Some (Min (C k)))"
    and "set (snd (collect_non_reusable_credential_owners infos all_trusted active)) = {p. \<exists>k. p \<in> C k \<and> p \<noteq> Min (C k)}"
    and "sorted_wrt (<) (snd (collect_non_reusable_credential_owners infos all_trusted active))"
proof -
  let ?m = "fold (add_candidate all_trusted active) infos []"
  have "holds [] (\<lambda>_. {})" by (simp add: holds_def kv_ok_def)
  from candidates_hold [OF this] have m: "holds ?m C" by (simp add: C_def)
  have fin: "finite (C k)" for k unfolding C_def by (rule finite_claimants)
  have rows: "kv_get ?m k = Some ps \<longleftrightarrow> C k \<noteq> {} \<and> ps = sorted_list_of_set (C k)" for k ps
    using m by (auto simp: holds_def)
  have ok: "kv_ok ?m" using m by (simp add: holds_def)
  have shape: "\<forall>(k, ps) \<in> set ?m. ps \<noteq> [] \<and> distinct ps" using fin by (auto simp: kv_ok_mem [OF ok] rows eq_commute [of "[]"])
  show "kv_get (fst (collect_non_reusable_credential_owners infos all_trusted active)) k = (if C k = {} then None else Some (Min (C k)))"
  proof (cases "C k = {}")
    case True
    with m have "kv_get ?m k = None" by (simp add: holds_def)
    with True show ?thesis
      unfolding collect_non_reusable_credential_owners_def fold_elect(1) [OF shape] get_fold_puts [OF ok] by simp
  next
    case False
    with m have "kv_get ?m k = Some (sorted_list_of_set (C k))" by (simp add: holds_def)
    with False fin show ?thesis
      unfolding collect_non_reusable_credential_owners_def fold_elect(1) [OF shape] get_fold_puts [OF ok]
      by (simp add: sorted_list_hd_tl)
  qed
  have "(\<Union>(k, ps) \<in> set ?m. set (tl ps)) = {p. \<exists>k. p \<in> C k \<and> p \<noteq> Min (C k)}"
  proof -
    have "(\<Union>(k, ps) \<in> set ?m. set (tl ps)) = {p. \<exists>k ps. (k, ps) \<in> set ?m \<and> p \<in> set (tl ps)}" by auto
    also have "\<dots> = {p. \<exists>k. C k \<noteq> {} \<and> p \<in> set (tl (sorted_list_of_set (C k)))}" by (simp add: kv_ok_mem [OF ok] rows)
    also have "\<dots> = {p. \<exists>k. p \<in> C k \<and> p \<noteq> Min (C k)}"
    proof (intro Collect_cong ex_cong1)
      fix p k
      show "C k \<noteq> {} \<and> p \<in> set (tl (sorted_list_of_set (C k))) \<longleftrightarrow> p \<in> C k \<and> p \<noteq> Min (C k)"
        by (cases "C k = {}") (simp_all add: sorted_list_hd_tl(2) [OF fin])
    qed
    finally show ?thesis .
  qed
  then show "set (snd (collect_non_reusable_credential_owners infos all_trusted active)) = {p. \<exists>k. p \<in> C k \<and> p \<noteq> Min (C k)}"
    unfolding collect_non_reusable_credential_owners_def fold_elect(2) [OF shape] by simp
  have "sorted_wrt (<) (snd (fold elect_owner m st))" if "sorted_wrt (<) (snd st)" for m and st :: "(bytes, peer_id) kvs \<times> peer_id list"
    using that by (induction m arbitrary: st)
      (auto simp: elect_owner_def btree_def case_prod_unfold Let_def strict_sorted_list_of_set split: list.splits)
  from this [of "([], [])"] show "sorted_wrt (<) (snd (collect_non_reusable_credential_owners infos all_trusted active))"
    by (simp add: collect_non_reusable_credential_owners_def)
qed

section \<open>Results of a refresh\<close>

lemma get_retain_keys: "kv_get (kv_retain (\<lambda>k _. P k) m) k = (if P k then kv_get m k else None)"
  by (induction m) (auto simp: kv_get_def kv_retain_def)

lemma get_fold_remove: "kv_get (fold kv_remove ps m) k = (if k \<in> set ps then None else kv_get m k)"
  by (induction ps arbitrary: m) auto

lemma owners_replaced:
  "kv_ok owners \<Longrightarrow> kv_get (sy_non_reusable_credential_owners (replace_non_reusable_credential_owners owners s)) k = kv_get owners k"
  using get_fold_puts [of owners id "kv_retain (\<lambda>key _. kv_get owners key \<noteq> None) (sy_non_reusable_credential_owners s)" k]
  by (simp add: replace_non_reusable_credential_owners_def get_retain_keys split: option.splits)

lemma keys_put:
  fixes m :: "('a, 'b) kvs"
  shows "fst ` set (kv_put k v m) = insert k (fst ` set m)"
proof -
  have keys: "fst ` set n = {k. kv_get n k \<noteq> None}" for n :: "('a, 'b) kvs"
    by (auto simp: kv_get_def map_of_eq_None_iff simp del: not_None_eq)
  show ?thesis unfolding keys [of m] keys [of "kv_put k v m"] by auto
qed

lemma keys_fold_put: "fst ` set (fold (\<lambda>p. kv_put p ()) ps m) = fst ` set m \<union> set ps"
  by (induction ps arbitrary: m) (simp_all add: keys_put)

lemma suppressed_replaced:
  assumes "set ps = A" "replace_suppressed_non_reusable_credential_peers ps s = (s', changed)"
  shows "fst ` set (sy_suppressed_non_reusable_credential_peers s') = A"
proof (cases "btree (map fst (sy_suppressed_non_reusable_credential_peers s)) = ps")
  case True
  then have "set (btree (map fst (sy_suppressed_non_reusable_credential_peers s))) = set ps" by simp
  then show ?thesis using assms True by (simp add: replace_suppressed_non_reusable_credential_peers_def btree_def)
next
  case False
  let ?kept = "kv_retain (\<lambda>p _. p \<in> set ps) (sy_suppressed_non_reusable_credential_peers s)"
  have "sy_suppressed_non_reusable_credential_peers s' = fold (\<lambda>p. kv_put p ()) ps ?kept"
    using assms(2) False by (auto simp: replace_suppressed_non_reusable_credential_peers_def sync_inc_version_def)
  then have "fst ` set (sy_suppressed_non_reusable_credential_peers s') = fst ` set ?kept \<union> set ps" by (simp only: keys_fold_put)
  moreover have "fst ` set ?kept \<subseteq> set ps" by (auto simp: kv_retain_def)
  ultimately show ?thesis using assms(1) by blast
qed

text \<open>What the steps of a refresh leave alone.\<close>

definition tables :: "synced_route_info \<Rightarrow> (peer_id, route_peer_info) kvs \<times> (peer_id, route_conn_info) kvs
    \<times> (peer_id, bytes) kvs \<times> (foreign_network_key, foreign_network_entry) kvs" where
  "tables s = (sy_peer_infos s, sy_conn_map s, sy_raw_peer_infos s, sy_foreign_network s)"

definition credentials :: "synced_route_info \<Rightarrow> (bytes, trusted_credential_pubkey) kvs \<times> (bytes, peer_id) kvs \<times> (peer_id, unit) kvs" where
  "credentials s = (sy_trusted_credential_pubkeys s, sy_non_reusable_credential_owners s, sy_suppressed_non_reusable_credential_peers s)"

lemma tables_keep:
  "tables (set_peer_groups p g s) = tables s" "tables (sync_inc_version s) = tables s"
  "tables (fst (replace_trusted_credential_pubkeys t s)) = tables s"
  "tables (replace_non_reusable_credential_owners owners s) = tables s"
  "tables (fst (replace_suppressed_non_reusable_credential_peers ps s)) = tables s"
  by (auto simp: tables_def set_peer_groups_def sync_inc_version_def replace_trusted_credential_pubkeys_def
      replace_non_reusable_credential_owners_def replace_suppressed_non_reusable_credential_peers_def)

lemma credentials_keep: "credentials (set_peer_groups p g s) = credentials s" "credentials (remove_peers ps s) = credentials s"
  by (auto simp: credentials_def set_peer_groups_def remove_peers_def sync_inc_version_def)

lemma groups_step_keep:
  "tables (update_credential_groups infos t s) = tables s" "credentials (update_credential_groups infos t s) = credentials s"
proof -
  have one: "tables (grant_credential_groups t item s) = tables s" "credentials (grant_credential_groups t item s) = credentials s" for item s
    by (auto simp: grant_credential_groups_def Let_def tables_keep credentials_keep split: option.splits)
  show "tables (update_credential_groups infos t s) = tables s" "credentials (update_credential_groups infos t s) = credentials s"
    unfolding update_credential_groups_def by (induction infos arbitrary: s) (simp_all add: one)
qed

lemma kv_ok_elected: "kv_ok (fst (collect_non_reusable_credential_owners infos all_trusted active))"
proof -
  have "kv_ok (fst (fold elect_owner m st))" if "kv_ok (fst st)" for m st
    using that by (induction m arbitrary: st) (simp_all add: elect_owner_def case_prod_unfold Let_def kvm.ok_put split: list.split)
  from this [of "([], [])"] show ?thesis by (simp add: collect_non_reusable_credential_owners_def kv_ok_def)
qed

lemma set_unprotected: "set (unprotected protected ps) = {p \<in> set ps. protected \<noteq> Some p}"
  by (auto simp: unprotected_def split: option.splits)

text \<open>The intermediate state of a refresh, before the peers that lost their credential are removed.\<close>

lemma refresh_steps:
  assumes "verify_and_update_credential_trusts_protecting ops now network_secret active protected s = (s', r)"
  defines "T \<equiv> fst (collect_trusted_credentials ops s network_secret (int (now div secs 1)))"
  shows "sy_trusted_credential_pubkeys s' = T"
    "kv_get (sy_non_reusable_credential_owners s') k = kv_get (fst (collect_non_reusable_credential_owners (sy_peer_infos s) T active)) k"
    "fst ` set (sy_suppressed_non_reusable_credential_peers s') =
       {p \<in> set (snd (collect_non_reusable_credential_owners (sy_peer_infos s) T active)). protected \<noteq> Some p}"
    "\<exists>m. s' = (if tr_untrusted r \<noteq> [] then remove_peers (tr_untrusted r) m else m) \<and> tables m = tables s"
    "tr_untrusted r = unprotected protected
       (collect_revoked_credential_peers (sy_peer_infos s) (map fst (sy_trusted_credential_pubkeys s)) T)"
proof -
  define E where "E = collect_non_reusable_credential_owners (sy_peer_infos s) T active"
  define s1 where "s1 = fst (replace_trusted_credential_pubkeys T s)"
  define s2 where "s2 = replace_non_reusable_credential_owners (fst E) s1"
  define s3 where "s3 = fst (replace_suppressed_non_reusable_credential_peers (unprotected protected (snd E)) s2)"
  define m where "m = update_credential_groups (sy_peer_infos s) T s3"
  have un: "tr_untrusted r = unprotected protected
       (collect_revoked_credential_peers (sy_peer_infos s) (map fst (sy_trusted_credential_pubkeys s)) T)"
    and s': "s' = (if tr_untrusted r \<noteq> [] then remove_peers (tr_untrusted r) m else m)"
    using assms(1) unfolding verify_and_update_credential_trusts_protecting_def m_def s3_def s2_def s1_def E_def T_def
    by (auto simp: Let_def case_prod_unfold replace_trusted_credential_pubkeys_def)
  have t: "tables m = tables s" by (simp add: m_def s3_def s2_def s1_def groups_step_keep tables_keep)
  have c: "credentials m = credentials s3" by (simp add: m_def groups_step_keep)
  have "credentials s3 = (T, sy_non_reusable_credential_owners s2, sy_suppressed_non_reusable_credential_peers s3)"
    by (auto simp: credentials_def s3_def s2_def s1_def replace_suppressed_non_reusable_credential_peers_def
        replace_non_reusable_credential_owners_def replace_trusted_credential_pubkeys_def sync_inc_version_def)
  with c have parts: "sy_trusted_credential_pubkeys m = T" "sy_non_reusable_credential_owners m = sy_non_reusable_credential_owners s2"
    "sy_suppressed_non_reusable_credential_peers m = sy_suppressed_non_reusable_credential_peers s3" by (simp_all add: credentials_def)
  have owners: "kv_get (sy_non_reusable_credential_owners m) k = kv_get (fst E) k" for k
    unfolding parts s2_def by (rule owners_replaced) (simp add: E_def kv_ok_elected)
  have sup: "fst ` set (sy_suppressed_non_reusable_credential_peers m) = {p \<in> set (snd E). protected \<noteq> Some p}"
    unfolding parts s3_def by (rule suppressed_replaced [OF set_unprotected surjective_pairing])
  have "credentials s' = credentials m" unfolding s' by (simp add: credentials_keep)
  then show "sy_trusted_credential_pubkeys s' = T"
    "kv_get (sy_non_reusable_credential_owners s') k = kv_get (fst (collect_non_reusable_credential_owners (sy_peer_infos s) T active)) k"
    "fst ` set (sy_suppressed_non_reusable_credential_peers s') =
       {p \<in> set (snd (collect_non_reusable_credential_owners (sy_peer_infos s) T active)). protected \<noteq> Some p}"
    using parts(1) owners sup by (simp_all add: credentials_def E_def)
  show "\<exists>m. s' = (if tr_untrusted r \<noteq> [] then remove_peers (tr_untrusted r) m else m) \<and> tables m = tables s" using s' t by blast
  show "tr_untrusted r = unprotected protected
       (collect_revoked_credential_peers (sy_peer_infos s) (map fst (sy_trusted_credential_pubkeys s)) T)" by (rule un)
qed

text \<open>C12: After a refresh a key is trusted exactly when some administrator's information holds a proof of it that is not
  expired and, where this peer knows the network secret, whose HMAC over the credential as it was received is right.\<close>

theorem trusted_credentials:
  assumes "verify_and_update_credential_trusts_protecting ops now network_secret active protected s = (s', r)"
  shows "(kv_get (sy_trusted_credential_pubkeys s') k \<noteq> None \<longleftrightarrow>
           (\<exists>item \<in> set (sy_peer_infos s). \<exists>c. endorses ops s network_secret (int (now div secs 1)) item c \<and> tc_pubkey c = k))
    \<and> (\<forall>c. kv_get (sy_trusted_credential_pubkeys s') k = Some c \<longrightarrow>
           tc_pubkey c = k \<and> (\<exists>item \<in> set (sy_peer_infos s). endorses ops s network_secret (int (now div secs 1)) item c))"
  unfolding refresh_steps(1) [OF assms] using trusted_iff trusted_by by simp

text \<open>C13: A refresh gives each credential that may be used once to the active peer with the smallest identifier among those
  that present its key, and keeps all the others of them away from forwarding, the protected peer apart.\<close>

theorem credential_owners:
  assumes "verify_and_update_credential_trusts_protecting ops now network_secret active protected s = (s', r)"
  defines "C \<equiv> claimants (sy_peer_infos s) (sy_trusted_credential_pubkeys s') active"
  shows "(\<forall>k. kv_get (sy_non_reusable_credential_owners s') k = (if C k = {} then None else Some (Min (C k))))
    \<and> fst ` set (sy_suppressed_non_reusable_credential_peers s') = {p. (\<exists>k. p \<in> C k \<and> p \<noteq> Min (C k)) \<and> protected \<noteq> Some p}"
proof -
  let ?T = "fst (collect_trusted_credentials ops s network_secret (int (now div secs 1)))"
  let ?E = "collect_non_reusable_credential_owners (sy_peer_infos s) ?T active"
  have C: "C = claimants (sy_peer_infos s) ?T active" by (simp add: C_def refresh_steps(1) [OF assms(1)])
  show ?thesis unfolding refresh_steps(2,3) [OF assms(1)] C owners_elected by simp
qed

text \<open>C14: A refresh removes exactly the peers whose key was trusted before and is not any more, the protected peer and
  placeholders apart, with everything stored about them; all other entries stay.\<close>

theorem revoked_peers:
  assumes "verify_and_update_credential_trusts_protecting ops now network_secret active protected s = (s', r)"
  defines "R \<equiv> {p. protected \<noteq> Some p \<and> (\<exists>info. (p, info) \<in> set (sy_peer_infos s) \<and> rp_version info \<noteq> 0
      \<and> rp_noise_static_pubkey info \<noteq> []
      \<and> kv_get (sy_trusted_credential_pubkeys s) (rp_noise_static_pubkey info) \<noteq> None
      \<and> kv_get (sy_trusted_credential_pubkeys s') (rp_noise_static_pubkey info) = None)}"
  shows "set (tr_untrusted r) = R
    \<and> kv_get (sy_peer_infos s') p = (if p \<in> R then None else kv_get (sy_peer_infos s) p)
    \<and> kv_get (sy_conn_map s') p = (if p \<in> R then None else kv_get (sy_conn_map s) p)
    \<and> kv_get (sy_raw_peer_infos s') p = (if p \<in> R then None else kv_get (sy_raw_peer_infos s) p)
    \<and> kv_get (sy_foreign_network s') key = (if fk_peer_id key \<in> R then None else kv_get (sy_foreign_network s) key)
    \<and> (p \<in> R \<longrightarrow> kv_get (sy_group_trust_map s') p = None \<and> kv_get (sy_group_trust_map_cache s') p = None)"
proof -
  let ?T = "fst (collect_trusted_credentials ops s network_secret (int (now div secs 1)))"
  obtain m where m: "s' = (if tr_untrusted r \<noteq> [] then remove_peers (tr_untrusted r) m else m)" "tables m = tables s"
    using refresh_steps(4) [OF assms(1)] by blast
  have keys: "k \<in> fst ` set n \<longleftrightarrow> kv_get n k \<noteq> None" for k and n :: "(bytes, trusted_credential_pubkey) kvs"
    by (auto simp: kv_get_def map_of_eq_None_iff simp del: not_None_eq)
  have R: "set (tr_untrusted r) = R"
    unfolding refresh_steps(5) [OF assms(1)] set_unprotected R_def refresh_steps(1) [OF assms(1)] collect_revoked_credential_peers_def btree_def
    by (rule set_eqI) (force simp: keys simp del: not_None_eq One_nat_def)
  have t: "sy_peer_infos m = sy_peer_infos s" "sy_conn_map m = sy_conn_map s" "sy_raw_peer_infos m = sy_raw_peer_infos s"
    "sy_foreign_network m = sy_foreign_network s" using m(2) by (simp_all add: tables_def)
  show ?thesis
  proof (cases "tr_untrusted r = []")
    case True
    with R have "R = {}" by simp
    with R m(1) True t show ?thesis by simp
  next
    case False
    then show ?thesis using R m(1) t
      by (simp add: remove_peers_def sync_inc_version_def get_fold_remove get_retain_keys)
  qed
qed

section \<open>Groups\<close>

definition groups_ok :: "synced_route_info \<Rightarrow> bool" where
  "groups_ok s \<longleftrightarrow> (\<forall>p. kv_get (sy_group_trust_map_cache s) p = map_option (map fst) (kv_get (sy_group_trust_map s) p)
     \<and> kv_get (sy_group_trust_map s) p \<noteq> Some [])"

definition group_maps :: "synced_route_info \<Rightarrow> (peer_id, (string, bytes) kvs) kvs \<times> (peer_id, string list) kvs" where
  "group_maps s = (sy_group_trust_map s, sy_group_trust_map_cache s)"

lemma groups_ok_cong: "group_maps s = group_maps s' \<Longrightarrow> groups_ok s = groups_ok s'"
  by (simp add: groups_ok_def group_maps_def)

lemma groups_ok_set: "groups_ok s \<Longrightarrow> groups_ok (set_peer_groups p g s)"
  by (auto simp: groups_ok_def set_peer_groups_def)

lemma groups_ok_remove: "groups_ok s \<Longrightarrow> groups_ok (remove_peers ps s)"
  by (auto simp: groups_ok_def remove_peers_def sync_inc_version_def get_fold_remove)

lemma group_maps_keep:
  "group_maps (sync_inc_version s) = group_maps s" "group_maps (fst (replace_trusted_credential_pubkeys t s)) = group_maps s"
  "group_maps (replace_non_reusable_credential_owners owners s) = group_maps s"
  "group_maps (fst (replace_suppressed_non_reusable_credential_peers ps s)) = group_maps s"
  by (auto simp: group_maps_def sync_inc_version_def replace_trusted_credential_pubkeys_def
      replace_non_reusable_credential_owners_def replace_suppressed_non_reusable_credential_peers_def)

lemma groups_ok_fold: "(\<And>x s. groups_ok s \<Longrightarrow> groups_ok (f x s)) \<Longrightarrow> groups_ok s \<Longrightarrow> groups_ok (fold f xs s)"
  by (induction xs arbitrary: s) auto

lemma groups_ok_update: "groups_ok s \<Longrightarrow> groups_ok (update_peer_groups p g s)"
  by (auto simp: update_peer_groups_def groups_ok_set split: option.splits)

lemma groups_ok_verify: "groups_ok s \<Longrightarrow> groups_ok (verify_and_update_group_trusts ops infos declarations trust_admin s)"
  unfolding verify_and_update_group_trusts_def by (rule groups_ok_fold) (simp add: groups_ok_update)+

lemma groups_ok_credentials: "groups_ok s \<Longrightarrow> groups_ok (update_credential_groups infos t s)"
  unfolding update_credential_groups_def
  by (rule groups_ok_fold) (auto simp: grant_credential_groups_def Let_def groups_ok_set split: option.splits)

lemma groups_ok_refresh:
  assumes "groups_ok s"
  shows "groups_ok (fst (verify_and_update_credential_trusts_protecting ops now network_secret active protected s))"
proof -
  have keep: "groups_ok s'" if "group_maps s' = group_maps s" for s' using assms groups_ok_cong [OF that] by simp
  show ?thesis unfolding verify_and_update_credential_trusts_protecting_def
    by (simp only: Let_def case_prod_unfold fst_conv split: if_split)
      (intro conjI impI groups_ok_remove groups_ok_credentials; rule keep; simp only: group_maps_keep)
qed

lemma get_or_default: "kv_get (fold or_default gs m) g \<noteq> None \<longleftrightarrow> kv_get m g \<noteq> None \<or> g \<in> set gs"
  by (induction gs arbitrary: m) (auto simp: or_default_def)

lemma verify_groups_iff:
  "kv_get (verify_groups ops declared trust_admin info) g \<noteq> None \<longleftrightarrow>
     (\<exists>e \<in> set (rp_groups info). pg_group_name e = g
        \<and> ((\<exists>secret. kv_get declared g = Some secret \<and> verify_group ops e secret (rp_peer_id info)) \<or> trust_admin \<and> is_admin_peer info))"
proof -
  let ?step = "\<lambda>e m. case kv_get declared (pg_group_name e) of
      Some secret \<Rightarrow> if verify_group ops e secret (rp_peer_id info) then kv_put (pg_group_name e) (pg_group_proof e) m else m
    | None \<Rightarrow> m"
  let ?good = "\<lambda>e. \<exists>secret. kv_get declared (pg_group_name e) = Some secret \<and> verify_group ops e secret (rp_peer_id info)"
  have "kv_get (fold ?step es m) g \<noteq> None \<longleftrightarrow> kv_get m g \<noteq> None \<or> (\<exists>e \<in> set es. pg_group_name e = g \<and> ?good e)" for es m
    by (induction es arbitrary: m) (auto split: option.splits)
  from this [of "rp_groups info" "[]"]
  have proved: "kv_get (fold ?step (rp_groups info) []) g \<noteq> None \<longleftrightarrow> (\<exists>e \<in> set (rp_groups info). pg_group_name e = g \<and> ?good e)" by simp
  show ?thesis
  proof (cases "trust_admin \<and> is_admin_peer info")
    case True
    then have "verify_groups ops declared trust_admin info = fold or_default (map pg_group_name (rp_groups info)) (fold ?step (rp_groups info) [])"
      by (simp add: verify_groups_def Let_def)
    with True proved show ?thesis by (auto simp: get_or_default simp del: not_None_eq)
  next
    case False
    then have "verify_groups ops declared trust_admin info = fold ?step (rp_groups info) []" by (auto simp: verify_groups_def Let_def)
    with False proved show ?thesis by (auto simp del: not_None_eq)
  qed
qed

lemma update_groups_get:
  "kv_get (sy_group_trust_map (update_peer_groups p g s)) q =
     (if q = p then if g = [] then None else Some g else kv_get (sy_group_trust_map s) q)"
  by (auto simp: update_peer_groups_def set_peer_groups_def split: option.splits)

lemma verified_groups_get:
  assumes "distinct (map rp_peer_id infos)" "info \<in> set infos"
  shows "kv_get (sy_group_trust_map (verify_and_update_group_trusts ops infos declarations trust_admin s)) (rp_peer_id info) =
    (let g = verify_groups ops (declared_groups declarations) trust_admin info in if g = [] then None else Some g)"
proof -
  let ?f = "\<lambda>info. update_peer_groups (rp_peer_id info) (verify_groups ops (declared_groups declarations) trust_admin info)"
  have other: "p \<notin> rp_peer_id ` set infos \<Longrightarrow> kv_get (sy_group_trust_map (fold ?f infos s)) p = kv_get (sy_group_trust_map s) p" for p infos s
    by (induction infos arbitrary: s) (auto simp: update_groups_get)
  show ?thesis using assms unfolding verify_and_update_group_trusts_def
  proof (induction infos arbitrary: s)
    case (Cons i infos)
    show ?case
    proof (cases "info = i")
      case True
      with Cons.prems have "rp_peer_id info \<notin> rp_peer_id ` set infos" by auto
      from other [OF this, of "?f i s"] True show ?thesis by (simp add: update_groups_get Let_def)
    next
      case False
      with Cons.prems Cons.IH [of "?f i s"] show ?thesis by simp
    qed
  qed simp
qed


section \<open>Samples\<close>

definition sample_trust :: trust_ops where
  "sample_trust = \<lparr>to_hmac = (\<lambda>key data. key @ data), to_encode_credential = tc_pubkey, to_wire = protobuf\<rparr>"

definition sample_credential :: trusted_credential_pubkey where
  "sample_credential = \<lparr>tc_pubkey = [9], tc_groups = [''guest''], tc_allow_relay = False, tc_expiry_unix = 100,
     tc_allowed_proxy_cidrs = [], tc_reusable = Some False\<rparr>"

definition sample_member :: "peer_id \<Rightarrow> bytes \<Rightarrow> trusted_credential_proof list \<Rightarrow> bool \<Rightarrow> peer_id \<times> route_peer_info" where
  "sample_member p key proofs guest =
     (p, mark_credential_peer ((new_route_peer_info_with_version ''2.4'')\<lparr>rp_peer_id := p, rp_version := 1,
        rp_noise_static_pubkey := key, rp_trusted_credential_pubkeys := proofs\<rparr>) guest)"

definition sample_store :: "trusted_credential_proof list \<Rightarrow> synced_route_info" where
  "sample_store proofs = (synced_new ''2.4'')\<lparr>
     sy_peer_infos := [sample_member 1 [1] proofs False, sample_member 5 [9] [] True, sample_member 3 [9] [] True],
     sy_trusted_credential_pubkeys := [([9], sample_credential)]\<rparr>"

definition sample_refresh :: "trusted_credential_proof list \<Rightarrow> synced_route_info \<times> trust_result" where
  "sample_refresh proofs =
     verify_and_update_credential_trusts_protecting sample_trust (secs 50) (Some ''secret'') (\<lambda>_. True) (Some 1) (sample_store proofs)"

lemma sample_refresh_eq:
  "verify_and_update_credential_trusts_protecting sample_trust (secs 50) (Some ''secret'') (\<lambda>_. True) (Some 1) (sample_store proofs)
     = (fst (sample_refresh proofs), snd (sample_refresh proofs))"
  by (simp add: sample_refresh_def)

lemma sample_now: "secs 50 div secs 1 = 50"
  by (simp add: secs_def)

lemmas sample_defs = collect_trusted_credentials_def add_admin_def add_credential_def sample_store_def sample_member_def
  synced_new_def mark_credential_peer_def flag_default_def is_admin_peer_def is_credential_peer_info_def new_route_peer_info_with_version_def
  credential_proof_is_valid_def verify_credential_hmac_def verify_credential_hmac_with_bytes_def new_signed_def
  generate_credential_hmac_def generate_credential_hmac_from_bytes_def sample_trust_def sample_credential_def Let_def kv_put_def kv_get_def

lemma sample_trusted:
  "collect_trusted_credentials sample_trust (sample_store [new_signed sample_trust sample_credential ''secret'']) (Some ''secret'') (int (secs 50 div secs 1))
     = ([([9], sample_credential)], [([1], \<lparr>tk_source = OspfNode, tk_expiry_unix = None\<rparr>),
        ([9], \<lparr>tk_source = OspfCredential, tk_expiry_unix = Some 100\<rparr>)])"
  unfolding sample_now by (simp add: sample_defs)

lemma sample_untrusted: "fst (collect_trusted_credentials sample_trust (sample_store []) (Some ''secret'') (int (secs 50 div secs 1))) = []"
  unfolding sample_now by (simp add: sample_defs)

lemma sample_claimants: "claimants (sy_peer_infos (sample_store proofs)) [([9], sample_credential)] (\<lambda>_. True) [9] = {3, 5}"
proof -
  have member: "fst (sample_member p key proofs g) = p" "rp_noise_static_pubkey (snd (sample_member p key proofs g)) = key" for p key proofs g
    by (simp_all add: sample_member_def mark_credential_peer_def)
  have "claimants infos [([9], sample_credential)] (\<lambda>_. True) [9] =
      fst ` set (filter (\<lambda>item. rp_noise_static_pubkey (snd item) = [9]) infos)" for infos
    by (force simp: claimants_def credential_is_reusable_def sample_credential_def kv_get_def)
  moreover have "filter (\<lambda>item. rp_noise_static_pubkey (snd item) = [9]) (sy_peer_infos (sample_store proofs)) =
      [sample_member 5 [9] [] True, sample_member 3 [9] [] True]" by (simp add: sample_store_def member)
  ultimately show ?thesis by (simp only: list.set image_insert image_empty member insert_commute)
qed

theorem trusted_credentials_witness:
  "kv_get (sy_trusted_credential_pubkeys (fst (sample_refresh [new_signed sample_trust sample_credential ''secret'']))) [9] \<noteq> None
   \<longleftrightarrow> (\<exists>item \<in> set (sy_peer_infos (sample_store [new_signed sample_trust sample_credential ''secret''])).
        \<exists>c. endorses sample_trust (sample_store [new_signed sample_trust sample_credential ''secret'']) (Some ''secret'')
          (int (secs 50 div secs 1)) item c \<and> tc_pubkey c = [9])"
  using trusted_credentials [OF sample_refresh_eq, of "[new_signed sample_trust sample_credential ''secret'']" "[9]"] by (rule conjunct1)

theorem credential_owners_witness:
  "kv_get (sy_non_reusable_credential_owners (fst (sample_refresh [new_signed sample_trust sample_credential ''secret'']))) [9] = Some 3"
proof -
  have t: "sy_trusted_credential_pubkeys (fst (sample_refresh [new_signed sample_trust sample_credential ''secret''])) = [([9], sample_credential)]"
    by (simp add: refresh_steps(1) [OF sample_refresh_eq] sample_trusted del: One_nat_def)
  have "Min {3, 5 :: peer_id} = 3" by simp
  with credential_owners [OF sample_refresh_eq, of "[new_signed sample_trust sample_credential ''secret'']"]
  show ?thesis unfolding t by (simp add: sample_claimants)
qed

theorem revoked_peers_witness:
  "set (tr_untrusted (snd (sample_refresh []))) = {3, 5}
   \<and> kv_get (sy_peer_infos (fst (sample_refresh []))) 5 =
      (if 5 \<in> set (tr_untrusted (snd (sample_refresh []))) then None else kv_get (sy_peer_infos (sample_store [])) 5)"
proof -
  have "set (tr_untrusted (snd (sample_refresh []))) = {3, 5}"
    unfolding refresh_steps(5) [OF sample_refresh_eq] set_unprotected sample_untrusted
    by (auto simp: collect_revoked_credential_peers_def btree_def sample_defs)
  moreover note rp = revoked_peers [OF sample_refresh_eq, of "[]" 5]
  have "kv_get (sy_peer_infos (fst (sample_refresh []))) 5 =
      (if 5 \<in> set (tr_untrusted (snd (sample_refresh []))) then None else kv_get (sy_peer_infos (sample_store [])) 5)"
    unfolding rp [THEN conjunct1] by (rule rp [THEN conjunct2, THEN conjunct1])
  ultimately show ?thesis by blast
qed

definition sample_proved :: route_peer_info where
  "sample_proved = (new_route_peer_info_with_version ''2.4'')\<lparr>rp_peer_id := 7, rp_version := 1,
     rp_groups := [generate_with_proof sample_trust ''ops'' ''pw'' 7, \<lparr>pg_group_name = ''root'', pg_group_proof = [0]\<rparr>]\<rparr>"


end
