(* ===== verification/RouteSession.thy ===== *)
theory RouteSession
  imports RouteTrust
begin

text \<open>
  The session in which a peer synchronises its route information with one other peer (\<^verbatim>\<open>SyncRouteSession\<close> and the
  \<^verbatim>\<open>build_*\<close> functions of \<^verbatim>\<open>peers/route/peer_ospf_route.rs\<close>): what the other side is known to have, which generation of the
  other side is accepted, and which entries of the store the next request carries.

    \<^item> \<open>at\<close> is a reading of the monotonic clock (\<^verbatim>\<open>Instant\<close>), \<open>now\<close> one of the system clock, both in nanoseconds.
    \<^item> \<open>reach\<close> stands for \<^verbatim>\<open>route_table.topology_peer_reachable\<close>.
    \<^item> A \<^verbatim>\<open>BTreeMap\<close> is an association list that is walked in the order of its keys.
\<close>

section \<open>State\<close>

record version_and_touch_time =
  vt_version :: version
  vt_touch_time :: nat

definition vt_default :: "nat \<Rightarrow> version_and_touch_time" where
  "vt_default at = \<lparr>vt_version = 0, vt_touch_time = at\<rparr>"

definition vt_is_expired :: "nat \<Rightarrow> version_and_touch_time \<Rightarrow> bool" where
  "vt_is_expired at v \<longleftrightarrow> secs 60 < at - vt_touch_time v"

definition vt_set_if_larger :: "version \<Rightarrow> version_and_touch_time \<Rightarrow> version_and_touch_time" where
  "vt_set_if_larger version v = v\<lparr>vt_version := fst (set_if_larger version (vt_version v))\<rparr>"

definition INITIATOR_SESSION_LIVENESS_TIMEOUT :: nat where "INITIATOR_SESSION_LIVENESS_TIMEOUT = secs 45"

record sync_route_session =
  ss_my_peer_id :: peer_id
  ss_dst_peer_id :: peer_id
  ss_saved_peer_info :: "(peer_id, version_and_touch_time) kvs"
  ss_saved_conn_info :: "(peer_id, version_and_touch_time) kvs"
  ss_saved_foreign :: "(foreign_network_key, version_and_touch_time) kvs"
  ss_pending_peer_info :: "(peer_id, version) kvs"
  ss_pending_conn_info :: "(peer_id, version) kvs"
  ss_missing_peer_ids :: "peer_id list"
  ss_last_sync_succ :: "nat option"
  ss_last_contact :: nat
  ss_my_session_id :: u64
  ss_dst_session_id :: u64
  ss_we_are_initiator :: bool
  ss_dst_is_initiator :: bool
  ss_state_revision :: u64
  ss_need_sync_initiator_info :: bool
  ss_rpc_tx_count :: u32
  ss_rpc_rx_count :: u32

definition route_session_new :: "nat \<Rightarrow> u64 \<Rightarrow> peer_id \<Rightarrow> peer_id \<Rightarrow> sync_route_session" where
  "route_session_new at my_session_id me dst =
     \<lparr>ss_my_peer_id = me, ss_dst_peer_id = dst, ss_saved_peer_info = [], ss_saved_conn_info = [], ss_saved_foreign = [],
      ss_pending_peer_info = [], ss_pending_conn_info = [], ss_missing_peer_ids = [], ss_last_sync_succ = None,
      ss_last_contact = at, ss_my_session_id = my_session_id, ss_dst_session_id = 0, ss_we_are_initiator = False,
      ss_dst_is_initiator = False, ss_state_revision = 0, ss_need_sync_initiator_info = False, ss_rpc_tx_count = 0,
      ss_rpc_rx_count = 0\<rparr>"

section \<open>What the other side has\<close>

definition touch_saved :: "nat \<Rightarrow> 'k \<Rightarrow> ('k, version_and_touch_time) kvs \<Rightarrow> ('k, version_and_touch_time) kvs" where
  "touch_saved at k m = (case kv_get m k of Some v \<Rightarrow> kv_put k (v\<lparr>vt_touch_time := at\<rparr>) m | None \<Rightarrow> m)"

definition saved_at_least :: "('k, version_and_touch_time) kvs \<Rightarrow> 'k \<Rightarrow> version \<Rightarrow> bool" where
  "saved_at_least m k version = (case kv_get m k of Some v \<Rightarrow> version \<le> vt_version v | None \<Rightarrow> False)"

definition check_saved_peer_info_update_to_date ::
  "nat \<Rightarrow> peer_id \<Rightarrow> version \<Rightarrow> sync_route_session \<Rightarrow> bool \<times> sync_route_session" where
  "check_saved_peer_info_update_to_date at p version ss =
     (if version = 0 \<or> p = ss_dst_peer_id ss then (True, ss)
      else (saved_at_least (ss_saved_peer_info ss) p version, ss\<lparr>ss_saved_peer_info := touch_saved at p (ss_saved_peer_info ss)\<rparr>))"

definition check_saved_conn_version_update_to_date ::
  "nat \<Rightarrow> peer_id \<Rightarrow> version \<Rightarrow> sync_route_session \<Rightarrow> bool \<times> sync_route_session" where
  "check_saved_conn_version_update_to_date at p version ss =
     (if version = 0 \<or> p = ss_dst_peer_id ss then (True, ss)
      else (saved_at_least (ss_saved_conn_info ss) p version, ss\<lparr>ss_saved_conn_info := touch_saved at p (ss_saved_conn_info ss)\<rparr>))"

definition check_saved_foreign_network_version_update_to_date ::
  "nat \<Rightarrow> foreign_network_key \<Rightarrow> version \<Rightarrow> sync_route_session \<Rightarrow> bool \<times> sync_route_session" where
  "check_saved_foreign_network_version_update_to_date at key version ss =
     (if version = 0 \<or> fk_peer_id key = ss_dst_peer_id ss then (True, ss)
      else (saved_at_least (ss_saved_foreign ss) key version, ss\<lparr>ss_saved_foreign := touch_saved at key (ss_saved_foreign ss)\<rparr>))"

definition save_version :: "nat \<Rightarrow> 'k \<Rightarrow> version \<Rightarrow> ('k, version_and_touch_time) kvs \<Rightarrow> ('k, version_and_touch_time) kvs" where
  "save_version at k version m =
     kv_put k (vt_set_if_larger version (case kv_get m k of Some v \<Rightarrow> v | None \<Rightarrow> vt_default at)) m"

definition update_dst_saved_peer_info_version ::
  "nat \<Rightarrow> route_peer_info list \<Rightarrow> peer_id \<Rightarrow> sync_route_session \<Rightarrow> sync_route_session" where
  "update_dst_saved_peer_info_version at infos dst ss =
     ss\<lparr>ss_saved_peer_info :=
        fold (\<lambda>info m. if rp_peer_id info = dst then m else save_version at (rp_peer_id info) (rp_version info) m) infos (ss_saved_peer_info ss)\<rparr>"

definition save_conn_row :: "nat \<Rightarrow> peer_id \<Rightarrow> peer_id_version \<Rightarrow> (peer_id, version_and_touch_time) kvs \<Rightarrow> (peer_id, version_and_touch_time) kvs" where
  "save_conn_row at dst pv m = (if pv_peer_id pv = dst then m else save_version at (pv_peer_id pv) (pv_version pv) m)"

definition update_dst_saved_conn_bitmap_version :: "nat \<Rightarrow> route_conn_bitmap \<Rightarrow> peer_id \<Rightarrow> sync_route_session \<Rightarrow> sync_route_session" where
  "update_dst_saved_conn_bitmap_version at b dst ss =
     ss\<lparr>ss_saved_conn_info := fold (save_conn_row at dst) (cb_peer_ids b) (ss_saved_conn_info ss)\<rparr>"

definition update_dst_saved_conn_peer_list_version :: "nat \<Rightarrow> route_conn_peer_list \<Rightarrow> peer_id \<Rightarrow> sync_route_session \<Rightarrow> sync_route_session" where
  "update_dst_saved_conn_peer_list_version at rows dst ss =
     ss\<lparr>ss_saved_conn_info :=
        fold (\<lambda>row m. case pc_peer_id row of None \<Rightarrow> m | Some pv \<Rightarrow> save_conn_row at dst pv m) rows (ss_saved_conn_info ss)\<rparr>"

definition update_dst_saved_conn_info_version :: "nat \<Rightarrow> conn_info \<Rightarrow> peer_id \<Rightarrow> sync_route_session \<Rightarrow> sync_route_session" where
  "update_dst_saved_conn_info_version at c dst ss =
     (case c of
        ConnBitmap b \<Rightarrow> update_dst_saved_conn_bitmap_version at b dst ss
      | ConnPeerList rows \<Rightarrow> update_dst_saved_conn_peer_list_version at rows dst ss)"

text \<open>A missing key or value is a panic here.\<close>

fun save_foreign_rows ::
  "nat \<Rightarrow> peer_id \<Rightarrow> foreign_network_infos \<Rightarrow> (foreign_network_key, version_and_touch_time) kvs
    \<Rightarrow> (foreign_network_key, version_and_touch_time) kvs option" where
  "save_foreign_rows at dst [] m = Some m"
| "save_foreign_rows at dst ((k, e) # rest) m = do {
     key \<leftarrow> k;
     if fk_peer_id key = dst then save_foreign_rows at dst rest m
     else do {
       entry \<leftarrow> e;
       save_foreign_rows at dst rest (save_version at key (fn_version entry) m) } }"

definition update_dst_saved_foreign_network_version ::
  "nat \<Rightarrow> foreign_network_infos \<Rightarrow> peer_id \<Rightarrow> sync_route_session \<Rightarrow> sync_route_session option" where
  "update_dst_saved_foreign_network_version at infos dst ss =
     map_option (\<lambda>m. ss\<lparr>ss_saved_foreign := m\<rparr>) (save_foreign_rows at dst infos (ss_saved_foreign ss))"

definition clean_dst_saved_map :: "nat \<Rightarrow> sync_route_session \<Rightarrow> sync_route_session" where
  "clean_dst_saved_map at ss =
     ss\<lparr>ss_saved_peer_info := kv_retain (\<lambda>_ v. \<not> vt_is_expired at v) (ss_saved_peer_info ss),
        ss_saved_conn_info := kv_retain (\<lambda>_ v. \<not> vt_is_expired at v) (ss_saved_conn_info ss),
        ss_saved_foreign := kv_retain (\<lambda>_ v. \<not> vt_is_expired at v) (ss_saved_foreign ss)\<rparr>"

definition update_last_sync_succ_timestamp :: "nat \<Rightarrow> sync_route_session \<Rightarrow> sync_route_session" where
  "update_last_sync_succ_timestamp next ss =
     (if (case ss_last_sync_succ ss of None \<Rightarrow> True | Some old \<Rightarrow> old < next) then ss\<lparr>ss_last_sync_succ := Some next\<rparr> else ss)"

section \<open>Generations of the other side\<close>

definition update_initiator_flag :: "bool \<Rightarrow> sync_route_session \<Rightarrow> sync_route_session" where
  "update_initiator_flag is_initiator ss =
     (if ss_we_are_initiator ss \<noteq> is_initiator
      then ss\<lparr>ss_we_are_initiator := is_initiator, ss_state_revision := ss_state_revision ss + 1\<rparr> else ss)
     \<lparr>ss_need_sync_initiator_info := True\<rparr>"

definition update_remote_state :: "u64 \<Rightarrow> bool \<Rightarrow> sync_route_session \<Rightarrow> sync_route_session" where
  "update_remote_state session_id is_initiator ss =
     (let session_id_changed = (session_id \<noteq> ss_dst_session_id ss);
          initiator_changed = (is_initiator \<noteq> ss_dst_is_initiator ss);
          ss = (if session_id_changed
                then ss\<lparr>ss_dst_session_id := session_id, ss_saved_conn_info := [], ss_saved_peer_info := [], ss_saved_foreign := [],
                        ss_last_sync_succ := None, ss_pending_peer_info := [], ss_pending_conn_info := [], ss_missing_peer_ids := []\<rparr>
                else ss);
          ss = (if initiator_changed then ss\<lparr>ss_dst_is_initiator := is_initiator\<rparr> else ss)
      in if session_id_changed \<or> initiator_changed then ss\<lparr>ss_state_revision := ss_state_revision ss + 1\<rparr> else ss)"

definition admit_inbound :: "u64 \<Rightarrow> bool \<Rightarrow> sync_route_session \<Rightarrow> bool \<times> sync_route_session" where
  "admit_inbound session_id is_initiator ss =
     (if session_id = ss_dst_session_id ss then (True, update_remote_state session_id is_initiator ss)
      else if ss_dst_session_id ss = 0 \<and> \<not> is_initiator \<and> ss_we_are_initiator ss then (True, update_remote_state session_id False ss)
      else if \<not> is_initiator \<or> ss_dst_is_initiator ss then (False, ss)
      else (True, update_remote_state session_id True ss))"

record sync_request_snapshot =
  sn_my_session_id :: u64
  sn_state_revision :: u64
  sn_is_initiator :: bool

definition request_snapshot :: "sync_route_session \<Rightarrow> sync_request_snapshot" where
  "request_snapshot ss =
     \<lparr>sn_my_session_id = ss_my_session_id ss, sn_state_revision = ss_state_revision ss, sn_is_initiator = ss_we_are_initiator ss\<rparr>"

definition request_is_current :: "sync_request_snapshot \<Rightarrow> sync_route_session \<Rightarrow> bool" where
  "request_is_current sn ss \<longleftrightarrow> sn_my_session_id sn = ss_my_session_id ss \<and> sn_state_revision sn = ss_state_revision ss
     \<and> sn_is_initiator sn = ss_we_are_initiator ss"

definition clear_dst_initiator_if_session_unchanged :: "u64 \<Rightarrow> sync_route_session \<Rightarrow> bool \<times> sync_route_session" where
  "clear_dst_initiator_if_session_unchanged expected ss =
     (if ss_dst_session_id ss \<noteq> expected then (False, ss) else (True, update_remote_state expected False ss))"

definition clear_stale_dst_initiator :: "nat \<Rightarrow> sync_route_session \<Rightarrow> bool \<times> sync_route_session" where
  "clear_stale_dst_initiator at ss =
     (if \<not> ss_dst_is_initiator ss \<or> ss_we_are_initiator ss then (False, ss)
      else if at - ss_last_contact ss < INITIATOR_SESSION_LIVENESS_TIMEOUT then (False, ss)
      else (True, update_remote_state (ss_dst_session_id ss) False ss))"

section \<open>The next request\<close>

text \<open>
  Both tables are read from the newest entry backwards until one is older than the last successful exchange. An entry that
  the other side has is skipped, one of an unreachable peer is noted as pending, the rest is picked. Then the pending ones
  are walked: one that the other side has by now or that is gone is forgotten, one that is reachable is picked.
\<close>

definition older_than :: "nat option \<Rightarrow> nat option \<Rightarrow> bool" where
  "older_than cursor last_update = (case (cursor, last_update) of (Some c, Some t) \<Rightarrow> t < c | _ \<Rightarrow> False)"

definition pick_new :: "'k \<times> 'v \<Rightarrow> ('k \<times> 'v) list \<Rightarrow> ('k \<times> 'v) list" where
  "pick_new e picked = (if fst e \<in> set (map fst picked) then picked else picked @ [e])"

definition pick_always :: "'k \<times> 'v \<Rightarrow> ('k \<times> 'v) list \<Rightarrow> ('k \<times> 'v) list" where
  "pick_always e picked = picked @ [e]"

fun scan_recent ::
  "('v \<Rightarrow> bool) \<Rightarrow> (peer_id \<Rightarrow> 'v \<Rightarrow> 's \<Rightarrow> bool \<times> 's) \<Rightarrow> (peer_id \<Rightarrow> 'v \<Rightarrow> 's \<Rightarrow> 's) \<Rightarrow> (peer_id \<Rightarrow> bool)
    \<Rightarrow> (peer_id \<times> 'v \<Rightarrow> (peer_id \<times> 'v) list \<Rightarrow> (peer_id \<times> 'v) list) \<Rightarrow> (peer_id \<times> 'v) list
    \<Rightarrow> 's \<times> (peer_id \<times> 'v) list \<Rightarrow> 's \<times> (peer_id \<times> 'v) list" where
  "scan_recent stop check later reach pick [] st = st"
| "scan_recent stop check later reach pick ((p, v) # rest) (ss, picked) =
     (if stop v then (ss, picked)
      else let (up_to_date, ss) = check p v ss in
        if up_to_date then scan_recent stop check later reach pick rest (ss, picked)
        else if \<not> reach p then scan_recent stop check later reach pick rest (later p v ss, picked)
        else scan_recent stop check later reach pick rest (ss, pick (p, v) picked))"

fun scan_pending ::
  "(peer_id \<Rightarrow> version \<Rightarrow> 's \<Rightarrow> bool \<times> 's) \<Rightarrow> (peer_id \<Rightarrow> bool) \<Rightarrow> (peer_id, 'v) kvs \<Rightarrow> (peer_id \<times> version) list
    \<Rightarrow> 's \<times> (peer_id \<times> 'v) list \<Rightarrow> ('s \<times> (peer_id \<times> 'v) list) \<times> (peer_id \<times> version) list" where
  "scan_pending check reach store [] st = (st, [])"
| "scan_pending check reach store ((p, version) # rest) (ss, picked) =
     (let (up_to_date, ss) = check p version ss in
      if up_to_date then scan_pending check reach store rest (ss, picked)
      else case kv_get store p of
             None \<Rightarrow> scan_pending check reach store rest (ss, picked)
           | Some v \<Rightarrow>
               let (st, kept) = scan_pending check reach store rest (ss, if reach p then pick_new (p, v) picked else picked)
               in (st, (p, version) # kept))"

definition build_route_info ::
  "(peer_id \<Rightarrow> bool) \<Rightarrow> nat \<Rightarrow> synced_route_info \<Rightarrow> sync_route_session \<Rightarrow> route_peer_info list option \<times> sync_route_session" where
  "build_route_info reach at s ss =
     (let (ss, picked) = scan_recent (\<lambda>info. older_than (ss_last_sync_succ ss) (rp_last_update info))
            (\<lambda>p info. check_saved_peer_info_update_to_date at (rp_peer_id info) (rp_version info))
            (\<lambda>p info ss. ss\<lparr>ss_pending_peer_info := kv_put p (rp_version info) (ss_pending_peer_info ss)\<rparr>)
            reach pick_always (rev (sy_peer_infos s)) (ss, []);
          ((ss, picked), kept) = scan_pending (check_saved_peer_info_update_to_date at) reach (sy_peer_infos s)
            (sort_key fst (ss_pending_peer_info ss)) (ss, picked);
          infos = map snd picked
      in (if infos = [] then None else Some infos, ss\<lparr>ss_pending_peer_info := kept\<rparr>))"

definition conn_row :: "peer_id \<times> route_conn_info \<Rightarrow> peer_conn_info" where
  "conn_row e = \<lparr>pc_peer_id = Some \<lparr>pv_peer_id = fst e, pv_version = rc_version (snd e)\<rparr>, pc_connected_peer_ids = rc_connected_peers (snd e)\<rparr>"

text \<open>A \<^verbatim>\<open>PeerIdVersion\<close> takes eight bytes, a \<^verbatim>\<open>PeerId\<close> four. The list is returned with its estimated size.\<close>

definition build_conn_peer_list ::
  "(peer_id \<Rightarrow> bool) \<Rightarrow> nat \<Rightarrow> synced_route_info \<Rightarrow> sync_route_session \<Rightarrow> (route_conn_peer_list \<times> nat) option \<times> sync_route_session" where
  "build_conn_peer_list reach at s ss =
     (let (ss, picked) = scan_recent (\<lambda>c. older_than (ss_last_sync_succ ss) (Some (rc_last_update c)))
            (\<lambda>p c. check_saved_conn_version_update_to_date at p (rc_version c))
            (\<lambda>p c ss. ss\<lparr>ss_pending_conn_info := kv_put p (rc_version c) (ss_pending_conn_info ss)\<rparr>)
            reach pick_new (rev (sy_conn_map s)) (ss, []);
          ((ss, picked), kept) = scan_pending (check_saved_conn_version_update_to_date at) reach (sy_conn_map s)
            (sort_key fst (ss_pending_conn_info ss)) (ss, picked);
          rows = map conn_row picked
      in (if rows = [] then None
          else Some (rows, sum_list (map (\<lambda>e. 8 + 4 * length (rc_connected_peers (snd e))) picked)),
          ss\<lparr>ss_pending_conn_info := kept\<rparr>))"

fun foreign_rows ::
  "nat \<Rightarrow> (foreign_network_key, foreign_network_entry) kvs \<Rightarrow> sync_route_session \<Rightarrow> foreign_network_infos \<times> sync_route_session" where
  "foreign_rows at [] ss = ([], ss)"
| "foreign_rows at ((key, entry) # rest) ss =
     (let (up_to_date, ss) = check_saved_foreign_network_version_update_to_date at key (fn_version entry) ss;
          (rows, ss) = foreign_rows at rest ss
      in (if up_to_date then rows else (Some key, Some entry) # rows, ss))"

definition build_foreign_network_info ::
  "nat \<Rightarrow> synced_route_info \<Rightarrow> sync_route_session \<Rightarrow> foreign_network_infos option \<times> sync_route_session" where
  "build_foreign_network_info at s ss =
     (let (rows, ss) = foreign_rows at (sy_foreign_network s) ss in (if rows = [] then None else Some rows, ss))"

definition estimate_conn_bitmap_size :: "route_conn_bitmap \<Rightarrow> nat" where
  "estimate_conn_bitmap_size b = length (cb_bitmap b) + length (cb_peer_ids b) * 8"

definition build_conn_info ::
  "(peer_id \<Rightarrow> bool) \<Rightarrow> nat \<Rightarrow> bool \<Rightarrow> route_conn_bitmap \<Rightarrow> synced_route_info \<Rightarrow> peer_id \<Rightarrow> sync_route_session
    \<Rightarrow> conn_info option \<times> sync_route_session" where
  "build_conn_info reach at force_use_conn_list cached_bitmap s dst ss =
     (let dst_supports_peer_list =
            ((case kv_get (sy_peer_infos s) dst \<bind> rp_feature_flag of Some f \<Rightarrow> ff_support_conn_list_sync f | None \<Rightarrow> False)
             \<or> force_use_conn_list);
          (peer_list, ss) = build_conn_peer_list reach at s ss
      in (case peer_list of
            None \<Rightarrow> None
          | Some (rows, estimated) \<Rightarrow>
              Some (if estimated < estimate_conn_bitmap_size cached_bitmap \<and> dst_supports_peer_list
                    then ConnPeerList rows else ConnBitmap cached_bitmap), ss))"

definition build_sync_request ::
  "(peer_id \<Rightarrow> bool) \<Rightarrow> nat \<Rightarrow> bool \<Rightarrow> route_conn_bitmap \<Rightarrow> synced_route_info \<Rightarrow> peer_id \<Rightarrow> sync_route_session
    \<Rightarrow> (route_peer_info list option \<times> conn_info option \<times> foreign_network_infos option) \<times> sync_route_session" where
  "build_sync_request reach at force_use_conn_list cached_bitmap s dst ss =
     (let (infos, ss) = build_route_info reach at s ss;
          (conn, ss) = build_conn_info reach at force_use_conn_list cached_bitmap s dst ss;
          (foreign, ss) = build_foreign_network_info at s ss
      in ((infos, conn, foreign), ss))"

section \<open>Missing entries\<close>

fun error_code :: "sync_error \<Rightarrow> int" where
  "error_code DuplicatePeerId = 0"
| "error_code Stopped = 1"

record sync_response =
  sr_is_initiator :: bool
  sr_session_id :: u64
  sr_error :: "int option"
  sr_missing_peer_ids :: "peer_id list"
  sr_missing_conn_peer_ids :: "peer_id list"

definition mentioned_peers :: "conn_info option \<Rightarrow> peer_id list" where
  "mentioned_peers c =
     (case c of
        Some (ConnBitmap b) \<Rightarrow> map pv_peer_id (cb_peer_ids b)
      | Some (ConnPeerList rows) \<Rightarrow>
          concat (map (\<lambda>row. case pc_peer_id row of Some pv \<Rightarrow> pv_peer_id pv # pc_connected_peer_ids row | None \<Rightarrow> []) rows)
      | None \<Rightarrow> [])"

definition ask_for :: "synced_route_info \<Rightarrow> peer_id \<Rightarrow> bool \<times> bool" where
  "ask_for s p =
     (let info = kv_get (sy_peer_infos s) p; conn = kv_get (sy_conn_map s) p;
          missing_info = (case info of Some i \<Rightarrow> rp_version i = 0 | None \<Rightarrow> True);
          needs_conn =
            (case info of
               Some i \<Rightarrow> \<not> is_credential_peer_info i
                 \<or> (case get_credential_info_by_pubkey s (rp_noise_static_pubkey i) of Some c \<Rightarrow> tc_allow_relay c | None \<Rightarrow> False)
             | None \<Rightarrow> True);
          missing_conn = (needs_conn \<and> (case conn of Some c \<Rightarrow> rc_version c = 0 | None \<Rightarrow> True))
      in if info = None \<and> conn = None then (False, False) else (missing_info, missing_conn))"

definition collect_missing_peer_ids ::
  "peer_id \<Rightarrow> synced_route_info \<Rightarrow> conn_info option \<Rightarrow> bool \<Rightarrow> peer_id list \<Rightarrow> sync_route_session
    \<Rightarrow> (peer_id list \<times> peer_id list) \<times> sync_route_session" where
  "collect_missing_peer_ids me s c from_is_credential untrusted ss =
     (let missing = btree (ss_missing_peer_ids ss @ mentioned_peers c) in
      if missing = [] then (([], []), ss\<lparr>ss_missing_peer_ids := missing\<rparr>)
      else let candidates = filter (\<lambda>p. \<not> (p = me \<or> (from_is_credential \<and> p \<noteq> ss_dst_peer_id ss) \<or> p \<in> set untrusted)) missing
           in ((filter (\<lambda>p. fst (ask_for s p)) candidates, filter (\<lambda>p. snd (ask_for s p)) candidates),
               ss\<lparr>ss_missing_peer_ids := filter (\<lambda>p. fst (ask_for s p) \<or> snd (ask_for s p)) candidates\<rparr>))"

definition request_missing_info :: "synced_route_info \<Rightarrow> peer_id \<Rightarrow> sync_route_session \<Rightarrow> sync_route_session" where
  "request_missing_info s p ss =
     (if p = ss_dst_peer_id ss then ss
      else case kv_get (sy_peer_infos s) p of
             None \<Rightarrow> ss
           | Some info \<Rightarrow>
               if rp_version info = 0 then ss
               else ss\<lparr>ss_saved_peer_info := kv_remove p (ss_saved_peer_info ss),
                       ss_pending_peer_info := kv_put p (rp_version info) (ss_pending_peer_info ss)\<rparr>)"

definition request_missing_conn :: "synced_route_info \<Rightarrow> peer_id \<Rightarrow> sync_route_session \<Rightarrow> sync_route_session" where
  "request_missing_conn s p ss =
     (if p = ss_dst_peer_id ss then ss
      else case kv_get (sy_conn_map s) p of
             None \<Rightarrow> ss
           | Some c \<Rightarrow>
               if rc_version c = 0 then ss
               else ss\<lparr>ss_saved_conn_info := kv_remove p (ss_saved_conn_info ss),
                       ss_pending_conn_info := kv_put p (rc_version c) (ss_pending_conn_info ss)\<rparr>)"

definition request_missing_peer_infos :: "synced_route_info \<Rightarrow> sync_response \<Rightarrow> sync_route_session \<Rightarrow> sync_route_session" where
  "request_missing_peer_infos s resp ss =
     fold (request_missing_conn s) (sr_missing_conn_peer_ids resp) (fold (request_missing_info s) (sr_missing_peer_ids resp) ss)"

section \<open>One exchange\<close>

text \<open>
  \<^verbatim>\<open>sync_route_with_peer\<close> holds the lock of the session before and after the remote call, but not during it:
  \<open>sync_begin\<close> is the first half, \<open>sync_finish\<close> the second one. \<open>next\<close> is the time that was read before the tables.
\<close>

record sync_attempt =
  sa_snapshot :: sync_request_snapshot
  sa_expected_dst_session_id :: u64
  sa_infos :: "route_peer_info list option"
  sa_conn :: "conn_info option"
  sa_foreign :: "foreign_network_infos option"
  sa_next :: nat

definition sync_begin ::
  "(peer_id \<Rightarrow> bool) \<Rightarrow> nat \<Rightarrow> nat \<Rightarrow> bool \<Rightarrow> route_conn_bitmap \<Rightarrow> synced_route_info \<Rightarrow> bool \<Rightarrow> sync_route_session
    \<Rightarrow> sync_attempt option \<times> sync_route_session" where
  "sync_begin reach at next force_use_conn_list cached_bitmap s sync_as_initiator ss =
     (let ((infos, conn, foreign), ss') = build_sync_request reach at force_use_conn_list cached_bitmap s (ss_dst_peer_id ss) ss
      in if infos = None \<and> conn = None \<and> foreign = None \<and> \<not> ss_need_sync_initiator_info ss'
            \<and> \<not> (sync_as_initiator \<and> ss_we_are_initiator ss')
         then (None, ss')
         else (Some \<lparr>sa_snapshot = request_snapshot ss, sa_expected_dst_session_id = ss_dst_session_id ss, sa_infos = infos,
                     sa_conn = conn, sa_foreign = foreign, sa_next = next\<rparr>,
               ss'\<lparr>ss_need_sync_initiator_info := False\<rparr>))"

definition commit_response ::
  "nat \<Rightarrow> synced_route_info \<Rightarrow> sync_attempt \<Rightarrow> sync_response \<Rightarrow> sync_route_session \<Rightarrow> sync_route_session option" where
  "commit_response at s a resp ss = do {
     let dst = ss_dst_peer_id ss;
     let ss = ss\<lparr>ss_rpc_tx_count := ss_rpc_tx_count ss + 1, ss_last_contact := at\<rparr>;
     let ss = update_remote_state (sr_session_id resp) (sr_is_initiator resp) ss;
     let ss = (case sa_infos a of Some infos \<Rightarrow> update_dst_saved_peer_info_version at infos dst ss | None \<Rightarrow> ss);
     let ss = (case sa_conn a of Some c \<Rightarrow> update_dst_saved_conn_info_version at c dst ss | None \<Rightarrow> ss);
     ss \<leftarrow> (case sa_foreign a of Some f \<Rightarrow> update_dst_saved_foreign_network_version at f dst ss | None \<Rightarrow> Some ss);
     Some (request_missing_peer_infos s resp (update_last_sync_succ_timestamp (sa_next a) ss)) }"

definition sync_finish ::
  "nat \<Rightarrow> bool \<Rightarrow> bool \<Rightarrow> synced_route_info \<Rightarrow> sync_attempt \<Rightarrow> sync_response option \<Rightarrow> sync_route_session
    \<Rightarrow> sync_route_session option" where
  "sync_finish at is_public_server is_current_session s a ret ss =
     (if \<not> (is_current_session \<and> request_is_current (sa_snapshot a) ss) then Some ss
      else case ret of
        None \<Rightarrow> Some (ss\<lparr>ss_need_sync_initiator_info := True\<rparr>)
      | Some resp \<Rightarrow>
          (case sr_error resp of
             Some err \<Rightarrow>
               if err = error_code Stopped \<and> \<not> sn_is_initiator (sa_snapshot a)
               then Some (snd (clear_dst_initiator_if_session_unchanged (sa_expected_dst_session_id a) ss))
               else if err = error_code DuplicatePeerId then (if \<not> is_public_server then None else Some ss)
               else Some (ss\<lparr>ss_need_sync_initiator_info := True\<rparr>)
           | None \<Rightarrow> commit_response at s a resp ss))"

section \<open>Scans of a table\<close>

text \<open>
  The contract between a scan and the bookkeeping of a session: a check tells whether the other side is known to have a version, and
  neither a check nor noting pending entries changes what it is known to have.
\<close>

definition appends :: "('k \<times> 'v \<Rightarrow> ('k \<times> 'v) list \<Rightarrow> ('k \<times> 'v) list) \<Rightarrow> bool" where
  "appends pick \<longleftrightarrow> (\<forall>e picked. fst e \<notin> fst ` set picked \<longrightarrow> pick e picked = picked @ [e])"

lemma appends_pick: "appends pick_new" "appends pick_always"
  by (auto simp: appends_def pick_new_def pick_always_def)

locale bookkeeping =
  fixes check :: "peer_id \<Rightarrow> version \<Rightarrow> 's \<Rightarrow> bool \<times> 's" and acked :: "'s \<Rightarrow> peer_id \<Rightarrow> version \<Rightarrow> bool"
    and pending :: "'s \<Rightarrow> (peer_id, version) kvs" and set_pending :: "(peer_id, version) kvs \<Rightarrow> 's \<Rightarrow> 's"
  assumes check_result: "fst (check p v ss) = acked ss p v"
    and check_acked: "acked (snd (check p v ss)) = acked ss"
    and check_pending: "pending (snd (check p v ss)) = pending ss"
    and pending_set: "pending (set_pending m ss) = m"
    and acked_set: "acked (set_pending m ss) = acked ss"
    and acked_down: "acked ss p v \<Longrightarrow> v' \<le> v \<Longrightarrow> acked ss p v'"
begin

lemma recent_spec:
  assumes "appends pick"
    and "distinct (map fst xs)" "fst ` set xs \<inter> fst ` set picked = {}"
    and "scan_recent stop (\<lambda>p v. check (ident p v) (ver v)) (\<lambda>p v ss. set_pending (kv_put p (ver v) (pending ss)) ss) reach pick xs (ss, picked) = (ss', picked')"
  defines "due \<equiv> filter (\<lambda>(p, v). \<not> acked ss (ident p v) (ver v)) (takeWhile (\<lambda>(p, v). \<not> stop v) xs)"
  shows "acked ss' = acked ss \<and> picked' = picked @ filter (\<lambda>(p, v). reach p) due
    \<and> (\<forall>p. kv_get (pending ss') p =
         (case map_of (filter (\<lambda>(p, v). \<not> reach p) due) p of Some v \<Rightarrow> Some (ver v) | None \<Rightarrow> kv_get (pending ss) p))"
  using assms(2-4) unfolding due_def
proof (induction xs arbitrary: ss picked)
  case Nil
  then show ?case by simp
next
  case (Cons e xs)
  obtain p v where e: "e = (p, v)" by (cases e)
  let ?ss = "snd (check (ident p v) (ver v) ss)"
  have fresh: "distinct (map fst xs)" "p \<notin> fst ` set xs" "fst ` set xs \<inter> fst ` set picked = {}" "p \<notin> fst ` set picked"
    using Cons.prems(1,2) by (auto simp: e)
  have other: "map_of (filter P (takeWhile R xs)) p = None" for P R
    using fresh(2) by (auto simp: map_of_eq_None_iff dest: set_takeWhileD)
  consider "stop v" | "\<not> stop v" "acked ss (ident p v) (ver v)"
    | "\<not> stop v" "\<not> acked ss (ident p v) (ver v)" "\<not> reach p" | "\<not> stop v" "\<not> acked ss (ident p v) (ver v)" "reach p" by blast
  then show ?case
  proof cases
    case 1
    then show ?thesis using Cons.prems(3) by (simp add: e)
  next
    case 2
    then show ?thesis using Cons.IH [OF fresh(1,3), of ?ss, unfolded check_acked check_pending] Cons.prems(3)
      by (simp add: e case_prod_unfold Let_def check_result)
  next
    case 3
    then show ?thesis
      using Cons.IH [OF fresh(1,3), of "set_pending (kv_put p (ver v) (pending ?ss)) ?ss", unfolded pending_set acked_set check_acked check_pending]
        Cons.prems(3) other
      by (auto simp: e case_prod_unfold Let_def check_result check_pending split: option.splits)
  next
    case 4
    have "fst ` set xs \<inter> fst ` set (picked @ [e]) = {}" using fresh by (auto simp: e)
    from Cons.IH [OF fresh(1) this, of ?ss, unfolded check_acked check_pending] 4 Cons.prems(3) assms(1) fresh(4) show ?thesis
      by (simp add: e case_prod_unfold Let_def check_result appends_def)
  qed
qed

lemma pending_spec:
  assumes "distinct (map fst ps)" "scan_pending check reach store ps (ss, picked) = ((ss', picked'), kept)"
  defines "due \<equiv> filter (\<lambda>(p, v). \<not> acked ss p v \<and> kv_get store p \<noteq> None) ps"
  shows "acked ss' = acked ss \<and> kept = due
    \<and> set picked' = set picked \<union> {(p, v). p \<notin> fst ` set picked \<and> p \<in> fst ` set due \<and> kv_get store p = Some v \<and> reach p}"
  using assms(1,2) unfolding due_def
proof (induction ps arbitrary: ss picked kept)
  case Nil
  then show ?case by auto
next
  case (Cons e ps)
  obtain p v where e: "e = (p, v)" by (cases e)
  let ?ss = "snd (check p v ss)"
  have fresh: "distinct (map fst ps)" "p \<notin> fst ` set ps" using Cons.prems(1) by (auto simp: e)
  consider "acked ss p v \<or> kv_get store p = None" | x where "\<not> acked ss p v" "kv_get store p = Some x" by blast
  then show ?case
  proof cases
    case 1
    then have "scan_pending check reach store ps (?ss, picked) = ((ss', picked'), kept)"
      using Cons.prems(2) by (auto simp: e case_prod_unfold Let_def check_result split: if_splits)
    from Cons.IH [OF fresh(1) this] 1 show ?thesis by (auto simp: e check_acked)
  next
    case (2 x)
    let ?picked = "if reach p then pick_new (p, x) picked else picked"
    obtain kept' where rest: "scan_pending check reach store ps (?ss, ?picked) = ((ss', picked'), kept')" "kept = (p, v) # kept'"
      using Cons.prems(2) 2 by (auto simp: e case_prod_unfold Let_def check_result prod_eq_iff)
    have "set ?picked = set picked \<union> (if reach p \<and> p \<notin> fst ` set picked then {(p, x)} else {})" by (auto simp: pick_new_def)
    with Cons.IH [OF fresh(1) rest(1)] rest(2) fresh(2) 2 show ?thesis by (auto simp: e check_acked)
  qed
qed

lemma recent_ok:
  "kv_ok (pending ss) \<Longrightarrow> kv_ok (pending (fst (scan_recent stop (\<lambda>p v. check (ident p v) (ver v))
     (\<lambda>p v ss. set_pending (kv_put p (ver v) (pending ss)) ss) reach pick xs (ss, picked))))"
proof (induction xs arbitrary: ss picked)
  case (Cons e xs)
  then show ?case by (cases e) (auto simp: case_prod_unfold Let_def check_pending pending_set kvm.ok_put)
qed simp

lemma scan_facts:
  assumes pick: "appends pick"
    and ok: "kv_ok store" "kv_ok (pending ss)"
    and one: "scan_recent stop (\<lambda>p v. check (ident p v) (ver v)) (\<lambda>p v ss. set_pending (kv_put p (ver v) (pending ss)) ss) reach pick (rev store) (ss, []) = (ss1, picked1)"
    and two: "scan_pending check reach store (sort_key fst (pending ss1)) (ss1, picked1) = ((ss2, picked2), kept)"
  defines "due \<equiv> filter (\<lambda>(p, v). \<not> acked ss (ident p v) (ver v)) (takeWhile (\<lambda>(p, v). \<not> stop v) (rev store))"
  shows "acked ss2 = acked ss" "kv_ok kept" "distinct (map fst due)"
    "kv_get kept p = Some pv \<longleftrightarrow>
       (case map_of (filter (\<lambda>(p, v). \<not> reach p) due) p of Some v \<Rightarrow> Some (ver v) | None \<Rightarrow> kv_get (pending ss) p) = Some pv
       \<and> \<not> acked ss p pv \<and> kv_get store p \<noteq> None"
    "(p, v) \<in> set picked2 \<longleftrightarrow> reach p \<and>
       ((p, v) \<in> set due \<or> p \<notin> fst ` set (filter (\<lambda>(p, v). reach p) due) \<and> kv_get kept p \<noteq> None \<and> kv_get store p = Some v)"
proof -
  have dist: "distinct (map fst (rev store))" using ok(1) by (simp add: kv_ok_def rev_map [symmetric])
  have first: "acked ss1 = acked ss" "picked1 = filter (\<lambda>(p, v). reach p) due"
    "\<And>p. kv_get (pending ss1) p = (case map_of (filter (\<lambda>(p, v). \<not> reach p) due) p of Some v \<Rightarrow> Some (ver v) | None \<Rightarrow> kv_get (pending ss) p)"
    using recent_spec [OF pick dist _ one] unfolding due_def by simp_all
  have ok1: "kv_ok (pending ss1)" using recent_ok [OF ok(2), of stop ident ver reach pick "rev store" "[]"] one by simp
  have sorted: "distinct (map fst (sort_key fst (pending ss1)))" "set (sort_key fst (pending ss1)) = set (pending ss1)"
    using ok1 by (simp_all add: kv_ok_def distinct_map)
  let ?due2 = "filter (\<lambda>(p, v). \<not> acked ss1 p v \<and> kv_get store p \<noteq> None) (sort_key fst (pending ss1))"
  have second: "acked ss2 = acked ss1" "kept = ?due2"
    "set picked2 = set picked1 \<union> {(p, v). p \<notin> fst ` set picked1 \<and> p \<in> fst ` set ?due2 \<and> kv_get store p = Some v \<and> reach p}"
    using pending_spec [OF sorted(1) two] by simp_all
  show "acked ss2 = acked ss" by (simp add: second(1) first(1))
  show okk: "kv_ok kept" using sorted(1) by (simp add: second(2) kv_ok_def distinct_map_filter)
  have "set due \<subseteq> set (rev store)" unfolding due_def by (auto dest: set_takeWhileD)
  with dist show "distinct (map fst due)" by (auto simp: distinct_map due_def intro: inj_on_subset)
  show "kv_get kept p = Some pv \<longleftrightarrow>
       (case map_of (filter (\<lambda>(p, v). \<not> reach p) due) p of Some v \<Rightarrow> Some (ver v) | None \<Rightarrow> kv_get (pending ss) p) = Some pv
       \<and> \<not> acked ss p pv \<and> kv_get store p \<noteq> None"
    unfolding first(3) [symmetric] kv_ok_mem [OF okk, symmetric] kv_ok_mem [OF ok1, symmetric]
    by (auto simp: second(2) first(1) sorted(2) simp del: not_None_eq)
  have "p \<in> fst ` set ?due2 \<longleftrightarrow> kv_get kept p \<noteq> None"
    unfolding second(2) by (auto simp: kv_get_def map_of_eq_None_iff simp del: not_None_eq)
  then show "(p, v) \<in> set picked2 \<longleftrightarrow> reach p \<and>
       ((p, v) \<in> set due \<or> p \<notin> fst ` set (filter (\<lambda>(p, v). reach p) due) \<and> kv_get kept p \<noteq> None \<and> kv_get store p = Some v)"
    unfolding second(3) first(2) by auto
qed

lemma scan_complete:
  assumes pick: "appends pick"
    and ok: "kv_ok store" "kv_ok (pending ss)"
    and order: "\<forall>(p, v) \<in> set store. \<not> stop v \<longrightarrow> (p, v) \<in> set (takeWhile (\<lambda>(p, v). \<not> stop v) (rev store))"
    and ident: "\<forall>(p, v) \<in> set store. acked ss (ident p v) (ver v) = acked ss p (ver v)"
    and one: "scan_recent stop (\<lambda>p v. check (ident p v) (ver v)) (\<lambda>p v ss. set_pending (kv_put p (ver v) (pending ss)) ss) reach pick (rev store) (ss, []) = (ss1, picked1)"
    and two: "scan_pending check reach store (sort_key fst (pending ss1)) (ss1, picked1) = ((ss2, picked2), kept)"
  shows "(p, v) \<in> set picked2 \<Longrightarrow> kv_get store p = Some v \<and> reach p"
    "kv_get store p = Some v \<Longrightarrow> \<not> acked ss p (ver v) \<Longrightarrow> \<not> stop v \<or> (\<exists>pv. kv_get (pending ss) p = Some pv \<and> ver v \<le> pv) \<Longrightarrow>
       (reach p \<longrightarrow> (p, v) \<in> set picked2) \<and> (reach p \<and> \<not> stop v \<or> (\<exists>pv. kv_get kept p = Some pv \<and> ver v \<le> pv))"
proof -
  let ?due = "filter (\<lambda>(p, v). \<not> acked ss (ident p v) (ver v)) (takeWhile (\<lambda>(p, v). \<not> stop v) (rev store))"
  let ?late = "filter (\<lambda>(p, v). \<not> reach p) ?due"
  note facts = scan_facts [OF pick ok one two]
  have mem: "(p, v) \<in> set store \<longleftrightarrow> kv_get store p = Some v" for p v by (rule kv_ok_mem [OF ok(1)])
  have in_due: "(p, v) \<in> set ?due \<Longrightarrow> kv_get store p = Some v" for p v using mem by (auto dest!: set_takeWhileD)
  then show "(p, v) \<in> set picked2 \<Longrightarrow> kv_get store p = Some v \<and> reach p" unfolding facts(5) by blast
  assume v: "kv_get store p = Some v" and un: "\<not> acked ss p (ver v)"
    and due: "\<not> stop v \<or> (\<exists>pv. kv_get (pending ss) p = Some pv \<and> ver v \<le> pv)"
  have "(p, v) \<in> set store" using v by (simp add: mem)
  from bspec [OF order this] bspec [OF ident this] un
  have "\<not> stop v \<longrightarrow> (p, v) \<in> set (takeWhile (\<lambda>(p, v). \<not> stop v) (rev store))" "\<not> acked ss (ident p v) (ver v)" by simp_all
  then have front: "(p, w) \<in> set ?due \<longleftrightarrow> w = v \<and> \<not> stop v" for w
    using in_due [of p w] v by (auto dest: set_takeWhileD)
  have late: "map_of ?late p = (if \<not> reach p \<and> \<not> stop v then Some v else None)"
    using distinct_map_filter [OF facts(3)] front by (auto simp: map_of_eq_None_iff intro!: map_of_is_SomeI)
  have keep: "\<exists>pv. kv_get kept p = Some pv \<and> ver v \<le> pv" if "\<not> (reach p \<and> \<not> stop v)"
    using that due un v acked_down [of ss p] unfolding facts(4) late by auto
  moreover have "(p, v) \<in> set picked2" if "reach p"
  proof (cases "stop v")
    case False
    then show ?thesis using front that unfolding facts(5) by blast
  next
    case True
    then have "p \<notin> fst ` set (filter (\<lambda>(p, v). reach p) ?due)" using front by auto
    with keep True v that show ?thesis unfolding facts(5) by auto
  qed
  ultimately show "(reach p \<longrightarrow> (p, v) \<in> set picked2) \<and> (reach p \<and> \<not> stop v \<or> (\<exists>pv. kv_get kept p = Some pv \<and> ver v \<le> pv))"
    by blast
qed

end

definition info_acked :: "sync_route_session \<Rightarrow> peer_id \<Rightarrow> version \<Rightarrow> bool" where
  "info_acked ss p v \<longleftrightarrow> v = 0 \<or> p = ss_dst_peer_id ss \<or> saved_at_least (ss_saved_peer_info ss) p v"

definition conn_acked :: "sync_route_session \<Rightarrow> peer_id \<Rightarrow> version \<Rightarrow> bool" where
  "conn_acked ss p v \<longleftrightarrow> v = 0 \<or> p = ss_dst_peer_id ss \<or> saved_at_least (ss_saved_conn_info ss) p v"

lemma saved_touch [simp]: "saved_at_least (touch_saved at k m) k' v = saved_at_least m k' v"
  by (auto simp: saved_at_least_def touch_saved_def split: option.splits)

lemma saved_down: "saved_at_least m k v \<Longrightarrow> v' \<le> v \<Longrightarrow> saved_at_least m k v'"
  by (auto simp: saved_at_least_def split: option.splits)

interpretation info_book: bookkeeping "check_saved_peer_info_update_to_date at" info_acked ss_pending_peer_info
  "\<lambda>m ss. ss\<lparr>ss_pending_peer_info := m\<rparr>" for at
  by unfold_locales (auto simp: check_saved_peer_info_update_to_date_def info_acked_def fun_eq_iff dest: saved_down)

interpretation conn_book: bookkeeping "check_saved_conn_version_update_to_date at" conn_acked ss_pending_conn_info
  "\<lambda>m ss. ss\<lparr>ss_pending_conn_info := m\<rparr>" for at
  by unfold_locales (auto simp: check_saved_conn_version_update_to_date_def conn_acked_def fun_eq_iff dest: saved_down)

section \<open>No peer information is forgotten\<close>

text \<open>
  \<open>has p v\<close> stands for the other side having version \<open>v\<close> of the information of peer \<open>p\<close>. A session keeps track when every entry of the
  store is there, or newer than the last exchange, or pending; and when what it counts as acknowledged is there.
\<close>

definition infos_ok :: "synced_route_info \<Rightarrow> bool" where
  "infos_ok s \<longleftrightarrow> kv_ok (sy_peer_infos s) \<and> sorted (map (\<lambda>e. the (rp_last_update (snd e))) (sy_peer_infos s))
     \<and> (\<forall>(p, info) \<in> set (sy_peer_infos s). rp_last_update info \<noteq> None \<and> (rp_version info \<noteq> 0 \<longrightarrow> rp_peer_id info = p))"

definition infos_tracked :: "(peer_id \<Rightarrow> version \<Rightarrow> bool) \<Rightarrow> synced_route_info \<Rightarrow> sync_route_session \<Rightarrow> bool" where
  "infos_tracked has s ss \<longleftrightarrow>
     kv_ok (ss_pending_peer_info ss)
     \<and> (\<forall>p info. kv_get (sy_peer_infos s) p = Some info \<longrightarrow>
          rp_version info = 0 \<or> p = ss_dst_peer_id ss \<or> has p (rp_version info)
          \<or> \<not> older_than (ss_last_sync_succ ss) (rp_last_update info)
          \<or> (\<exists>pv. kv_get (ss_pending_peer_info ss) p = Some pv \<and> rp_version info \<le> pv))
     \<and> (\<forall>p v. info_acked ss p v \<longrightarrow> v = 0 \<or> p = ss_dst_peer_id ss \<or> has p v)"

definition downward :: "(peer_id \<Rightarrow> version \<Rightarrow> bool) \<Rightarrow> bool" where
  "downward has \<longleftrightarrow> (\<forall>p v v'. has p v \<longrightarrow> v' \<le> v \<longrightarrow> has p v')"

lemma sorted_takeWhile_rev:
  fixes f :: "'a \<Rightarrow> nat"
  assumes "sorted (map f xs)" "x \<in> set xs" "\<not> f x < c"
  shows "x \<in> set (takeWhile (\<lambda>x. \<not> f x < c) (rev xs))"
  using assms
proof (induction xs rule: rev_induct)
  case (snoc y xs)
  from snoc.prems(1) have "\<forall>z \<in> set xs. f z \<le> f y" by (simp add: sorted_append)
  with snoc show ?case by (auto simp: sorted_append)
qed simp

text \<open>A scan changes the bookkeeping of a session and nothing else.\<close>

definition ss_core :: "sync_route_session \<Rightarrow> sync_route_session" where
  "ss_core ss = ss\<lparr>ss_saved_peer_info := [], ss_saved_conn_info := [], ss_saved_foreign := [], ss_pending_peer_info := [],
     ss_pending_conn_info := []\<rparr>"

lemma core_fields:
  assumes "ss_core ss' = ss_core ss"
  shows "ss_dst_peer_id ss' = ss_dst_peer_id ss" "ss_last_sync_succ ss' = ss_last_sync_succ ss"
    "ss_dst_session_id ss' = ss_dst_session_id ss" "ss_state_revision ss' = ss_state_revision ss"
  using assms by (cases ss; cases ss'; simp add: ss_core_def)+

lemma scan_recent_keeps:
  assumes "\<And>p v ss. F (snd (check p v ss)) = F ss" "\<And>p v ss. F (later p v ss) = F ss"
  shows "F (fst (scan_recent stop check later reach pick xs st)) = F (fst st)"
proof (induction xs arbitrary: st)
  case (Cons e xs)
  then show ?case by (cases e; cases st) (simp add: case_prod_unfold Let_def assms)
qed simp

lemma scan_pending_keeps:
  assumes "\<And>p v ss. F (snd (check p v ss)) = F ss"
  shows "F (fst (fst (scan_pending check reach store xs st))) = F (fst st)"
proof (induction xs arbitrary: st)
  case (Cons e xs)
  then show ?case by (cases e; cases st) (simp add: case_prod_unfold Let_def assms split: option.split)
qed simp

lemma check_core:
  "ss_core (snd (check_saved_peer_info_update_to_date at p v ss)) = ss_core ss"
  "ss_core (snd (check_saved_conn_version_update_to_date at p v ss)) = ss_core ss"
  "ss_core (snd (check_saved_foreign_network_version_update_to_date at key v ss)) = ss_core ss"
  "ss_core (ss\<lparr>ss_pending_peer_info := m\<rparr>) = ss_core ss" "ss_core (ss\<lparr>ss_pending_conn_info := m\<rparr>) = ss_core ss"
  by (simp_all add: ss_core_def check_saved_peer_info_update_to_date_def check_saved_conn_version_update_to_date_def
      check_saved_foreign_network_version_update_to_date_def)

definition sent_infos :: "route_peer_info list option \<Rightarrow> route_peer_info list" where
  "sent_infos r = (case r of Some infos \<Rightarrow> infos | None \<Rightarrow> [])"

lemma build_route_info_steps:
  assumes "build_route_info reach at s ss = (r, ss')"
  obtains ss1 picked1 ss2 picked2 kept where
    "scan_recent (\<lambda>info. older_than (ss_last_sync_succ ss) (rp_last_update info))
       (\<lambda>p info. check_saved_peer_info_update_to_date at (rp_peer_id info) (rp_version info))
       (\<lambda>p info ss. ss\<lparr>ss_pending_peer_info := kv_put p (rp_version info) (ss_pending_peer_info ss)\<rparr>)
       reach pick_always (rev (sy_peer_infos s)) (ss, []) = (ss1, picked1)"
    "scan_pending (check_saved_peer_info_update_to_date at) reach (sy_peer_infos s)
       (sort_key fst (ss_pending_peer_info ss1)) (ss1, picked1) = ((ss2, picked2), kept)"
    "sent_infos r = map snd picked2" "ss' = ss2\<lparr>ss_pending_peer_info := kept\<rparr>" "ss_core ss' = ss_core ss"
proof -
  obtain ss1 picked1 where one: "scan_recent (\<lambda>info. older_than (ss_last_sync_succ ss) (rp_last_update info))
       (\<lambda>p info. check_saved_peer_info_update_to_date at (rp_peer_id info) (rp_version info))
       (\<lambda>p info ss. ss\<lparr>ss_pending_peer_info := kv_put p (rp_version info) (ss_pending_peer_info ss)\<rparr>)
       reach pick_always (rev (sy_peer_infos s)) (ss, []) = (ss1, picked1)" by fastforce
  obtain ss2 picked2 kept where two: "scan_pending (check_saved_peer_info_update_to_date at) reach (sy_peer_infos s)
       (sort_key fst (ss_pending_peer_info ss1)) (ss1, picked1) = ((ss2, picked2), kept)" by (metis surj_pair)
  have r: "sent_infos r = map snd picked2" "ss' = ss2\<lparr>ss_pending_peer_info := kept\<rparr>"
    using assms by (auto simp: build_route_info_def one two Let_def sent_infos_def)
  have "ss_core (fst (ss1, picked1)) = ss_core (fst (ss, [] :: (peer_id \<times> route_peer_info) list))"
    unfolding one [symmetric] by (rule scan_recent_keeps) (simp_all only: check_core)
  moreover have "ss_core (fst (fst ((ss2, picked2), kept))) = ss_core (fst (ss1, picked1))"
    unfolding two [symmetric] by (rule scan_pending_keeps) (simp only: check_core)
  ultimately have "ss_core ss' = ss_core ss" by (simp add: r(2) check_core)
  then show thesis by (rule that [OF one two r])
qed

lemma infos_order:
  assumes "infos_ok s"
  shows "\<forall>(p, v) \<in> set (sy_peer_infos s). \<not> older_than c (rp_last_update v) \<longrightarrow>
    (p, v) \<in> set (takeWhile (\<lambda>(p, v). \<not> older_than c (rp_last_update v)) (rev (sy_peer_infos s)))"
proof (cases c)
  case None
  have "takeWhile (\<lambda>(p, v). \<not> older_than c (rp_last_update v)) (rev (sy_peer_infos s)) = rev (sy_peer_infos s)"
    by (auto simp: older_than_def None)
  then have "set (takeWhile (\<lambda>(p, v). \<not> older_than c (rp_last_update v)) (rev (sy_peer_infos s))) = set (sy_peer_infos s)" by (simp only: set_rev)
  then show ?thesis by blast
next
  case (Some t)
  let ?f = "\<lambda>e. the (rp_last_update (snd e))"
  have old: "older_than c (rp_last_update (snd e)) \<longleftrightarrow> ?f e < t" if "e \<in> set (sy_peer_infos s)" for e
    using assms that by (auto simp: infos_ok_def older_than_def Some)
  then have "takeWhile (\<lambda>e. \<not> older_than c (rp_last_update (snd e))) (rev (sy_peer_infos s)) = takeWhile (\<lambda>e. \<not> ?f e < t) (rev (sy_peer_infos s))"
    by (intro takeWhile_cong) auto
  moreover have "e \<in> set (takeWhile (\<lambda>e. \<not> ?f e < t) (rev (sy_peer_infos s)))"
    if "e \<in> set (sy_peer_infos s)" "\<not> ?f e < t" for e
    using assms that by (intro sorted_takeWhile_rev) (simp_all add: infos_ok_def)
  ultimately show ?thesis using old by (auto simp: case_prod_unfold)
qed

text \<open>A request carries every information that the other side may lack and whose peer is reachable; the rest stays pending.\<close>

lemma request_complete:
  assumes "infos_ok s" "infos_tracked has s ss" "downward has" "build_route_info reach at s ss = (r, ss')"
  shows "infos_tracked has s ss'
    \<and> (\<forall>info \<in> set (sent_infos r). \<exists>p. kv_get (sy_peer_infos s) p = Some info \<and> reach p)
    \<and> (\<forall>p info. kv_get (sy_peer_infos s) p = Some info \<and> rp_version info \<noteq> 0 \<and> p \<noteq> ss_dst_peer_id ss
         \<and> \<not> has p (rp_version info) \<longrightarrow>
         (reach p \<longrightarrow> info \<in> set (sent_infos r))
         \<and> (info \<in> set (sent_infos r) \<or> (\<exists>pv. kv_get (ss_pending_peer_info ss') p = Some pv \<and> rp_version info \<le> pv)))"
proof -
  let ?stop = "\<lambda>info. older_than (ss_last_sync_succ ss) (rp_last_update info)"
  from build_route_info_steps [OF assms(4)] obtain ss1 picked1 ss2 picked2 kept where
    one: "scan_recent ?stop
       (\<lambda>p info. check_saved_peer_info_update_to_date at (rp_peer_id info) (rp_version info))
       (\<lambda>p info ss. ss\<lparr>ss_pending_peer_info := kv_put p (rp_version info) (ss_pending_peer_info ss)\<rparr>)
       reach pick_always (rev (sy_peer_infos s)) (ss, []) = (ss1, picked1)"
    and two: "scan_pending (check_saved_peer_info_update_to_date at) reach (sy_peer_infos s)
       (sort_key fst (ss_pending_peer_info ss1)) (ss1, picked1) = ((ss2, picked2), kept)"
    and r: "sent_infos r = map snd picked2" "ss' = ss2\<lparr>ss_pending_peer_info := kept\<rparr>" "ss_core ss' = ss_core ss" .
  have ok: "kv_ok (sy_peer_infos s)" "kv_ok (ss_pending_peer_info ss)" using assms(1,2) by (simp_all add: infos_ok_def infos_tracked_def)
  have order: "\<forall>(p, v) \<in> set (sy_peer_infos s). \<not> ?stop v \<longrightarrow> (p, v) \<in> set (takeWhile (\<lambda>(p, v). \<not> ?stop v) (rev (sy_peer_infos s)))"
    by (rule infos_order [OF assms(1)])
  have ident: "\<forall>(p, v) \<in> set (sy_peer_infos s). info_acked ss (rp_peer_id v) (rp_version v) = info_acked ss p (rp_version v)"
    using assms(1) by (auto simp: infos_ok_def info_acked_def)
  note facts = info_book.scan_facts [OF appends_pick(2) ok one two]
    and complete = info_book.scan_complete [OF appends_pick(2) ok order ident one two]
  note core = core_fields [OF r(3)]
  have acked: "info_acked ss' = info_acked ss" using facts(1) by (simp add: r(2) info_acked_def fun_eq_iff)
  have due: "\<not> info_acked ss p (rp_version info)
      \<and> (\<not> ?stop info \<or> (\<exists>pv. kv_get (ss_pending_peer_info ss) p = Some pv \<and> rp_version info \<le> pv))"
    if "kv_get (sy_peer_infos s) p = Some info" "rp_version info \<noteq> 0" "p \<noteq> ss_dst_peer_id ss" "\<not> has p (rp_version info)" for p info
    using assms(2) that unfolding infos_tracked_def by blast
  have "infos_tracked has s ss'"
    unfolding infos_tracked_def acked core
  proof (intro conjI allI impI)
    show "kv_ok (ss_pending_peer_info ss')" using facts(2) by (simp add: r(2))
    show "v = 0 \<or> p = ss_dst_peer_id ss \<or> has p v" if "info_acked ss p v" for p v
      using assms(2) that unfolding infos_tracked_def by blast
    show "rp_version info = 0 \<or> p = ss_dst_peer_id ss \<or> has p (rp_version info) \<or> \<not> ?stop info
        \<or> (\<exists>pv. kv_get (ss_pending_peer_info ss') p = Some pv \<and> rp_version info \<le> pv)"
      if "kv_get (sy_peer_infos s) p = Some info" for p info
      using due [OF that] complete(2) [OF that] by (auto simp: r(2))
  qed
  moreover have "\<exists>p. kv_get (sy_peer_infos s) p = Some info \<and> reach p" if "info \<in> set (sent_infos r)" for info
  proof -
    from that obtain p where "(p, info) \<in> set picked2" by (auto simp: r(1))
    from complete(1) [OF this] show ?thesis by blast
  qed
  moreover have "(reach p \<longrightarrow> info \<in> set (sent_infos r))
      \<and> (info \<in> set (sent_infos r) \<or> (\<exists>pv. kv_get (ss_pending_peer_info ss') p = Some pv \<and> rp_version info \<le> pv))"
    if "kv_get (sy_peer_infos s) p = Some info" "rp_version info \<noteq> 0" "p \<noteq> ss_dst_peer_id ss" "\<not> has p (rp_version info)" for p info
    using due [OF that] complete(2) [OF that(1)] by (force simp: r(1,2))
  ultimately show ?thesis by blast
qed

lemma tracked_weaken:
  assumes "infos_tracked has s ss" "\<And>p v. v \<noteq> 0 \<Longrightarrow> has p v \<Longrightarrow> has' p v"
    "\<And>p info. kv_get (sy_peer_infos s') p = Some info \<Longrightarrow> kv_get (sy_peer_infos s) p = Some info
       \<or> rp_version info = 0 \<or> \<not> older_than (ss_last_sync_succ ss) (rp_last_update info)"
  shows "infos_tracked has' s' ss"
  using assms unfolding infos_tracked_def by blast

lemma tracked_clean:
  assumes "infos_tracked has s ss" "kv_ok (ss_saved_peer_info ss)"
  shows "infos_tracked has s (clean_dst_saved_map at ss)"
proof -
  have "info_acked ss p v" if "info_acked (clean_dst_saved_map at ss) p v" for p v
    using that assms(2) by (auto simp: info_acked_def clean_dst_saved_map_def saved_at_least_def kvm.get_retain_eq split: option.splits if_splits)
  then show ?thesis using assms(1) by (force simp: infos_tracked_def clean_dst_saved_map_def)
qed

definition store_has :: "synced_route_info \<Rightarrow> peer_id \<Rightarrow> version \<Rightarrow> bool" where
  "store_has t p v \<longleftrightarrow> (\<exists>info. kv_get (sy_peer_infos t) p = Some info \<and> v \<le> rp_version info)"

lemma store_has_known: "v \<noteq> 0 \<Longrightarrow> store_has t p v \<longleftrightarrow> (\<exists>info. known_info t p = Some info \<and> v \<le> rp_version info)"
  by (auto simp: store_has_def known_info_def split: option.splits)

lemma downward_store_has: "downward (store_has t)"
  by (auto simp: downward_def store_has_def intro: order_trans)

lemma received_has:
  assumes "sync_receive (Peer_Infos now me my_route dst infos raws) t = Some t'"
  shows "v \<noteq> 0 \<Longrightarrow> store_has t p v \<Longrightarrow> store_has t' p v"
    and "info \<in> set infos \<Longrightarrow> rp_version info \<noteq> 0 \<Longrightarrow> store_has t' (rp_peer_id info) (rp_version info)"
proof -
  let ?m = "Peer_Infos now me my_route dst infos raws"
  note look = receive_look(1) [OF assms]
  show "store_has t' p v" if v: "v \<noteq> 0" and "store_has t p v"
  proof -
    have "receive_all sync_receive [?m] t = Some t'" using assms by (simp del: sync_receive.simps)
    moreover from that obtain i where "known_info t p = Some i" "v \<le> rp_version i" by (auto simp: store_has_known)
    ultimately obtain i' where "known_info t' p = Some i'" "v \<le> rp_version i'"
      using infos.versions_grow [of "[?m]" t t' p i] by (metis order_trans)
    with v show ?thesis by (auto simp: store_has_known)
  qed
  show "store_has t' (rp_peer_id info) (rp_version info)" if "info \<in> set infos" and v: "rp_version info \<noteq> 0"
  proof -
    let ?k = "rp_peer_id info" and ?i = "info\<lparr>rp_last_update := None\<rparr>"
    have off: "?i \<in> offered (known_info t) (info_updates ?m) ?k" using that by (auto simp: offered_def)
    then obtain i' where i': "known_info t' ?k = Some i'"
      using deliver_all [of rp_version "info_updates ?m" "known_info t" ?k] unfolding look by (metis empty_iff not_None_eq)
    then have "rp_version ?i \<le> rp_version i'"
      using deliver_all [of rp_version "info_updates ?m" "known_info t" ?k] off unfolding look by blast
    with i' v show ?thesis by (auto simp: store_has_known)
  qed
qed

definition commit_infos :: "nat \<Rightarrow> route_peer_info list \<Rightarrow> peer_id \<Rightarrow> nat \<Rightarrow> sync_route_session \<Rightarrow> sync_route_session" where
  "commit_infos at infos dst next ss = update_last_sync_succ_timestamp next (update_dst_saved_peer_info_version at infos dst ss)"

lemma saved_save: "saved_at_least (save_version at k v m) k' v' \<longleftrightarrow> saved_at_least m k' v' \<or> k' = k \<and> (v' \<le> v \<or> v' = 0)"
  by (auto simp: saved_at_least_def save_version_def vt_set_if_larger_def set_if_larger_def vt_default_def le_max_iff_disj split: option.splits if_splits)

lemma commit_saved:
  "saved_at_least (ss_saved_peer_info (commit_infos at infos dst next ss)) p v \<longleftrightarrow>
     saved_at_least (ss_saved_peer_info ss) p v
     \<or> p \<noteq> dst \<and> (\<exists>info \<in> set infos. rp_peer_id info = p \<and> (v \<le> rp_version info \<or> v = 0))"
proof -
  have "saved_at_least (fold (\<lambda>info m. if rp_peer_id info = dst then m else save_version at (rp_peer_id info) (rp_version info) m) infos m) p v
     \<longleftrightarrow> saved_at_least m p v \<or> p \<noteq> dst \<and> (\<exists>info \<in> set infos. rp_peer_id info = p \<and> (v \<le> rp_version info \<or> v = 0))" for m
    by (induction infos arbitrary: m) (auto simp: saved_save)
  then show ?thesis by (simp add: commit_infos_def update_last_sync_succ_timestamp_def update_dst_saved_peer_info_version_def)
qed

lemma commit_tracked:
  assumes has: "downward has'" "\<And>info. info \<in> set infos \<Longrightarrow> rp_version info \<noteq> 0 \<Longrightarrow> has' (rp_peer_id info) (rp_version info)"
    and tracked: "infos_tracked has' s ss"
    and left: "\<And>p info. kv_get (sy_peer_infos s') p = Some info \<Longrightarrow>
      rp_version info = 0 \<or> p = ss_dst_peer_id ss \<or> has' p (rp_version info)
      \<or> (\<exists>pv. kv_get (ss_pending_peer_info ss) p = Some pv \<and> rp_version info \<le> pv)
      \<or> \<not> older_than (Some next) (rp_last_update info) \<and> \<not> older_than (ss_last_sync_succ ss) (rp_last_update info)"
  shows "infos_tracked has' s' (commit_infos at infos (ss_dst_peer_id ss) next ss)"
proof -
  let ?ss = "commit_infos at infos (ss_dst_peer_id ss) next ss"
  have same: "ss_dst_peer_id ?ss = ss_dst_peer_id ss" "ss_pending_peer_info ?ss = ss_pending_peer_info ss"
    by (simp_all add: commit_infos_def update_last_sync_succ_timestamp_def update_dst_saved_peer_info_version_def)
  have cursor: "ss_last_sync_succ ?ss = Some next \<or> ss_last_sync_succ ?ss = ss_last_sync_succ ss"
    by (auto simp: commit_infos_def update_last_sync_succ_timestamp_def update_dst_saved_peer_info_version_def)
  have "v = 0 \<or> p = ss_dst_peer_id ss \<or> has' p v" if "info_acked ?ss p v" for p v
  proof -
    from that consider "info_acked ss p v" | info where "info \<in> set infos" "rp_peer_id info = p" "v \<le> rp_version info" "v \<noteq> 0"
      by (auto simp: info_acked_def same commit_saved)
    then show ?thesis
    proof cases
      case 1
      with tracked show ?thesis unfolding infos_tracked_def by blast
    next
      case (2 info)
      then have "rp_version info \<noteq> 0" by auto
      with has 2 show ?thesis unfolding downward_def by blast
    qed
  qed
  moreover have "kv_ok (ss_pending_peer_info ?ss)" using tracked by (simp add: infos_tracked_def same)
  ultimately show ?thesis unfolding infos_tracked_def same using left cursor by metis
qed

lemma tracked_missing_info: "infos_tracked has s ss \<Longrightarrow> infos_tracked has s (request_missing_info s p ss)"
  by (auto simp: infos_tracked_def request_missing_info_def info_acked_def saved_at_least_def kvm.ok_put split: option.splits)

definition infos_view :: "sync_route_session \<Rightarrow> peer_id \<times> (peer_id, version_and_touch_time) kvs \<times> (peer_id, version) kvs \<times> nat option" where
  "infos_view ss = (ss_dst_peer_id ss, ss_saved_peer_info ss, ss_pending_peer_info ss, ss_last_sync_succ ss)"

lemma tracked_cong: "infos_view ss = infos_view ss' \<Longrightarrow> infos_tracked has s ss = infos_tracked has s ss'"
  by (simp add: infos_tracked_def infos_view_def info_acked_def)

lemma tracked_missing:
  assumes "infos_tracked has s ss"
  shows "infos_tracked has s (request_missing_peer_infos s resp ss)"
proof -
  have conn: "infos_tracked has s (request_missing_conn s p ss)" if "infos_tracked has s ss" for p ss
    using that tracked_cong [of "request_missing_conn s p ss" ss has s]
    by (auto simp: request_missing_conn_def infos_view_def split: option.splits)
  have "infos_tracked has s (fold (request_missing_info s) ps ss)" if "infos_tracked has s ss" for ps ss
    using that by (induction ps arbitrary: ss) (auto intro: tracked_missing_info)
  moreover have "infos_tracked has s (fold (request_missing_conn s) ps ss)" if "infos_tracked has s ss" for ps ss
    using that by (induction ps arbitrary: ss) (auto intro: conn)
  ultimately show ?thesis using assms by (simp add: request_missing_peer_infos_def)
qed

lemma commit_keeps_view:
  "infos_view (update_dst_saved_conn_info_version at c dst ss) = infos_view ss"
  "update_dst_saved_foreign_network_version at f dst ss = Some ss' \<Longrightarrow> infos_view ss' = infos_view ss"
  by (auto simp: infos_view_def update_dst_saved_conn_info_version_def update_dst_saved_conn_bitmap_version_def
      update_dst_saved_conn_peer_list_version_def update_dst_saved_foreign_network_version_def split: conn_info.splits)

lemma commit_response_view:
  assumes "commit_response at s a resp ss = Some ss'" "sa_infos a = Some infos" "sr_session_id resp = ss_dst_session_id ss"
  obtains m where "infos_view m = infos_view (commit_infos at infos (ss_dst_peer_id ss) (sa_next a) ss)"
    "ss' = request_missing_peer_infos s resp m"
proof -
  have remote: "infos_view (update_remote_state (ss_dst_session_id ss) i (ss\<lparr>ss_rpc_tx_count := n, ss_last_contact := at\<rparr>)) = infos_view ss" for i n
    by (simp add: infos_view_def update_remote_state_def Let_def)
  have step: "infos_view (update_last_sync_succ_timestamp nxt m) = infos_view (commit_infos at infos dst nxt ss)"
    if "infos_view m = infos_view (update_dst_saved_peer_info_version at infos dst m')" "infos_view m' = infos_view ss" for m m' dst nxt
    using that by (auto simp: infos_view_def commit_infos_def update_last_sync_succ_timestamp_def update_dst_saved_peer_info_version_def)
  let ?m' = "update_remote_state (ss_dst_session_id ss) (sr_is_initiator resp)
      (ss\<lparr>ss_rpc_tx_count := ss_rpc_tx_count ss + 1, ss_last_contact := at\<rparr>)"
  let ?m1 = "update_dst_saved_peer_info_version at infos (ss_dst_peer_id ss) ?m'"
  let ?m2 = "case sa_conn a of Some c \<Rightarrow> update_dst_saved_conn_info_version at c (ss_dst_peer_id ss) ?m1 | None \<Rightarrow> ?m1"
  obtain m where
    last: "(case sa_foreign a of Some f \<Rightarrow> update_dst_saved_foreign_network_version at f (ss_dst_peer_id ss) ?m2 | None \<Rightarrow> Some ?m2) = Some m"
    and m2: "ss' = request_missing_peer_infos s resp (update_last_sync_succ_timestamp (sa_next a) m)"
    using assms by (auto simp: commit_response_def Let_def bind_eq_Some_conv)
  have "infos_view m = infos_view ?m2" using last commit_keeps_view(2) by (cases "sa_foreign a") auto
  then have m1: "infos_view m = infos_view ?m1" by (cases "sa_conn a") (simp_all add: commit_keeps_view(1))
  show thesis by (rule that [OF step [OF m1 remote] m2])
qed

text \<open>C3: No peer information is lost between two peers. When a request is built from a session that keeps track of what the other
  side has, the other side takes it in, and the answer is recorded, then the other side has at least the
  version of the sender for every reachable peer except itself, and the session still keeps track, also of what the store has learned in the meantime.
  Clean-ups of old acknowledgements do not disturb this.\<close>

theorem exchange_completes:
  assumes "infos_ok s" "infos_tracked (store_has t) s ss" "kv_ok (ss_saved_peer_info ss)"
    and "build_route_info reach at s (clean_dst_saved_map at ss) = (Some infos, ss')"
    and "sync_receive (Peer_Infos now (ss_dst_peer_id ss) dst_route me infos raws) t = Some t'"
    and "\<And>p info. kv_get (sy_peer_infos s') p = Some info \<Longrightarrow> kv_get (sy_peer_infos s) p = Some info
      \<or> \<not> older_than (Some (sa_next a)) (rp_last_update info) \<and> \<not> older_than (ss_last_sync_succ ss) (rp_last_update info)"
    and "commit_response at s' a resp ss' = Some ss''" "sa_infos a = Some infos" "sr_session_id resp = ss_dst_session_id ss"
  shows "infos_tracked (store_has t') s' ss''
    \<and> (\<forall>p info. kv_get (sy_peer_infos s) p = Some info \<and> rp_version info \<noteq> 0 \<and> p \<noteq> ss_dst_peer_id ss \<and> reach p
         \<longrightarrow> store_has t' p (rp_version info))"
proof -
  let ?clean = "clean_dst_saved_map at ss"
  note complete = request_complete [OF assms(1) tracked_clean [OF assms(2,3)] downward_store_has assms(4)]
  obtain core: "ss_core ss' = ss_core ?clean" using build_route_info_steps [OF assms(4)] by blast
  have same: "ss_dst_peer_id ss' = ss_dst_peer_id ss" "ss_last_sync_succ ss' = ss_last_sync_succ ss" "ss_dst_session_id ss' = ss_dst_session_id ss"
    using core_fields(1-3) [OF core] by (simp_all add: clean_dst_saved_map_def)
  note grow = received_has(1) [OF assms(5)] and got = received_has(2) [OF assms(5)]
  have id: "rp_peer_id info = p" if "kv_get (sy_peer_infos s) p = Some info" "rp_version info \<noteq> 0" for p info
    using assms(1) that kv_ok_mem [of "sy_peer_infos s" p info] by (auto simp: infos_ok_def)
  have entry: "(reach p \<longrightarrow> store_has t' p (rp_version info)) \<and>
      (store_has t' p (rp_version info) \<or> (\<exists>pv. kv_get (ss_pending_peer_info ss') p = Some pv \<and> rp_version info \<le> pv))"
    if "kv_get (sy_peer_infos s) p = Some info" "rp_version info \<noteq> 0" "p \<noteq> ss_dst_peer_id ss" for p info
  proof (cases "store_has t p (rp_version info)")
    case True
    with grow that(2) show ?thesis by blast
  next
    case False
    with complete that have "(reach p \<longrightarrow> info \<in> set infos)
        \<and> (info \<in> set infos \<or> (\<exists>pv. kv_get (ss_pending_peer_info ss') p = Some pv \<and> rp_version info \<le> pv))"
      by (auto simp: sent_infos_def clean_dst_saved_map_def)
    with got [of info] id [OF that(1,2)] that(2) show ?thesis by blast
  qed
  have "infos_tracked (store_has t) s ss'" using complete by blast
  then have tracked: "infos_tracked (store_has t') s ss'" by (rule tracked_weaken) (use grow in blast)+
  have committed: "infos_tracked (store_has t') s' (commit_infos at infos (ss_dst_peer_id ss') (sa_next a) ss')"
  proof (rule commit_tracked [OF downward_store_has got tracked])
    fix p info
    assume "kv_get (sy_peer_infos s') p = Some info"
    from assms(6) [OF this] entry [of p info]
    show "rp_version info = 0 \<or> p = ss_dst_peer_id ss' \<or> store_has t' p (rp_version info)
        \<or> (\<exists>pv. kv_get (ss_pending_peer_info ss') p = Some pv \<and> rp_version info \<le> pv)
        \<or> \<not> older_than (Some (sa_next a)) (rp_last_update info) \<and> \<not> older_than (ss_last_sync_succ ss') (rp_last_update info)"
      unfolding same by blast
  qed
  from assms(9) have "sr_session_id resp = ss_dst_session_id ss'" by (simp add: same)
  from commit_response_view [OF assms(7,8) this] obtain m where
    m: "infos_view m = infos_view (commit_infos at infos (ss_dst_peer_id ss') (sa_next a) ss')" "ss'' = request_missing_peer_infos s' resp m" .
  from tracked_missing committed have "infos_tracked (store_has t') s' ss''" unfolding m(2) tracked_cong [OF m(1), symmetric] by blast
  with entry show ?thesis by blast
qed

section \<open>Answers to old requests\<close>

datatype route_session_op =
    Set_Initiator bool
  | Inbound u64 bool
  | Answer u64 bool
  | Rejected u64
  | Check_Liveness nat
  | Clean nat
  | Sent nat "route_peer_info list" peer_id

fun run_op :: "route_session_op \<Rightarrow> sync_route_session \<Rightarrow> sync_route_session" where
  "run_op (Set_Initiator b) ss = update_initiator_flag b ss"
| "run_op (Inbound sid i) ss = snd (admit_inbound sid i ss)"
| "run_op (Answer sid i) ss = update_remote_state sid i ss"
| "run_op (Rejected expected) ss = snd (clear_dst_initiator_if_session_unchanged expected ss)"
| "run_op (Check_Liveness at) ss = snd (clear_stale_dst_initiator at ss)"
| "run_op (Clean at) ss = clean_dst_saved_map at ss"
| "run_op (Sent at infos dst) ss = update_dst_saved_peer_info_version at infos dst ss"

definition roles :: "sync_route_session \<Rightarrow> u64 \<times> bool \<times> bool" where
  "roles ss = (ss_dst_session_id ss, ss_we_are_initiator ss, ss_dst_is_initiator ss)"

lemma remote_revision:
  "ss_state_revision (update_remote_state sid i ss) = ss_state_revision ss + (if roles (update_remote_state sid i ss) = roles ss then 0 else 1)"
  by (auto simp: update_remote_state_def roles_def Let_def)

lemma op_revision: "ss_state_revision (run_op op ss) = ss_state_revision ss + (if roles (run_op op ss) = roles ss then 0 else 1)"
proof (cases op)
  case (Set_Initiator b)
  then show ?thesis by (auto simp: update_initiator_flag_def roles_def)
next
  case (Inbound sid i)
  then show ?thesis by (auto simp: admit_inbound_def remote_revision)
next
  case (Answer sid i)
  then show ?thesis by (simp add: remote_revision)
next
  case (Rejected expected)
  then show ?thesis by (auto simp: clear_dst_initiator_if_session_unchanged_def remote_revision)
next
  case (Check_Liveness at)
  then show ?thesis by (auto simp: clear_stale_dst_initiator_def remote_revision)
qed (simp_all add: clean_dst_saved_map_def update_dst_saved_peer_info_version_def roles_def)

lemma run_revision:
  "\<exists>n \<le> length ops. ss_state_revision (fold run_op ops ss) = ss_state_revision ss + of_nat n
     \<and> (n = 0 \<longrightarrow> (\<forall>k \<le> length ops. roles (fold run_op (take k ops) ss) = roles ss))"
proof (induction ops arbitrary: ss)
  case Nil
  then show ?case by simp
next
  case (Cons op ops)
  from Cons.IH [of "run_op op ss"] obtain n where n: "n \<le> length ops"
    "ss_state_revision (fold run_op ops (run_op op ss)) = ss_state_revision (run_op op ss) + of_nat n"
    "n = 0 \<longrightarrow> (\<forall>k \<le> length ops. roles (fold run_op (take k ops) (run_op op ss)) = roles (run_op op ss))" by blast
  let ?n = "if roles (run_op op ss) = roles ss then n else Suc n"
  have "ss_state_revision (fold run_op (op # ops) ss) = ss_state_revision ss + of_nat ?n" using n(2) by (simp add: op_revision)
  moreover have "roles (fold run_op (take k (op # ops)) ss) = roles ss" if "?n = 0" "k \<le> length (op # ops)" for k
    using that n(3) by (cases k) (auto split: if_splits)
  moreover have "?n \<le> length (op # ops)" using n(1) by simp
  ultimately show ?case by blast
qed

text \<open>C11: The answer to a request is used only when, at no time since the request was sent, the identity of the other side's
  session or the role of either side was different, whatever was received, sent, cleaned up or timed out in the meantime (in fewer
  than \<open>2 ^ 64\<close> events). Otherwise the session is left as it is.\<close>

theorem stale_answers_discarded:
  assumes "length ops < 2 ^ 64" "sa_snapshot a = request_snapshot ss" "ss' = fold run_op ops ss"
  shows "sync_finish at public cur s a ret ss' = Some ss'
    \<or> cur \<and> (\<forall>k \<le> length ops. roles (fold run_op (take k ops) ss) = roles ss)"
proof (cases "cur \<and> request_is_current (sa_snapshot a) ss'")
  case True
  then have "ss_state_revision (fold run_op ops ss) = ss_state_revision ss"
    using assms(2,3) by (simp add: request_is_current_def request_snapshot_def)
  moreover from run_revision [of ops ss] obtain n where n: "n \<le> length ops"
    "ss_state_revision (fold run_op ops ss) = ss_state_revision ss + of_nat n"
    "n = 0 \<longrightarrow> (\<forall>k \<le> length ops. roles (fold run_op (take k ops) ss) = roles ss)" by blast
  ultimately have "(of_nat n :: u64) = 0" by simp
  moreover have "n < 2 ^ 64" using n(1) assms(1) by simp
  ultimately have "n = 0" by (auto simp: word_of_nat_eq_0_iff dest: nat_dvd_not_less [rotated])
  with n(3) True show ?thesis by blast
next
  case False
  then show ?thesis by (simp add: sync_finish_def)
qed

section \<open>Where updates are lost\<close>

lemma recent_nothing:
  assumes "\<forall>e \<in> set xs. stop (snd e)"
  shows "scan_recent stop check later reach pick xs st = st"
proof (cases xs)
  case (Cons e rest)
  then show ?thesis using assms by (cases e; cases st) simp
qed simp

text \<open>C27: When an answer shows that the other side has begun a new session, all acknowledgements are dropped, but the time
  of the last exchange is set at once. From then on nothing that was stored before is sent, although the new session has not
  acknowledged any of it, unless the other side asks.\<close>

theorem new_generation_not_resent:
  assumes "commit_response at s a resp ss = Some ss'" "sr_session_id resp \<noteq> ss_dst_session_id ss"
    and "sa_infos a = None" "sr_missing_peer_ids resp = []" "sr_missing_conn_peer_ids resp = []"
    and "\<forall>(p, info) \<in> set (sy_peer_infos s). older_than (Some (sa_next a)) (rp_last_update info)"
  shows "ss_saved_peer_info ss' = [] \<and> fst (build_route_info reach at' s ss') = None"
proof -
  let ?m = "update_remote_state (sr_session_id resp) (sr_is_initiator resp) (ss\<lparr>ss_rpc_tx_count := ss_rpc_tx_count ss + 1, ss_last_contact := at\<rparr>)"
  have remote: "infos_view ?m = (ss_dst_peer_id ss, [], [], None)"
    using assms(2) by (simp add: infos_view_def update_remote_state_def Let_def)
  let ?m2 = "case sa_conn a of Some c \<Rightarrow> update_dst_saved_conn_info_version at c (ss_dst_peer_id ss) ?m | None \<Rightarrow> ?m"
  obtain m where
    last: "(case sa_foreign a of Some f \<Rightarrow> update_dst_saved_foreign_network_version at f (ss_dst_peer_id ss) ?m2 | None \<Rightarrow> Some ?m2) = Some m"
    and ss': "ss' = update_last_sync_succ_timestamp (sa_next a) m"
    using assms(1,3-5) by (auto simp: commit_response_def Let_def bind_eq_Some_conv request_missing_peer_infos_def)
  have "infos_view m = infos_view ?m2" using last commit_keeps_view(2) by (cases "sa_foreign a") auto
  then have "infos_view m = (ss_dst_peer_id ss, [], [], None)" by (cases "sa_conn a") (simp_all add: commit_keeps_view(1) remote)
  then have view: "ss_saved_peer_info ss' = []" "ss_pending_peer_info ss' = []" "ss_last_sync_succ ss' = Some (sa_next a)"
    by (simp_all add: ss' infos_view_def update_last_sync_succ_timestamp_def)
  have "\<forall>e \<in> set (rev (sy_peer_infos s)). older_than (ss_last_sync_succ ss') (rp_last_update (snd e))"
    using assms(6) by (auto simp: view)
  then have "fst (build_route_info reach at' s ss') = None"
    by (simp add: build_route_info_def view(2) recent_nothing)
  with view(1) show ?thesis by blast
qed

definition conns_view :: "sync_route_session \<Rightarrow> peer_id \<times> (peer_id, version_and_touch_time) kvs \<times> (peer_id, version) kvs \<times> nat option" where
  "conns_view ss = (ss_dst_peer_id ss, ss_saved_conn_info ss, ss_pending_conn_info ss, ss_last_sync_succ ss)"

lemma conns_view_keep:
  "conns_view (update_dst_saved_peer_info_version at infos dst ss) = conns_view ss"
  "update_dst_saved_foreign_network_version at f dst ss = Some ss' \<Longrightarrow> conns_view ss' = conns_view ss"
  by (auto simp: conns_view_def update_dst_saved_peer_info_version_def update_dst_saved_foreign_network_version_def)

lemma saved_bitmap:
  "saved_at_least (fold (save_conn_row at dst) pvs m) p v \<longleftrightarrow>
     saved_at_least m p v \<or> p \<noteq> dst \<and> (\<exists>pv \<in> set pvs. pv_peer_id pv = p \<and> (v \<le> pv_version pv \<or> v = 0))"
  by (induction pvs arbitrary: m) (auto simp: save_conn_row_def saved_save)

text \<open>C28: A request that carries the cached bitmap can lose a row. When the row of a peer in the table is newer than in the
  bitmap that was sent, the answer acknowledges only the old version, and yet the next request holds no connections at
  all.\<close>

theorem stale_bitmap_not_resent:
  assumes "commit_response at s a resp ss = Some ss'" "sr_session_id resp = ss_dst_session_id ss"
    and "sa_conn a = Some (ConnBitmap b)" "sr_missing_peer_ids resp = []" "sr_missing_conn_peer_ids resp = []"
    and "ss_pending_conn_info ss = []" "\<forall>(q, c) \<in> set (sy_conn_map s). rc_last_update c < sa_next a"
    and "kv_get (sy_conn_map s) p = Some c" "rc_version c \<noteq> 0" "p \<noteq> ss_dst_peer_id ss" "\<not> saved_at_least (ss_saved_conn_info ss) p (rc_version c)"
      "\<forall>pv \<in> set (cb_peer_ids b). pv_peer_id pv = p \<longrightarrow> pv_version pv < rc_version c"
  shows "\<not> conn_acked ss' p (rc_version c) \<and> fst (build_conn_info reach at' force b' s dst ss') = None"
proof -
  let ?m = "update_remote_state (ss_dst_session_id ss) (sr_is_initiator resp) (ss\<lparr>ss_rpc_tx_count := ss_rpc_tx_count ss + 1, ss_last_contact := at\<rparr>)"
  let ?saved = "fold (save_conn_row at (ss_dst_peer_id ss)) (cb_peer_ids b) (ss_saved_conn_info ss)"
  let ?m1 = "case sa_infos a of Some infos \<Rightarrow> update_dst_saved_peer_info_version at infos (ss_dst_peer_id ss) ?m | None \<Rightarrow> ?m"
  let ?m2 = "update_dst_saved_conn_info_version at (ConnBitmap b) (ss_dst_peer_id ss) ?m1"
  have "conns_view ?m = (ss_dst_peer_id ss, ss_saved_conn_info ss, [], ss_last_sync_succ ss)"
    by (simp add: conns_view_def update_remote_state_def Let_def assms(6))
  then have "conns_view ?m1 = (ss_dst_peer_id ss, ss_saved_conn_info ss, [], ss_last_sync_succ ss)"
    by (cases "sa_infos a") (simp_all add: conns_view_keep)
  then have m2: "conns_view ?m2 = (ss_dst_peer_id ss, ?saved, [], ss_last_sync_succ ss)"
    by (simp add: conns_view_def update_dst_saved_conn_info_version_def update_dst_saved_conn_bitmap_version_def)
  obtain m where
    last: "(case sa_foreign a of Some f \<Rightarrow> update_dst_saved_foreign_network_version at f (ss_dst_peer_id ss) ?m2 | None \<Rightarrow> Some ?m2) = Some m"
    and ss': "ss' = update_last_sync_succ_timestamp (sa_next a) m"
    using assms(1-5) by (auto simp: commit_response_def Let_def bind_eq_Some_conv request_missing_peer_infos_def)
  have "conns_view m = (ss_dst_peer_id ss, ?saved, [], ss_last_sync_succ ss)"
    using last conns_view_keep(2) m2 by (cases "sa_foreign a") auto
  then have view: "ss_dst_peer_id ss' = ss_dst_peer_id ss" "ss_saved_conn_info ss' = ?saved" "ss_pending_conn_info ss' = []"
    "\<exists>t \<ge> sa_next a. ss_last_sync_succ ss' = Some t"
    by (auto simp: ss' conns_view_def update_last_sync_succ_timestamp_def split: option.splits)
  have "\<not> conn_acked ss' p (rc_version c)"
    using assms(9-12) by (auto simp: conn_acked_def view(1,2) saved_bitmap)
  moreover have "\<forall>e \<in> set (rev (sy_conn_map s)). older_than (ss_last_sync_succ ss') (Some (rc_last_update (snd e)))"
    using assms(7) view(4) by (force simp: older_than_def)
  then have "fst (build_conn_peer_list reach at' s ss') = None"
    by (simp add: build_conn_peer_list_def view(3) recent_nothing)
  then have "fst (build_conn_info reach at' force b' s dst ss') = None"
    by (simp add: build_conn_info_def Let_def case_prod_unfold)
  ultimately show ?thesis by blast
qed

lemma foreign_rows_panic:
  "save_foreign_rows at dst rows m = None \<longleftrightarrow> (\<exists>(k, e) \<in> set rows. k = None \<or> e = None \<and> fk_peer_id (the k) \<noteq> dst)"
proof (induction rows arbitrary: m)
  case (Cons row rows)
  obtain k e where row: "row = (k, e)" by (cases row)
  consider "k = None" | key where "k = Some key" "fk_peer_id key = dst" | key where "k = Some key" "fk_peer_id key \<noteq> dst" "e = None"
    | key entry where "k = Some key" "fk_peer_id key \<noteq> dst" "e = Some entry" by fastforce
  then show ?case by cases (simp_all add: row Cons.IH)
qed simp

section \<open>Samples\<close>

definition sample_known :: "peer_id \<Rightarrow> nat \<Rightarrow> peer_id \<times> route_peer_info" where
  "sample_known p t = (p, (new_route_peer_info_with_version ''2.4'')\<lparr>rp_peer_id := p, rp_version := 1, rp_last_update := Some t\<rparr>)"

definition sample_table :: synced_route_info where
  "sample_table = (synced_new ''2.4'')\<lparr>sy_peer_infos := [sample_known 1 5, sample_known 3 6],
     sy_conn_map := [(1, \<lparr>rc_connected_peers = [2, 3], rc_version = 2, rc_last_update = 6\<rparr>)]\<rparr>"

definition sample_session :: sync_route_session where
  "sample_session = route_session_new 0 11 1 2"

definition sample_attempt :: "route_peer_info list option \<Rightarrow> conn_info option \<Rightarrow> sync_attempt" where
  "sample_attempt infos conn = \<lparr>sa_snapshot = request_snapshot sample_session, sa_expected_dst_session_id = 0, sa_infos = infos,
     sa_conn = conn, sa_foreign = None, sa_next = 10\<rparr>"

definition sample_response :: "u64 \<Rightarrow> sync_response" where
  "sample_response sid = \<lparr>sr_is_initiator = False, sr_session_id = sid, sr_error = None, sr_missing_peer_ids = [], sr_missing_conn_peer_ids = []\<rparr>"

lemma sample_build:
  "build_route_info (\<lambda>_. True) 0 sample_table (clean_dst_saved_map 0 sample_session) =
     (Some [snd (sample_known 3 6), snd (sample_known 1 5)], sample_session)"
  by (simp add: build_route_info_def clean_dst_saved_map_def sample_session_def route_session_new_def sample_table_def synced_new_def
      sample_known_def new_route_peer_info_with_version_def older_than_def check_saved_peer_info_update_to_date_def
      saved_at_least_def touch_saved_def pick_always_def kv_retain_def)

lemma sample_received: "\<exists>t'. sync_receive (Peer_Infos 20 2 0 1 [snd (sample_known 3 6), snd (sample_known 1 5)] [[], []]) (synced_new ''2.4'') = Some t'"
  by (simp add: update_peer_infos_def nth_opt_def check_duplicate_peer_id_def sample_known_def new_route_peer_info_with_version_def
      insert_newer_info_def synced_new_def Let_def)

theorem exchange_completes_witness:
  "\<exists>t'. sync_receive (Peer_Infos 20 2 0 1 [snd (sample_known 3 6), snd (sample_known 1 5)] [[], []]) (synced_new ''2.4'') = Some t'
     \<and> store_has t' 3 1"
proof -
  let ?infos = "[snd (sample_known 3 6), snd (sample_known 1 5)]"
  obtain t' where t': "sync_receive (Peer_Infos 20 2 0 1 ?infos [[], []]) (synced_new ''2.4'') = Some t'" using sample_received by blast
  have dst: "ss_dst_peer_id sample_session = 2" by (simp add: sample_session_def route_session_new_def)
  have ok: "infos_ok sample_table" "infos_tracked (store_has (synced_new ''2.4'')) sample_table sample_session"
    "kv_ok (ss_saved_peer_info sample_session)"
    by (auto simp: infos_ok_def infos_tracked_def sample_table_def sample_known_def sample_session_def route_session_new_def kv_ok_def
        older_than_def info_acked_def saved_at_least_def)
  obtain ss'' where c: "commit_response 0 sample_table (sample_attempt (Some ?infos) None) (sample_response 0) sample_session = Some ss''"
    by (simp add: commit_response_def sample_attempt_def Let_def)
  have known: "kv_get (sy_peer_infos sample_table) 3 = Some (snd (sample_known 3 6))" "rp_version (snd (sample_known 3 6)) = 1"
    by (simp_all add: sample_table_def sample_known_def kv_get_def)
  have "infos_tracked (store_has t') sample_table ss'' \<and> (\<forall>p info. kv_get (sy_peer_infos sample_table) p = Some info
      \<and> rp_version info \<noteq> 0 \<and> p \<noteq> ss_dst_peer_id sample_session \<and> True \<longrightarrow> store_has t' p (rp_version info))"
    by (rule exchange_completes [OF ok sample_build t' [folded dst] disjI1 c])
      (simp_all add: sample_attempt_def sample_response_def sample_session_def route_session_new_def)
  note all = this [THEN conjunct2, rule_format, of 3 "snd (sample_known 3 6)"]
  have "store_has t' 3 (rp_version (snd (sample_known 3 6)))" by (rule all) (simp add: known dst)
  with t' known(2) show ?thesis by auto
qed

theorem stale_answers_discarded_witness:
  "sync_finish 0 False True sample_table (sample_attempt None None) (Some (sample_response 7)) (run_op (Inbound 9 True) sample_session)
     = Some (run_op (Inbound 9 True) sample_session)"
proof -
  have "roles (run_op (Inbound 9 True) sample_session) \<noteq> roles sample_session"
    by (simp add: sample_session_def route_session_new_def admit_inbound_def update_remote_state_def roles_def Let_def)
  then have "\<not> (\<forall>k \<le> length [Inbound 9 True]. roles (fold run_op (take k [Inbound 9 True]) sample_session) = roles sample_session)"
    by (auto intro!: exI [of _ "1 :: nat"])
  moreover have hyps: "length [Inbound 9 True] < 2 ^ 64" "sa_snapshot (sample_attempt None None) = request_snapshot sample_session"
    "run_op (Inbound 9 True) sample_session = fold run_op [Inbound 9 True] sample_session"
    by (simp_all add: sample_attempt_def)
  ultimately show ?thesis
    using stale_answers_discarded [OF hyps, of 0 False True sample_table "Some (sample_response 7)"] by blast
qed

theorem new_generation_not_resent_witness:
  "\<exists>ss'. commit_response 0 sample_table (sample_attempt None None) (sample_response 7) sample_session = Some ss'
     \<and> \<not> info_acked ss' 3 1 \<and> fst (build_route_info (\<lambda>_. True) 20 sample_table ss') = None"
proof -
  obtain ss' where c: "commit_response 0 sample_table (sample_attempt None None) (sample_response 7) sample_session = Some ss'"
    by (simp add: commit_response_def sample_attempt_def Let_def)
  have dst: "ss_dst_peer_id ss' = 2"
    using c by (auto simp: commit_response_def sample_attempt_def sample_response_def sample_session_def route_session_new_def Let_def
        request_missing_peer_infos_def update_last_sync_succ_timestamp_def update_remote_state_def)
  have "ss_saved_peer_info ss' = [] \<and> fst (build_route_info (\<lambda>_. True) 20 sample_table ss') = None"
    by (rule new_generation_not_resent [OF c])
      (auto simp: sample_attempt_def sample_response_def sample_session_def route_session_new_def sample_table_def sample_known_def older_than_def)
  with c dst show ?thesis by (auto simp: info_acked_def saved_at_least_def)
qed

theorem stale_bitmap_not_resent_witness:
  "\<exists>ss'. commit_response 0 sample_table (sample_attempt None (Some (ConnBitmap \<lparr>cb_peer_ids = [\<lparr>pv_peer_id = 1, pv_version = 1\<rparr>], cb_bitmap = [0]\<rparr>)))
       (sample_response 0) sample_session = Some ss'
     \<and> \<not> conn_acked ss' 1 2 \<and> fst (build_conn_info (\<lambda>_. True) 20 False \<lparr>cb_peer_ids = [], cb_bitmap = []\<rparr> sample_table 2 ss') = None"
proof -
  let ?b = "\<lparr>cb_peer_ids = [\<lparr>pv_peer_id = 1, pv_version = 1\<rparr>], cb_bitmap = [0]\<rparr>"
  let ?c = "\<lparr>rc_connected_peers = [2, 3], rc_version = 2, rc_last_update = 6\<rparr>"
  obtain ss' where c: "commit_response 0 sample_table (sample_attempt None (Some (ConnBitmap ?b))) (sample_response 0) sample_session = Some ss'"
    by (simp add: commit_response_def sample_attempt_def Let_def)
  have "\<not> conn_acked ss' 1 (rc_version ?c) \<and> fst (build_conn_info (\<lambda>_. True) 20 False \<lparr>cb_peer_ids = [], cb_bitmap = []\<rparr> sample_table 2 ss') = None"
    by (rule stale_bitmap_not_resent [OF c, of ?b])
      (auto simp: sample_attempt_def sample_response_def sample_session_def route_session_new_def sample_table_def saved_at_least_def kv_get_def)
  with c show ?thesis by auto
qed

end
