(* ===== verification/RouteService.thy ===== *)
theory RouteService
  imports RouteSession RoutePaths
begin

text \<open>
  The route service of a peer (\<^verbatim>\<open>PeerRouteServiceImpl\<close> and \<^verbatim>\<open>RouteSessionManager\<close> in \<^verbatim>\<open>peers/route/peer_ospf_route.rs\<close>): the
  bitmap of connections, what the peer says about its own connections, the refresh of trust and tables, and the handler of a
  received request.

    \<^item> A session behind an \<^verbatim>\<open>Arc\<close> is an index into the list of all sessions that were made.
    \<^item> What other parts answer is a record: the configuration and the cost of links (\<open>service_env\<close>), the answers of the peer
      interface about one peer (\<open>peer_view\<close>), the random identifier of a new session.
    \<^item> \<^const>\<open>None\<close> is a panic or a search that does not end.
    \<^item> The call into the service for public IPv6 addresses, which follows a change of the table, is not modelled.
\<close>

section \<open>State\<close>

datatype peer_identity_type = Admin | Credential | SharedNode

record interface_peer_snapshot =
  ip_peers :: "peer_id list"
  ip_identity_types :: "(peer_id, peer_identity_type option) kvs"
  ip_public_keys :: "(peer_id, bytes option) kvs"

record 'c service_env =
  en_net :: "'c net_ops"
  en_dij :: "(nat \<Rightarrow> (nat \<times> nat) list) \<Rightarrow> nat \<Rightarrow> (nat \<rightharpoonup> nat)"
  en_pop :: "nat min_scored list \<Rightarrow> (nat min_scored \<times> nat min_scored list) option"
  en_cost :: "peer_id \<Rightarrow> peer_id \<Rightarrow> int"
  en_trust :: trust_ops
  en_network_secret :: "string option"
  en_secure_mode_enabled :: bool
  en_prefer_peer_relay :: bool
  en_group_declarations :: "(string \<times> string) list"

record 'c route_service =
  sv_my_peer_id :: peer_id
  sv_my_peer_route_id :: u64
  sv_stopped :: bool
  sv_session_objs :: "sync_route_session list"
  sv_sessions :: "(peer_id, nat) kvs"
  sv_synced :: synced_route_info
  sv_route_table :: "'c route_table"
  sv_route_table_with_cost :: "'c route_table"
  sv_owner_map :: "(string \<times> bytes, peer_id list) kvs"
  sv_foreign_my_peer_id_map :: "(string \<times> peer_id, peer_id) kvs"
  sv_cached_conn_map :: route_conn_bitmap
  sv_cached_conn_map_version :: version
  sv_interface_peers :: interface_peer_snapshot
  sv_self_conn_info_withdrawn :: bool
  sv_trusted_keys :: "(bytes, trusted_key_metadata) kvs"

definition service_new :: "peer_id \<Rightarrow> u64 \<Rightarrow> string \<Rightarrow> 'c route_service" where
  "service_new me my_route easytier_version =
     \<lparr>sv_my_peer_id = me, sv_my_peer_route_id = my_route, sv_stopped = False, sv_session_objs = [], sv_sessions = [],
      sv_synced = synced_new easytier_version, sv_route_table = table_new, sv_route_table_with_cost = table_new, sv_owner_map = [],
      sv_foreign_my_peer_id_map = [], sv_cached_conn_map = \<lparr>cb_peer_ids = [], cb_bitmap = []\<rparr>, sv_cached_conn_map_version = 0,
      sv_interface_peers = \<lparr>ip_peers = [], ip_identity_types = [], ip_public_keys = []\<rparr>, sv_self_conn_info_withdrawn = False,
      sv_trusted_keys = []\<rparr>"

definition is_credential_node :: "'c service_env \<Rightarrow> bool" where
  "is_credential_node env \<longleftrightarrow> en_network_secret env = None \<and> en_secure_mode_enabled env"

definition peer_relay_projection_enabled :: "'c service_env \<Rightarrow> bool" where
  "peer_relay_projection_enabled env \<longleftrightarrow> en_prefer_peer_relay env \<and> \<not> is_credential_node env"

section \<open>Sessions\<close>

definition get_session :: "'c route_service \<Rightarrow> peer_id \<Rightarrow> nat option" where
  "get_session sv p = kv_get (sv_sessions sv) p"

definition get_or_create_session :: "nat \<Rightarrow> u64 \<Rightarrow> peer_id \<Rightarrow> 'c route_service \<Rightarrow> nat \<times> 'c route_service" where
  "get_or_create_session at fresh_id p sv =
     (case get_session sv p of
        Some i \<Rightarrow> (i, sv)
      | None \<Rightarrow>
          (length (sv_session_objs sv),
           sv\<lparr>sv_session_objs := sv_session_objs sv @ [route_session_new at fresh_id (sv_my_peer_id sv) p],
              sv_sessions := kv_put p (length (sv_session_objs sv)) (sv_sessions sv)\<rparr>))"

definition is_current_session :: "'c route_service \<Rightarrow> peer_id \<Rightarrow> nat \<Rightarrow> bool" where
  "is_current_session sv p i \<longleftrightarrow> kv_get (sv_sessions sv) p = Some i"

definition remove_session :: "peer_id \<Rightarrow> 'c route_service \<Rightarrow> 'c route_service" where
  "remove_session p sv = sv\<lparr>sv_sessions := kv_remove p (sv_sessions sv)\<rparr>"

section \<open>The bitmap of connections\<close>

definition add_to_all_peer_ids :: "peer_id \<Rightarrow> version \<Rightarrow> (peer_id, version) kvs \<Rightarrow> (peer_id, version) kvs" where
  "add_to_all_peer_ids p version m =
     (case kv_get m p of
        Some x \<Rightarrow> if x < version then kv_put p version m else m
      | None \<Rightarrow> kv_put p version m)"

definition collect_row :: "(peer_id \<Rightarrow> bool) \<Rightarrow> peer_id \<times> route_conn_info \<Rightarrow> (peer_id, version) kvs \<Rightarrow> (peer_id, version) kvs" where
  "collect_row reach item m =
     (let (src, c) = item in
      if \<not> reach src then m
      else fold (\<lambda>dst. add_to_all_peer_ids dst 0) (rc_connected_peers c) (add_to_all_peer_ids src (rc_version c) m))"

definition bitmap_peer_ids :: "(peer_id \<Rightarrow> bool) \<Rightarrow> (peer_id, route_conn_info) kvs \<Rightarrow> peer_id_version list" where
  "bitmap_peer_ids reach conn_map =
     (let all_ids = fold (collect_row reach) conn_map []
      in map (\<lambda>p. \<lparr>pv_peer_id = p, pv_version = (case kv_get all_ids p of Some v \<Rightarrow> v | None \<Rightarrow> 0)\<rparr>) (btree (map fst all_ids)))"

definition set_positions :: "(peer_id, route_conn_info) kvs \<Rightarrow> peer_id_version list \<Rightarrow> nat list" where
  "set_positions conn_map ids =
     concat (map (\<lambda>(peer_idx, pv).
       case kv_get conn_map (pv_peer_id pv) of
         None \<Rightarrow> []
       | Some c \<Rightarrow> map (\<lambda>(idx, other). peer_idx * length ids + idx)
           (filter (\<lambda>(idx, other). pv_peer_id other \<in> set (rc_connected_peers c)) (List.enumerate 0 ids))) (List.enumerate 0 ids))"

fun set_bits :: "nat list \<Rightarrow> bytes \<Rightarrow> bytes option" where
  "set_bits [] bm = Some bm"
| "set_bits (i # is) bm = do {
     b \<leftarrow> nth_opt bm (i div 8);
     set_bits is (bm[i div 8 := or b (push_bit (i mod 8) 1)]) }"

definition build_bitmap :: "(peer_id \<Rightarrow> bool) \<Rightarrow> (peer_id, route_conn_info) kvs \<Rightarrow> route_conn_bitmap option" where
  "build_bitmap reach conn_map =
     (let ids = bitmap_peer_ids reach conn_map
      in map_option (\<lambda>bm. \<lparr>cb_peer_ids = ids, cb_bitmap = bm\<rparr>)
           (set_bits (set_positions conn_map ids) (replicate ((length ids * length ids + 7) div 8) 0)))"

section \<open>Own connections and tables\<close>

definition derive_advertised_connected_peers :: "'c service_env \<Rightarrow> 'c route_service \<Rightarrow> interface_peer_snapshot \<Rightarrow> peer_id list" where
  "derive_advertised_connected_peers env sv snap =
     (if sv_self_conn_info_withdrawn sv then []
      else if \<not> peer_relay_projection_enabled env then ip_peers snap
      else
        let s = sv_synced sv;
            is_credential = (\<lambda>p. kv_get (ip_identity_types snap) p = Some (Some Credential));
            unsuppressed = (\<lambda>p. kv_get (sy_suppressed_non_reusable_credential_peers s) p = None);
            eligible = filter (\<lambda>p. is_credential p \<and> unsuppressed p
              \<and> (case kv_get (ip_public_keys snap) p of
                   Some (Some key) \<Rightarrow>
                     \<not> (case kv_get (sy_peer_infos s) p \<bind> rp_feature_flag of Some f \<Rightarrow> ff_avoid_relay_data f | None \<Rightarrow> False)
                     \<and> (case get_credential_info_by_pubkey s key of Some c \<Rightarrow> tc_allow_relay c | None \<Rightarrow> False)
                 | _ \<Rightarrow> False)) (ip_peers snap)
        in if eligible = [] then ip_peers snap
           else
             let covered = concat (map (\<lambda>r. case kv_get (sy_conn_map s) r of
                   None \<Rightarrow> []
                 | Some c \<Rightarrow> filter (\<lambda>q. q \<in> set (ip_peers snap) \<and> is_credential q \<and> q \<notin> set eligible \<and> unsuppressed q)
                     (rc_connected_peers c)) eligible)
             in filter (\<lambda>p. p \<notin> set covered) (ip_peers snap))"

definition reconcile_my_conn_info ::
  "'c service_env \<Rightarrow> nat \<Rightarrow> interface_peer_snapshot \<Rightarrow> bool \<Rightarrow> 'c route_service \<Rightarrow> 'c route_service \<times> bool" where
  "reconcile_my_conn_info env now snap interface_snapshot_changed sv =
     (let (s, changed) = update_my_conn_info now (sv_my_peer_id sv) (derive_advertised_connected_peers env sv snap) (sv_synced sv);
          sv = sv\<lparr>sv_synced := s\<rparr>
      in if changed then (sv, True)
         else if interface_snapshot_changed \<and> peer_relay_projection_enabled env
              then (sv\<lparr>sv_synced := sync_inc_version (sv_synced sv)\<rparr>, True)
         else (sv, False))"

fun replace_self_row :: "peer_id \<Rightarrow> peer_id list \<Rightarrow> ospf_peer_conn_info list \<Rightarrow> ospf_peer_conn_info list" where
  "replace_self_row me ps [] = []"
| "replace_self_row me ps (row # rows) =
     (if oc_peer_id row = me then row\<lparr>oc_connected_peers := ps\<rparr> # rows else row # replace_self_row me ps rows)"

definition local_route_snapshot :: "'c service_env \<Rightarrow> 'c route_service \<Rightarrow> route_snapshot" where
  "local_route_snapshot env sv =
     (let snapshot = take_snapshot (sv_synced sv)
      in if \<not> peer_relay_projection_enabled env \<and> \<not> sv_self_conn_info_withdrawn sv then snapshot
         else snapshot\<lparr>rs_conn_map := replace_self_row (sv_my_peer_id sv) (ip_peers (sv_interface_peers sv)) (rs_conn_map snapshot)\<rparr>)"

definition update_route_table :: "'c service_env \<Rightarrow> 'c route_service \<Rightarrow> 'c route_service option" where
  "update_route_table env sv = do {
     let snapshot = local_route_snapshot env sv;
     t \<leftarrow> build_from_snapshot (en_net env) (en_dij env) (en_pop env) (sv_my_peer_id sv) snapshot LeastHop (en_cost env) (sv_route_table sv);
     t' \<leftarrow> build_from_snapshot (en_net env) (en_dij env) (en_pop env) (sv_my_peer_id sv) snapshot LeastCost (en_cost env)
            (sv_route_table_with_cost sv);
     Some (sv\<lparr>sv_route_table := t, sv_route_table_with_cost := t'\<rparr>) }"

definition update_route_table_and_cached_local_conn_bitmap :: "'c service_env \<Rightarrow> 'c route_service \<Rightarrow> 'c route_service option" where
  "update_route_table_and_cached_local_conn_bitmap env sv = do {
     sv \<leftarrow> update_route_table env sv;
     let synced_version = sy_version (sv_synced sv);
     b \<leftarrow> build_bitmap (topology_peer_reachable (sv_route_table sv)) (sy_conn_map (sv_synced sv));
     let (version, set) = set_if_larger synced_version (sv_cached_conn_map_version sv);
     Some (sv\<lparr>sv_cached_conn_map_version := version,
              sv_cached_conn_map := (if set then b else sv_cached_conn_map sv)\<rparr>) }"

definition add_owner :: "'c route_service \<Rightarrow> foreign_network_key \<times> foreign_network_entry
    \<Rightarrow> (string \<times> bytes, peer_id list) kvs \<times> (string \<times> peer_id, peer_id) kvs
    \<Rightarrow> (string \<times> bytes, peer_id list) kvs \<times> (string \<times> peer_id, peer_id) kvs" where
  "add_owner sv item st =
     (let (key, entry) = item; (owners, ids) = st in
      if fk_peer_id key = sv_my_peer_id sv \<or> \<not> peer_reachable (sv_route_table sv) (fk_peer_id key) \<or> fn_foreign_peer_ids entry = [] then st
      else
        let digest = (if length (fn_network_secret_digest entry) = 32 then fn_network_secret_digest entry else replicate 32 0);
            network = (fk_network_name key, digest);
            mine = fn_my_peer_id_for_this_network entry
        in (kv_put network ((case kv_get owners network of Some ps \<Rightarrow> ps | None \<Rightarrow> []) @ [mine]) owners,
            kv_put (fk_network_name key, mine) (fk_peer_id key) ids))"

definition update_foreign_network_owner_map :: "'c route_service \<Rightarrow> 'c route_service" where
  "update_foreign_network_owner_map sv =
     (let (owners, ids) = fold (add_owner sv) (sy_foreign_network (sv_synced sv)) ([], [])
      in sv\<lparr>sv_owner_map := owners, sv_foreign_my_peer_id_map := ids\<rparr>)"

section \<open>Trust and expiry\<close>

definition refresh_credential_trusts :: "'c service_env \<Rightarrow> nat \<Rightarrow> 'c route_service \<Rightarrow> 'c route_service \<times> peer_id list" where
  "refresh_credential_trusts env now sv =
     (let (s, r) = verify_and_update_credential_trusts_protecting (en_trust env) now (en_network_secret env) (\<lambda>_. True)
            (Some (sv_my_peer_id sv)) (sv_synced sv)
      in (sv\<lparr>sv_synced := s, sv_trusted_keys := tr_keys r\<rparr>, tr_untrusted r))"

definition refresh_credential_trusts_with_current_topology ::
  "'c service_env \<Rightarrow> nat \<Rightarrow> 'c route_service \<Rightarrow> ('c route_service \<times> peer_id list) option" where
  "refresh_credential_trusts_with_current_topology env now sv = do {
     sv \<leftarrow> update_route_table_and_cached_local_conn_bitmap env sv;
     let (s, r) = verify_and_update_credential_trusts_protecting (en_trust env) now (en_network_secret env)
            (\<lambda>p. p = sv_my_peer_id sv \<or> topology_peer_reachable (sv_route_table sv) p) (Some (sv_my_peer_id sv)) (sv_synced sv);
     let sv = sv\<lparr>sv_synced := s, sv_trusted_keys := tr_keys r\<rparr>;
     sv \<leftarrow> (if tr_untrusted r \<noteq> [] \<or> tr_suppressed_changed r then update_route_table_and_cached_local_conn_bitmap env sv else Some sv);
     Some (sv, tr_untrusted r) }"

definition REMOVE_DEAD_PEER_INFO_AFTER :: nat where "REMOVE_DEAD_PEER_INFO_AFTER = secs 3660"

definition REMOVE_UNREACHABLE_PEER_INFO_AFTER :: nat where "REMOVE_UNREACHABLE_PEER_INFO_AFTER = secs 90"

text \<open>A peer information without a time makes this panic; a time in the future is never expired. A foreign network with a missing or future time is removed.\<close>

definition expired_peers :: "nat \<Rightarrow> (peer_id \<Rightarrow> bool) \<Rightarrow> synced_route_info \<Rightarrow> peer_id list option" where
  "expired_peers now reach s =
     (if \<exists>e \<in> set (sy_peer_infos s). rp_last_update (snd e) = None then None
      else Some (map fst (filter (\<lambda>(p, info).
             let t = the (rp_last_update info) in
             t \<le> now \<and> (REMOVE_DEAD_PEER_INFO_AFTER < now - t \<or> REMOVE_UNREACHABLE_PEER_INFO_AFTER < now - t \<and> \<not> reach p)) (sy_peer_infos s))))"

definition foreign_expired :: "nat \<Rightarrow> foreign_network_entry \<Rightarrow> bool" where
  "foreign_expired now entry =
     (case fn_last_update entry of
        None \<Rightarrow> True
      | Some t \<Rightarrow> now < t \<or> REMOVE_DEAD_PEER_INFO_AFTER < now - t)"

definition clear_expired_peer :: "'c service_env \<Rightarrow> nat \<Rightarrow> 'c route_service \<Rightarrow> ('c route_service \<times> peer_id list) option" where
  "clear_expired_peer env now sv = do {
     dead \<leftarrow> expired_peers now (topology_peer_reachable (sv_route_table sv)) (sv_synced sv);
     let s = remove_peers dead (sv_synced sv);
     let s = s\<lparr>sy_foreign_network := kv_retain (\<lambda>_ entry. \<not> foreign_expired now entry) (sy_foreign_network s)\<rparr>;
     (sv, untrusted) \<leftarrow> refresh_credential_trusts_with_current_topology env now (sv\<lparr>sv_synced := s\<rparr>);
     Some (sv\<lparr>sv_route_table := clean_expired_route_info (sv_route_table sv),
              sv_route_table_with_cost := clean_expired_route_info (sv_route_table_with_cost sv)\<rparr>, untrusted) }"

section \<open>A received request\<close>

record sync_request =
  rq_from_peer_id :: peer_id
  rq_from_session_id :: u64
  rq_is_initiator :: bool
  rq_infos :: "route_peer_info list option"
  rq_raw_infos :: "bytes list option"
  rq_conn :: "conn_info option"
  rq_foreign :: "foreign_network_infos option"

record peer_view =
  pw_identity_type :: "peer_identity_type option"
  pw_public_key :: "bytes option"

fun find_info :: "peer_id \<Rightarrow> nat \<Rightarrow> route_peer_info list \<Rightarrow> (nat \<times> route_peer_info) option" where
  "find_info p idx [] = None"
| "find_info p idx (info # infos) = (if rp_peer_id info = p then Some (idx, info) else find_info p (Suc idx) infos)"

definition extract_credential_peer_info ::
  "'c net_ops \<Rightarrow> wire_ops \<Rightarrow> peer_id \<Rightarrow> route_peer_info list \<Rightarrow> bytes list \<Rightarrow> trusted_credential_pubkey
    \<Rightarrow> (route_peer_info \<times> bytes) option option" where
  "extract_credential_peer_info net wire from infos raws credential =
     (case find_info from 0 infos of
        None \<Rightarrow> Some None
      | Some (idx, info) \<Rightarrow> do {
          raw \<leftarrow> nth_opt raws idx;
          let allowed = tc_allowed_proxy_cidrs credential;
          let cidrs = (if allowed \<noteq> [] then filter (\<lambda>c. \<exists>a \<in> set allowed. cidr_is_subset_str net c a) (rp_proxy_cidrs info) else []);
          let info = mark_credential_peer (info\<lparr>rp_proxy_cidrs := cidrs\<rparr>) True;
          r \<leftarrow> patch_credential_route_peer_info wire raw (rp_proxy_cidrs info);
          Some (case r of Inr raw \<Rightarrow> Some (info, raw) | Inl _ \<Rightarrow> None) })"

definition put_session :: "nat \<Rightarrow> sync_route_session \<Rightarrow> 'c route_service \<Rightarrow> 'c route_service" where
  "put_session i ss sv = sv\<lparr>sv_session_objs := (sv_session_objs sv)[i := ss]\<rparr>"

text \<open>A peer with a credential speaks for itself only: \<open>credential\<close> is \<^const>\<open>None\<close> for the other peers.\<close>

definition accepted_infos ::
  "'c service_env \<Rightarrow> trusted_credential_pubkey option \<Rightarrow> sync_request \<Rightarrow> (route_peer_info list \<times> bytes list) option" where
  "accepted_infos env credential rq =
     (case rq_infos rq of
        None \<Rightarrow> Some ([], [])
      | Some infos \<Rightarrow> do {
          raws \<leftarrow> rq_raw_infos rq;
          (case credential of
             None \<Rightarrow> Some (infos, raws)
           | Some c \<Rightarrow> do {
               r \<leftarrow> extract_credential_peer_info (en_net env) (to_wire (en_trust env)) (rq_from_peer_id rq) infos raws c;
               Some (case r of Some (info, raw) \<Rightarrow> ([info], [raw]) | None \<Rightarrow> ([], [])) }) })"

definition handle_infos ::
  "'c service_env \<Rightarrow> nat \<Rightarrow> nat \<Rightarrow> trusted_credential_pubkey option \<Rightarrow> sync_request \<Rightarrow> nat \<Rightarrow> 'c route_service
    \<Rightarrow> ((sync_error + bool) \<times> 'c route_service) option" where
  "handle_infos env at now credential rq i sv = do {
     (infos, raws) \<leftarrow> accepted_infos env credential rq;
     if infos = [] then Some (Inr False, sv)
     else do {
       (r, s) \<leftarrow> update_peer_infos now (sv_my_peer_id sv) (sv_my_peer_route_id sv) (rq_from_peer_id rq) infos raws (sv_synced sv);
       (case r of
          Inl e \<Rightarrow> Some (Inl e, sv\<lparr>sv_synced := s\<rparr>)
        | Inr _ \<Rightarrow>
            let s = verify_and_update_current_group_trusts (en_trust env) infos (en_group_declarations env) (en_network_secret env = None) s;
                ss = update_dst_saved_peer_info_version at infos (rq_from_peer_id rq) (sv_session_objs sv ! i)
            in Some (Inr True, put_session i ss (sv\<lparr>sv_synced := s\<rparr>))) } }"

definition handle_conn ::
  "nat \<Rightarrow> nat \<Rightarrow> trusted_credential_pubkey option \<Rightarrow> sync_request \<Rightarrow> nat \<Rightarrow> 'c route_service \<Rightarrow> (conn_info option \<times> 'c route_service) option" where
  "handle_conn at now credential rq i sv =
     (case rq_conn rq of
        None \<Rightarrow> Some (None, sv)
      | Some c \<Rightarrow>
          if (case credential of None \<Rightarrow> True | Some tc \<Rightarrow> tc_allow_relay tc)
          then do {
            s \<leftarrow> update_conn_info now c (sv_synced sv);
            let ss = update_dst_saved_conn_info_version at c (rq_from_peer_id rq) (sv_session_objs sv ! i);
            Some (Some c, put_session i ss (sv\<lparr>sv_synced := s\<rparr>)) }
          else Some (None, sv))"

definition handle_foreign ::
  "nat \<Rightarrow> nat \<Rightarrow> trusted_credential_pubkey option \<Rightarrow> sync_request \<Rightarrow> nat \<Rightarrow> 'c route_service \<Rightarrow> (bool \<times> 'c route_service) option" where
  "handle_foreign at now credential rq i sv =
     (case rq_foreign rq of
        None \<Rightarrow> Some (False, sv)
      | Some infos \<Rightarrow>
          if credential \<noteq> None then Some (False, sv)
          else do {
            let (s, changed) = update_foreign_network now infos (sv_synced sv);
            ss \<leftarrow> update_dst_saved_foreign_network_version at infos (rq_from_peer_id rq) (sv_session_objs sv ! i);
            Some (changed, put_session i ss (sv\<lparr>sv_synced := s\<rparr>)) })"

text \<open>The answer comes with the peers to disconnect and whether the other sessions are woken up.\<close>

type_synonym sync_answer = "sync_error + sync_response \<times> peer_id list \<times> bool"

definition handle_admitted ::
  "'c service_env \<Rightarrow> nat \<Rightarrow> nat \<Rightarrow> trusted_credential_pubkey option \<Rightarrow> sync_request \<Rightarrow> nat \<Rightarrow> 'c route_service
    \<Rightarrow> (sync_answer \<times> 'c route_service) option" where
  "handle_admitted env at now credential rq i sv = do {
     (r, sv) \<leftarrow> handle_infos env at now credential rq i sv;
     (case r of
        Inl e \<Rightarrow> Some (Inl e, sv)
      | Inr updated \<Rightarrow> do {
          (accepted_conn, sv) \<leftarrow> handle_conn at now credential rq i sv;
          let need_update = (updated \<or> accepted_conn \<noteq> None);
          (sv, untrusted) \<leftarrow> (if need_update then refresh_credential_trusts_with_current_topology env now sv else Some (sv, []));
          (foreign_changed, sv) \<leftarrow> handle_foreign at now credential rq i sv;
          sv \<leftarrow> (if need_update \<or> foreign_changed
                 then map_option update_foreign_network_owner_map (update_route_table_and_cached_local_conn_bitmap env sv) else Some sv);
          let ((missing, missing_conn), ss) = collect_missing_peer_ids (sv_my_peer_id sv) (sv_synced sv) accepted_conn (credential \<noteq> None)
                 untrusted (sv_session_objs sv ! i);
          Some (Inr (\<lparr>sr_is_initiator = ss_we_are_initiator ss, sr_session_id = ss_my_session_id ss, sr_error = None,
                      sr_missing_peer_ids = missing, sr_missing_conn_peer_ids = missing_conn\<rparr>, untrusted, need_update \<or> foreign_changed),
                put_session i ss sv) }) }"

definition do_sync_route_info ::
  "'c service_env \<Rightarrow> nat \<Rightarrow> nat \<Rightarrow> u64 \<Rightarrow> peer_view \<Rightarrow> sync_request \<Rightarrow> 'c route_service \<Rightarrow> (sync_answer \<times> 'c route_service) option" where
  "do_sync_route_info env at now fresh_id view rq sv =
     (let from = rq_from_peer_id rq in
      if sv_stopped sv \<or> get_session sv from = None \<and> \<not> rq_is_initiator rq then Some (Inl Stopped, sv)
      else
        let (i, sv) = get_or_create_session at fresh_id from sv;
            from_is_credential = (pw_identity_type view = Some Credential);
            credential = (if from_is_credential then pw_public_key view \<bind> get_credential_info_by_pubkey (sv_synced sv) else None)
        in if from_is_credential \<and> credential = None then Some (Inl Stopped, sv)
           else
             let (admitted, ss) = admit_inbound (rq_from_session_id rq) (rq_is_initiator rq) (sv_session_objs sv ! i)
             in if \<not> (is_current_session sv from i \<and> admitted) then Some (Inl Stopped, sv)
                else handle_admitted env at now credential rq i
                       (put_session i (ss\<lparr>ss_rpc_rx_count := ss_rpc_rx_count ss + 1, ss_last_contact := at\<rparr>) sv))"

section \<open>The bitmap carries the rows of the table\<close>

lemma bit_set_byte:
  fixes b :: u8
  assumes "k < 8" "n < 8"
  shows "bit (or b (2 ^ k)) n \<longleftrightarrow> bit b n \<or> n = k"
  using assms by (auto simp: bit_or_iff bit_exp_iff)

lemma set_bits_ok:
  "\<forall>i \<in> set is. i < 8 * length bm \<Longrightarrow> \<exists>bm'. set_bits is bm = Some bm' \<and> length bm' = length bm
     \<and> (\<forall>j < 8 * length bm. bit (bm' ! (j div 8)) (j mod 8) \<longleftrightarrow> bit (bm ! (j div 8)) (j mod 8) \<or> j \<in> set is)"
proof (induction "is" arbitrary: bm)
  case (Cons i "is")
  let ?bm = "bm[i div 8 := or (bm ! (i div 8)) (push_bit (i mod 8) 1)]"
  have i: "i div 8 < length bm" using Cons.prems by auto
  have "\<forall>i \<in> set is. i < 8 * length ?bm" using Cons.prems by simp
  from Cons.IH [OF this] obtain bm' where bm': "set_bits is ?bm = Some bm'" "length bm' = length bm"
    "\<forall>j < 8 * length bm. bit (bm' ! (j div 8)) (j mod 8) \<longleftrightarrow> bit (?bm ! (j div 8)) (j mod 8) \<or> j \<in> set is" by auto
  have "bit (?bm ! (j div 8)) (j mod 8) \<longleftrightarrow> bit (bm ! (j div 8)) (j mod 8) \<or> j = i" if "j < 8 * length bm" for j
  proof (cases "j div 8 = i div 8")
    case True
    then have "j mod 8 = i mod 8 \<longleftrightarrow> j = i" by (metis div_mult_mod_eq)
    with True i show ?thesis by (simp add: bit_set_byte)
  next
    case False
    then show ?thesis by auto
  qed
  with bm' i show ?case by (auto simp: nth_opt_def)
qed simp

lemma positions_iff:
  assumes "a < length ids" "b < length ids"
  shows "a * length ids + b \<in> set (set_positions conn_map ids) \<longleftrightarrow>
     (\<exists>c. kv_get conn_map (pv_peer_id (ids ! a)) = Some c \<and> pv_peer_id (ids ! b) \<in> set (rc_connected_peers c))"
proof -
  let ?n = "length ids"
  have inj: "a * ?n + b = a' * ?n + b' \<longleftrightarrow> a = a' \<and> b = b'" if "b' < ?n" for a' b'
  proof
    assume eq: "a * ?n + b = a' * ?n + b'"
    have "(x * n + y) div n = x" if "y < n" for x y n :: nat using that div_mult_self3 [of n x y] by simp
    with arg_cong [OF eq, of "\<lambda>x. x div ?n"] assms(2) that have "a = a'" by metis
    with eq show "a = a' \<and> b = b'" by simp
  qed simp
  have "a * ?n + b \<in> set (set_positions conn_map ids) \<longleftrightarrow> (\<exists>a' < ?n. \<exists>c. kv_get conn_map (pv_peer_id (ids ! a')) = Some c
      \<and> (\<exists>b' < ?n. pv_peer_id (ids ! b') \<in> set (rc_connected_peers c) \<and> a * ?n + b = a' * ?n + b'))"
  proof -
    have "x \<in> set (case o' of None \<Rightarrow> [] | Some c \<Rightarrow> map g (filter (P c) (List.enumerate 0 ids))) \<longleftrightarrow>
        (\<exists>c. o' = Some c \<and> (\<exists>b' < ?n. P c (b', ids ! b') \<and> x = g (b', ids ! b')))" for x :: nat and o' :: "route_conn_info option" and g P
    proof (cases o')
      case (Some c)
      have "x \<in> set (map g (filter (P c) (List.enumerate 0 ids))) \<longleftrightarrow> (\<exists>e \<in> set (List.enumerate 0 ids). P c e \<and> x = g e)" by auto
      then show ?thesis unfolding bex_enumerate by (simp add: Some)
    qed simp
    then show ?thesis unfolding set_positions_def
      by (simp add: bex_enumerate case_prod_unfold)
  qed
  also have "\<dots> \<longleftrightarrow> (\<exists>c. kv_get conn_map (pv_peer_id (ids ! a)) = Some c \<and> pv_peer_id (ids ! b) \<in> set (rc_connected_peers c))"
    (is "?L \<longleftrightarrow> ?R")
  proof
    show "?R" if "?L" using that by (auto simp: inj)
    show "?L" if "?R" using that assms by blast
  qed
  finally show ?thesis .
qed

lemma connected_row_set:
  "\<forall>j < length pvs. get_bit b (idx + j) = Some (P j) \<Longrightarrow>
     \<exists>ps. connected_row b idx pvs = Some ps \<and> set ps = {p. \<exists>j < length pvs. P j \<and> p = pv_peer_id (pvs ! j)}"
proof (induction pvs arbitrary: idx P)
  case (Cons pv pvs)
  from Cons.prems have "\<forall>j < length pvs. get_bit b (Suc idx + j) = Some (P (Suc j))" by auto
  from Cons.IH [OF this] obtain ps where ps: "connected_row b (Suc idx) pvs = Some ps"
    "set ps = {p. \<exists>j < length pvs. P (Suc j) \<and> p = pv_peer_id (pvs ! j)}" by blast
  have "get_bit b idx = Some (P 0)" using Cons.prems by force
  moreover have "{p. \<exists>j < length (pv # pvs). P j \<and> p = pv_peer_id ((pv # pvs) ! j)} = (if P 0 then {pv_peer_id pv} else {}) \<union> set ps"
    unfolding ps(2) by (auto simp: Ex_less_Suc2)
  ultimately show ?case using ps(1) by (simp del: length_Cons)
qed simp

lemma bitmap_rows_decoded:
  assumes "build_bitmap reach conn_map = Some b"
  defines "ids \<equiv> bitmap_peer_ids reach conn_map"
  shows "cb_peer_ids b = ids" "length ids * length ids \<le> 8 * length (cb_bitmap b)"
    "a < length ids \<Longrightarrow> bitmap_connected_peers b a = Some (sorted_list_of_set
       {p \<in> pv_peer_id ` set ids. \<exists>c. kv_get conn_map (pv_peer_id (ids ! a)) = Some c \<and> p \<in> set (rc_connected_peers c)})"
proof -
  let ?n = "length ids" and ?zero = "replicate ((length ids * length ids + 7) div 8) (0 :: u8)"
  obtain bm where bm: "set_bits (set_positions conn_map ids) ?zero = Some bm" "b = \<lparr>cb_peer_ids = ids, cb_bitmap = bm\<rparr>"
    using assms by (auto simp: build_bitmap_def Let_def)
  show "cb_peer_ids b = ids" by (simp add: bm(2))
  have size: "?n * ?n \<le> 8 * length ?zero" by simp
  have bound: "i < ?n * ?n" if "i \<in> set (set_positions conn_map ids)" for i
  proof -
    from that obtain x y where "x < ?n" "y < ?n" "i = x * ?n + y"
      by (auto simp: set_positions_def in_set_enumerate_eq split: option.splits)
    moreover then have "Suc x * ?n \<le> ?n * ?n" by (intro mult_le_mono1) simp
    ultimately show ?thesis by simp
  qed
  obtain bm' where bm': "set_bits (set_positions conn_map ids) ?zero = Some bm'" "length bm' = length ?zero"
    "\<forall>j < 8 * length ?zero. bit (bm' ! (j div 8)) (j mod 8) \<longleftrightarrow> bit (?zero ! (j div 8)) (j mod 8) \<or> j \<in> set (set_positions conn_map ids)"
    using set_bits_ok [of "set_positions conn_map ids" ?zero] bound size by (meson less_le_trans)
  have bits: "length bm = length ?zero" "\<And>j. j < ?n * ?n \<Longrightarrow> get_bit b j = Some (j \<in> set (set_positions conn_map ids))"
  proof -
    have eq: "bm' = bm" using bm(1) bm'(1) by simp
    show "length bm = length ?zero" using bm'(2) by (simp only: eq)
    fix j
    assume "j < ?n * ?n"
    then have j: "j < 8 * length ?zero" using size by (rule less_le_trans)
    then have "j div 8 < length ?zero" by (simp only: less_mult_imp_div_less mult.commute)
    with bm'(2,3) j show "get_bit b j = Some (j \<in> set (set_positions conn_map ids))"
      unfolding eq by (simp add: get_bit_def bm(2) nth_opt_def)
  qed
  show "?n * ?n \<le> 8 * length (cb_bitmap b)" using size by (simp add: bm(2) bits(1))
  assume a: "a < ?n"
  show "bitmap_connected_peers b a = Some (sorted_list_of_set
       {p \<in> pv_peer_id ` set ids. \<exists>c. kv_get conn_map (pv_peer_id (ids ! a)) = Some c \<and> p \<in> set (rc_connected_peers c)})"
  proof -
    let ?P = "\<lambda>j. a * ?n + j \<in> set (set_positions conn_map ids)"
    have "a * ?n + j < ?n * ?n" if "j < ?n" for j
    proof -
      have "Suc a * ?n \<le> ?n * ?n" using a by (intro mult_le_mono1) simp
      with that show ?thesis by simp
    qed
    then have "\<forall>j < length ids. get_bit b (a * ?n + j) = Some (?P j)" using bits(2) by blast
    from connected_row_set [OF this] obtain ps where ps: "connected_row b (a * ?n) ids = Some ps"
      "set ps = {p. \<exists>j < ?n. ?P j \<and> p = pv_peer_id (ids ! j)}" by blast
    have "set ps = {p \<in> pv_peer_id ` set ids. \<exists>c. kv_get conn_map (pv_peer_id (ids ! a)) = Some c \<and> p \<in> set (rc_connected_peers c)}"
    proof -
      have "p \<in> pv_peer_id ` set ids \<longleftrightarrow> (\<exists>j < ?n. p = pv_peer_id (ids ! j))" for p
        by (metis image_iff in_set_conv_nth)
      moreover have "(\<exists>j < ?n. ?P j \<and> p = pv_peer_id (ids ! j)) \<longleftrightarrow>
          (\<exists>j < ?n. (\<exists>c. kv_get conn_map (pv_peer_id (ids ! a)) = Some c \<and> p \<in> set (rc_connected_peers c)) \<and> p = pv_peer_id (ids ! j))" for p
        using positions_iff [OF a] by blast
      ultimately show ?thesis unfolding ps(2) by blast
    qed
    then show ?thesis using ps(1) by (simp add: bitmap_connected_peers_def bm(2) btree_def)
  qed
qed

definition id_version :: "(peer_id, version) kvs \<Rightarrow> peer_id \<Rightarrow> version" where
  "id_version m p = (case kv_get m p of Some v \<Rightarrow> v | None \<Rightarrow> 0)"

lemma add_id:
  "id_version (add_to_all_peer_ids q v m) p = (if p = q then max (id_version m p) v else id_version m p)"
  "kv_get (add_to_all_peer_ids q v m) p \<noteq> None \<longleftrightarrow> kv_get m p \<noteq> None \<or> p = q"
  by (auto simp: id_version_def add_to_all_peer_ids_def max_def split: option.splits)

lemma add_ids:
  "id_version (fold (\<lambda>d. add_to_all_peer_ids d 0) ds m) p = id_version m p"
  "kv_get (fold (\<lambda>d. add_to_all_peer_ids d 0) ds m) p \<noteq> None \<longleftrightarrow> kv_get m p \<noteq> None \<or> p \<in> set ds"
proof -
  show "id_version (fold (\<lambda>d. add_to_all_peer_ids d 0) ds m) p = id_version m p"
    by (induction ds arbitrary: m) (simp_all add: add_id(1))
  show "kv_get (fold (\<lambda>d. add_to_all_peer_ids d 0) ds m) p \<noteq> None \<longleftrightarrow> kv_get m p \<noteq> None \<or> p \<in> set ds"
    by (induction ds arbitrary: m) (simp, simp only: fold_simps comp_apply add_id(2) list.set, blast)
qed

lemma collected_ids:
  assumes "distinct (map fst xs)"
  shows "id_version (fold (collect_row reach) xs m) p =
      max (id_version m p) (case map_of xs p of Some c \<Rightarrow> if reach p then rc_version c else 0 | None \<Rightarrow> 0)"
    and "kv_get (fold (collect_row reach) xs m) p \<noteq> None \<longleftrightarrow>
      kv_get m p \<noteq> None \<or> (\<exists>(src, c) \<in> set xs. reach src \<and> (p = src \<or> p \<in> set (rc_connected_peers c)))"
  using assms
proof (induction xs arbitrary: m)
  case (Cons e xs)
  obtain src c where e: "e = (src, c)" by (cases e)
  have ver: "id_version (collect_row reach e m) p = (if reach src \<and> p = src then max (id_version m p) (rc_version c) else id_version m p)" for m
    by (simp add: collect_row_def e add_ids(1) add_id(1))
  have keys: "kv_get (collect_row reach e m) p \<noteq> None \<longleftrightarrow> kv_get m p \<noteq> None \<or> reach src \<and> (p = src \<or> p \<in> set (rc_connected_peers c))" for m
    by (cases "reach src") (auto simp: collect_row_def e add_ids(2) add_id(2) simp del: not_None_eq)
  {
    case 1
    then have "map_of xs src = None" by (auto simp: e map_of_eq_None_iff)
    then show ?case using Cons.IH(1) [of "collect_row reach e m"] 1 by (auto simp: ver [unfolded e] e)
  next
    case 2
    then show ?case using Cons.IH(2) [of "collect_row reach e m"] by (auto simp: e keys [unfolded e] simp del: not_None_eq)
  }
qed (simp_all add: id_version_def)

definition rows_ok :: "synced_route_info \<Rightarrow> bool" where
  "rows_ok s \<longleftrightarrow> kv_ok (sy_conn_map s) \<and> (\<forall>(p, c) \<in> set (sy_conn_map s). sorted_wrt (<) (rc_connected_peers c))"

lemma bitmap_total: "\<exists>b. build_bitmap reach conn_map = Some b"
proof -
  let ?ids = "bitmap_peer_ids reach conn_map"
  let ?zero = "replicate ((length ?ids * length ?ids + 7) div 8) (0 :: u8)"
  have "i < 8 * length ?zero" if "i \<in> set (set_positions conn_map ?ids)" for i
  proof -
    from that obtain x y where xy: "x < length ?ids" "y < length ?ids" "i = x * length ?ids + y"
      by (auto simp: set_positions_def in_set_enumerate_eq split: option.splits)
    then have "Suc x * length ?ids \<le> length ?ids * length ?ids" by (intro mult_le_mono1) simp
    with xy show ?thesis by simp
  qed
  with set_bits_ok [of "set_positions conn_map ?ids" ?zero] show ?thesis by (auto simp: build_bitmap_def Let_def)
qed

lemma row_updates_iff: "(p, v, ps) \<in> set (row_updates rows) \<longleftrightarrow> v \<noteq> 0 \<and> (\<lparr>pv_peer_id = p, pv_version = v\<rparr>, ps) \<in> set rows"
proof -
  have pv: "x = \<lparr>pv_peer_id = p, pv_version = v\<rparr> \<longleftrightarrow> pv_peer_id x = p \<and> pv_version x = v" for x :: peer_id_version by (cases x) auto
  have "(p, v, ps) \<in> set (row_updates rows) \<longleftrightarrow> (\<exists>x. v \<noteq> 0 \<and> (x, ps) \<in> set rows \<and> pv_peer_id x = p \<and> pv_version x = v)"
    by (force simp: row_updates_def)
  also have "\<dots> \<longleftrightarrow> v \<noteq> 0 \<and> (\<lparr>pv_peer_id = p, pv_version = v\<rparr>, ps) \<in> set rows" unfolding pv [symmetric] by blast
  finally show ?thesis .
qed

lemma named_entry:
  assumes "entry = f (pv_peer_id y)"
  shows "(\<lparr>pv_peer_id = p, pv_version = v\<rparr>, ps) = (y, entry) \<longleftrightarrow> y = \<lparr>pv_peer_id = p, pv_version = v\<rparr> \<and> ps = f p"
  using assms by (cases y) auto

lemma collected_rows:
  assumes "rows_ok s" and ids_def: "ids = fold (collect_row reach) (sy_conn_map s) []"
  shows "v \<noteq> 0 \<and> p \<in> fst ` set ids \<and> v = id_version ids p
      \<and> ps = sorted_list_of_set {q \<in> fst ` set ids. \<exists>c. kv_get (sy_conn_map s) p = Some c \<and> q \<in> set (rc_connected_peers c)}
    \<longleftrightarrow> known_conn s p = Some (v, ps) \<and> reach p"
proof -
  let ?cm = "sy_conn_map s"
  have ok: "kv_ok ?cm" using assms by (simp add: rows_ok_def)
  have ver: "id_version ids p = (case kv_get ?cm p of Some c \<Rightarrow> if reach p then rc_version c else 0 | None \<Rightarrow> 0)" for p
    using collected_ids(1) [of ?cm reach "[]" p] ok by (simp add: kv_ok_def kv_get_def id_version_def ids_def)
  have key: "p \<in> fst ` set ids \<longleftrightarrow> (\<exists>(src, c) \<in> set ?cm. reach src \<and> (p = src \<or> p \<in> set (rc_connected_peers c)))" for p
    using collected_ids(2) [of ?cm reach "[]" p] ok by (auto simp: ids_def kv_ok_def kv_get_def map_of_eq_None_iff simp del: not_None_eq)
  show ?thesis
  proof (cases "kv_get ?cm p")
    case (Some c)
    then have mem: "(p, c) \<in> set ?cm" using kv_ok_mem [OF ok] by blast
    then have "reach p \<Longrightarrow> p \<in> fst ` set ids" by (auto simp: key)
    moreover have "sorted_list_of_set {q \<in> fst ` set ids. \<exists>c. kv_get ?cm p = Some c \<and> q \<in> set (rc_connected_peers c)} = rc_connected_peers c"
      if "reach p"
    proof -
      have "{q \<in> fst ` set ids. \<exists>c. kv_get ?cm p = Some c \<and> q \<in> set (rc_connected_peers c)} = set (rc_connected_peers c)"
        using that Some mem by (auto simp: key)
      moreover have "sorted_wrt (<) (rc_connected_peers c)" using assms mem by (auto simp: rows_ok_def)
      ultimately show ?thesis by (simp add: strict_sorted_iff sorted_list_of_set.idem_if_sorted_distinct)
    qed
    ultimately show ?thesis using Some by (auto simp: known_conn_def ver)
  qed (simp add: known_conn_def ver)
qed

text \<open>C10: The bitmap a peer builds from its table can be read by every receiver, and it carries exactly the rows of the
  reachable peers, each with its version and its whole set of connections.\<close>

theorem bitmap_roundtrip:
  assumes "rows_ok s"
  shows "\<exists>b. build_bitmap reach (sy_conn_map s) = Some b \<and> update_conn_info now (ConnBitmap b) t \<noteq> None
    \<and> set (conn_updates (Conn_Info now (ConnBitmap b))) = {(p, row). known_conn s p = Some row \<and> reach p}"
proof -
  let ?ids = "bitmap_peer_ids reach (sy_conn_map s)" and ?all = "fold (collect_row reach) (sy_conn_map s) []"
  let ?row = "\<lambda>p. sorted_list_of_set {q \<in> fst ` set ?all. \<exists>c. kv_get (sy_conn_map s) p = Some c \<and> q \<in> set (rc_connected_peers c)}"
  obtain b where b: "build_bitmap reach (sy_conn_map s) = Some b" using bitmap_total by blast
  note dec = bitmap_rows_decoded [OF b]
  have ids: "?ids = map (\<lambda>p. \<lparr>pv_peer_id = p, pv_version = id_version ?all p\<rparr>) (btree (map fst ?all))"
    by (simp add: bitmap_peer_ids_def Let_def id_version_def)
  have names: "pv_peer_id ` set ?ids = fst ` set ?all" by (force simp: ids btree_def)
  have "(p, v, ps) \<in> set (row_updates (bitmap_table b)) \<longleftrightarrow> known_conn s p = Some (v, ps) \<and> reach p" for p v ps
  proof -
    let ?x = "\<lparr>pv_peer_id = p, pv_version = v\<rparr>"
    have "(?x, ps) \<in> set (bitmap_table b) \<longleftrightarrow> (\<exists>i < length ?ids. (?x, ps) = (?ids ! i, the (bitmap_connected_peers b i)))"
      unfolding bitmap_table_def dec(1) set_map set_upt image_iff Bex_def atLeastLessThan_iff by blast
    also have "\<dots> \<longleftrightarrow> (\<exists>i < length ?ids. ?ids ! i = ?x \<and> ps = ?row p)"
    proof (intro ex_cong1 conj_cong refl)
      fix i
      assume i: "i < length ?ids"
      have "the (bitmap_connected_peers b i) = ?row (pv_peer_id (?ids ! i))" unfolding dec(3) [OF i] names by simp
      then show "(?x, ps) = (?ids ! i, the (bitmap_connected_peers b i)) \<longleftrightarrow> ?ids ! i = ?x \<and> ps = ?row p"
        by (rule named_entry)
    qed
    also have "\<dots> \<longleftrightarrow> ?x \<in> set ?ids \<and> ps = ?row p" by (auto simp: in_set_conv_nth)
    also have "?x \<in> set ?ids \<longleftrightarrow> p \<in> fst ` set ?all \<and> v = id_version ?all p" by (auto simp: ids btree_def)
    finally show ?thesis unfolding row_updates_iff collected_rows [OF assms refl, symmetric] by blast
  qed
  moreover have "update_conn_info now (ConnBitmap b) t \<noteq> None"
    unfolding update_bitmap_None using dec(1,2) by simp
  ultimately show ?thesis using b by auto
qed

lemma bitmap_roundtrip_witness:
  "\<exists>b. build_bitmap (\<lambda>p. p \<noteq> 9) [(1, \<lparr>rc_connected_peers = [2, 3], rc_version = 4, rc_last_update = 0\<rparr>), (2, \<lparr>rc_connected_peers = [1], rc_version = 7, rc_last_update = 0\<rparr>)] = Some b
    \<and> set (conn_updates (Conn_Info 5 (ConnBitmap b))) = {(1, 4, [2, 3]), (2, 7, [1])}"
proof -
  let ?s = "(synced_new [])\<lparr>sy_conn_map := [(1, \<lparr>rc_connected_peers = [2, 3], rc_version = 4, rc_last_update = 0\<rparr>),
      (2, \<lparr>rc_connected_peers = [1], rc_version = 7, rc_last_update = 0\<rparr>)]\<rparr>"
  have "rows_ok ?s" by (simp add: rows_ok_def kv_ok_def)
  from bitmap_roundtrip [OF this, of "\<lambda>p. p \<noteq> 9" 5 ?s] show ?thesis
    by (auto simp: known_conn_def kv_get_def split: option.splits if_splits)
qed

section \<open>What a peer with a credential can change\<close>

definition forgets :: "synced_route_info \<Rightarrow> synced_route_info \<Rightarrow> bool" where
  "forgets s s' \<longleftrightarrow> known_info s' \<subseteq>\<^sub>m known_info s \<and> known_conn s' \<subseteq>\<^sub>m known_conn s \<and> known_foreign s' \<subseteq>\<^sub>m known_foreign s"

lemma same_tables:
  assumes "tables s = tables s'"
  shows "known_info s = known_info s'" "known_conn s = known_conn s'" "known_foreign s = known_foreign s'"
  using assms by (simp_all add: tables_def known_info_def known_conn_def known_foreign_def fun_eq_iff)

lemma forgets_remove: "forgets s (remove_peers ps s)"
  by (auto simp: forgets_def map_le_def dom_def remove_peers_def sync_inc_version_def known_info_def known_conn_def known_foreign_def
      get_fold_remove get_retain_keys split: if_splits)

lemma forgets_trans: "forgets s t \<Longrightarrow> forgets t u \<Longrightarrow> forgets s u"
  unfolding forgets_def by (blast intro: map_le_trans)

lemma forgets_tables: "tables s = tables s' \<Longrightarrow> forgets s s'"
  using same_tables [of s s'] by (simp add: forgets_def)

lemma current_groups_keep: "tables (verify_and_update_current_group_trusts ops infos declarations trust_admin s) = tables s"
proof -
  have "tables (update_peer_groups p g s) = tables s" for p g s
    by (auto simp: update_peer_groups_def tables_keep split: option.splits)
  then have "tables (fold (\<lambda>info. update_peer_groups (f info) (g info)) infos s) = tables s" for f g and infos :: "route_peer_info list" and s
    by (induction infos arbitrary: s) simp_all
  then show ?thesis by (simp add: verify_and_update_current_group_trusts_def verify_and_update_group_trusts_def)
qed

lemma refresh_bitmap_keeps:
  "update_route_table_and_cached_local_conn_bitmap env sv = Some sv' \<Longrightarrow> sv_synced sv' = sv_synced sv \<and> sv_session_objs sv' = sv_session_objs sv"
  by (auto simp: update_route_table_and_cached_local_conn_bitmap_def update_route_table_def Let_def case_prod_unfold bind_eq_Some_conv)

lemma forgets_trusts:
  assumes "verify_and_update_credential_trusts_protecting ops now network_secret active protected s = (s', r)"
  shows "forgets s s'"
proof -
  from refresh_steps(4) [OF assms] obtain m where
    m: "s' = (if tr_untrusted r \<noteq> [] then remove_peers (tr_untrusted r) m else m)" "tables m = tables s" by blast
  have "forgets m s'" using forgets_remove [of m] forgets_tables [of m m] by (simp add: m(1))
  with forgets_tables [OF m(2) [symmetric]] show ?thesis by (rule forgets_trans)
qed

lemma forgets_refresh:
  assumes "refresh_credential_trusts_with_current_topology env now sv = Some (sv', untrusted)"
  shows "forgets (sv_synced sv) (sv_synced sv')"
proof -
  from assms obtain sv1 where sv1: "update_route_table_and_cached_local_conn_bitmap env sv = Some sv1"
    by (auto simp: refresh_credential_trusts_with_current_topology_def bind_eq_Some_conv)
  obtain s r where sr: "verify_and_update_credential_trusts_protecting (en_trust env) now (en_network_secret env)
            (\<lambda>p. p = sv_my_peer_id sv1 \<or> topology_peer_reachable (sv_route_table sv1) p) (Some (sv_my_peer_id sv1)) (sv_synced sv1) = (s, r)"
    by (rule prod.exhaust)
  have "sv_synced sv' = s"
    using assms unfolding refresh_credential_trusts_with_current_topology_def sv1
    by (auto simp: Let_def sr bind_eq_Some_conv dest: refresh_bitmap_keeps split: if_splits)
  with forgets_trusts [OF sr] refresh_bitmap_keeps [OF sv1] show ?thesis by simp
qed

definition allowed_info :: "'c net_ops \<Rightarrow> trusted_credential_pubkey \<Rightarrow> route_peer_info \<Rightarrow> bool" where
  "allowed_info net c info \<longleftrightarrow>
     is_credential_peer_info info \<and> (\<forall>cidr \<in> set (rp_proxy_cidrs info). \<exists>a \<in> set (tc_allowed_proxy_cidrs c). cidr_is_subset_str net cidr a)"

lemma find_info_Some: "find_info p idx infos = Some (i, info) \<Longrightarrow> rp_peer_id info = p"
  by (induction p idx infos rule: find_info.induct) (auto split: if_splits)

lemma extract_allowed:
  assumes "extract_credential_peer_info net wire from infos raws c = Some (Some (info, raw))"
  shows "rp_peer_id info = from \<and> allowed_info net c info"
proof -
  obtain idx found where found: "find_info from 0 infos = Some (idx, found)"
    using assms by (auto simp: extract_credential_peer_info_def split: option.splits)
  let ?cidrs = "if tc_allowed_proxy_cidrs c \<noteq> [] then filter (\<lambda>x. \<exists>a \<in> set (tc_allowed_proxy_cidrs c). cidr_is_subset_str net x a) (rp_proxy_cidrs found) else []"
  let ?info = "mark_credential_peer (found\<lparr>rp_proxy_cidrs := ?cidrs\<rparr>) True"
  obtain r :: "wire_error + bytes" where "(case r of Inr raw \<Rightarrow> Some (?info, raw) | Inl _ \<Rightarrow> None) = Some (info, raw)"
    using assms unfolding extract_credential_peer_info_def found Let_def by (auto simp: bind_eq_Some_conv simp del: if_not_P split del: if_split)
  then have "info = ?info" by (cases r) simp_all
  then show ?thesis using find_info_Some [OF found]
    by (auto simp: allowed_info_def mark_credential_peer_def is_credential_peer_info_def split: if_splits)
qed

lemma one_info_look:
  assumes "update_peer_infos now me my_route dst [info] raws s = Some (r, s')"
  shows "known_conn s' = known_conn s" "known_foreign s' = known_foreign s"
    "p \<noteq> rp_peer_id info \<Longrightarrow> known_info s' p = known_info s p"
    "known_info s' (rp_peer_id info) = known_info s (rp_peer_id info) \<or> known_info s' (rp_peer_id info) = Some (info\<lparr>rp_last_update := None\<rparr>)"
proof -
  obtain raw and q :: "sync_error + unit" where
    q: "(case q of Inl e \<Rightarrow> Some (Inl e, s) | Inr _ \<Rightarrow> Some (Inr (), inc_if (snd (insert_newer_info now info raw (s, False))) (fst (insert_newer_info now info raw (s, False))))) = Some (r, s')"
    using assms unfolding update_peer_infos_def update_peer_infos_loop.simps bind_eq_Some_conv fst_conv by blast
  consider "s' = s" | "r = Inr ()" using q by (cases q) auto
  then have "known_conn s' = known_conn s \<and> known_foreign s' = known_foreign s \<and>
      (known_info s' = known_info s \<or> known_info s' = deliver rp_version (rp_peer_id info, info\<lparr>rp_last_update := None\<rparr>) (known_info s))"
  proof cases
    case 2
    from update_loop_look [OF assms [unfolded update_peer_infos_def 2]] show ?thesis by simp
  qed simp
  then show "known_conn s' = known_conn s" "known_foreign s' = known_foreign s"
    "p \<noteq> rp_peer_id info \<Longrightarrow> known_info s' p = known_info s p"
    "known_info s' (rp_peer_id info) = known_info s (rp_peer_id info) \<or> known_info s' (rp_peer_id info) = Some (info\<lparr>rp_last_update := None\<rparr>)"
    by (auto simp: deliver_def split: option.splits if_splits)
qed

lemma handle_infos_confined:
  assumes "handle_infos env at now (Some c) rq i sv = Some (r, sv')"
  shows "known_conn (sv_synced sv') = known_conn (sv_synced sv)" "known_foreign (sv_synced sv') = known_foreign (sv_synced sv)"
    "p \<noteq> rq_from_peer_id rq \<Longrightarrow> known_info (sv_synced sv') p = known_info (sv_synced sv) p"
    "known_info (sv_synced sv') (rq_from_peer_id rq) = Some info \<Longrightarrow>
       known_info (sv_synced sv) (rq_from_peer_id rq) = Some info \<or> allowed_info (en_net env) c info"
proof -
  from assms obtain infos raws where acc: "accepted_infos env (Some c) rq = Some (infos, raws)"
    by (auto simp: handle_infos_def bind_eq_Some_conv)
  then consider "infos = []" | info where "infos = [info]" "rp_peer_id info = rq_from_peer_id rq" "allowed_info (en_net env) c info"
    by (auto simp: accepted_infos_def bind_eq_Some_conv dest!: extract_allowed split: option.splits)
  then have "known_conn (sv_synced sv') = known_conn (sv_synced sv) \<and> known_foreign (sv_synced sv') = known_foreign (sv_synced sv)
     \<and> (\<forall>p. p \<noteq> rq_from_peer_id rq \<longrightarrow> known_info (sv_synced sv') p = known_info (sv_synced sv) p)
     \<and> (\<forall>info. known_info (sv_synced sv') (rq_from_peer_id rq) = Some info \<longrightarrow>
          known_info (sv_synced sv) (rq_from_peer_id rq) = Some info \<or> allowed_info (en_net env) c info)"
  proof cases
    case 1
    then show ?thesis using assms by (simp add: handle_infos_def acc)
  next
    case (2 info)
    let ?groups = "\<lambda>s. verify_and_update_current_group_trusts (en_trust env) infos (en_group_declarations env) (en_network_secret env = None) s"
    from assms obtain q s where s: "update_peer_infos now (sv_my_peer_id sv) (sv_my_peer_route_id sv) (rq_from_peer_id rq) [info] raws (sv_synced sv) = Some (q, s)"
      unfolding handle_infos_def acc by (auto simp: bind_eq_Some_conv 2(1))
    have s': "sv_synced sv' = (case q of Inl _ \<Rightarrow> s | Inr _ \<Rightarrow> ?groups s)"
      using assms unfolding handle_infos_def acc by (cases q) (auto simp: s Let_def put_session_def 2(1))
    have keep: "tables (sv_synced sv') = tables s" unfolding s' by (cases q) (simp_all add: current_groups_keep)
    have "allowed_info (en_net env) c (info\<lparr>rp_last_update := None\<rparr>)"
      using 2(3) by (simp add: allowed_info_def is_credential_peer_info_def)
    then show ?thesis using one_info_look [OF s] unfolding same_tables [OF keep] 2(2) by auto
  qed
  then show "known_conn (sv_synced sv') = known_conn (sv_synced sv)" "known_foreign (sv_synced sv') = known_foreign (sv_synced sv)"
    "p \<noteq> rq_from_peer_id rq \<Longrightarrow> known_info (sv_synced sv') p = known_info (sv_synced sv) p"
    "known_info (sv_synced sv') (rq_from_peer_id rq) = Some info \<Longrightarrow>
       known_info (sv_synced sv) (rq_from_peer_id rq) = Some info \<or> allowed_info (en_net env) c info" by blast+
qed

lemma handle_conn_confined:
  assumes "handle_conn at now (Some c) rq i sv = Some (accepted, sv')"
  shows "known_info (sv_synced sv') = known_info (sv_synced sv)" "known_foreign (sv_synced sv') = known_foreign (sv_synced sv)"
    "\<not> tc_allow_relay c \<Longrightarrow> known_conn (sv_synced sv') = known_conn (sv_synced sv)"
proof -
  have conn: "known_info t = known_info u" "known_foreign t = known_foreign u" if "update_conn_info now conn u = Some t" for conn t u
    using that receive_look(1,3) [of "Conn_Info now conn" u t] by simp_all
  have "sv' = sv \<or> tc_allow_relay c \<and> (\<exists>conn. update_conn_info now conn (sv_synced sv) = Some (sv_synced sv'))"
    using assms by (auto simp: handle_conn_def bind_eq_Some_conv Let_def put_session_def split: option.splits if_splits)
  then show "known_info (sv_synced sv') = known_info (sv_synced sv)" "known_foreign (sv_synced sv') = known_foreign (sv_synced sv)"
    "\<not> tc_allow_relay c \<Longrightarrow> known_conn (sv_synced sv') = known_conn (sv_synced sv)"
    by (auto dest: conn)
qed

lemma handle_admitted_confined:
  assumes "handle_admitted env at now (Some c) rq i sv = Some (ans, sv')"
  shows "\<exists>sv1 sv2 r. handle_infos env at now (Some c) rq i sv = Some (r, sv1)
      \<and> (sv2 = sv1 \<or> (\<exists>accepted. handle_conn at now (Some c) rq i sv1 = Some (accepted, sv2))) \<and> forgets (sv_synced sv2) (sv_synced sv')"
proof -
  have same: "forgets s s" for s by (rule forgets_tables) simp
  from assms obtain r sv1 where sv1: "handle_infos env at now (Some c) rq i sv = Some (r, sv1)"
    by (auto simp: handle_admitted_def bind_eq_Some_conv)
  show ?thesis
  proof (cases r)
    case (Inl e)
    then show ?thesis using assms same by (auto simp: handle_admitted_def sv1)
  next
    case (Inr updated)
    with assms obtain accepted sv2 where sv2: "handle_conn at now (Some c) rq i sv1 = Some (accepted, sv2)"
      by (auto simp: handle_admitted_def sv1 bind_eq_Some_conv)
    define need where "need \<longleftrightarrow> updated \<or> accepted \<noteq> None"
    note a = assms [unfolded handle_admitted_def sv1 Inr bind.bind_lunit prod.case sum.case sv2 Let_def need_def [symmetric]]
    from a obtain sv3 untrusted where sv3:
      "(if need then refresh_credential_trusts_with_current_topology env now sv2 else Some (sv2, [])) = Some (sv3, untrusted)"
      by (auto simp: bind_eq_Some_conv split del: if_split)
    have f3: "forgets (sv_synced sv2) (sv_synced sv3)" using sv3 same by (auto dest: forgets_refresh split: if_splits)
    have f: "handle_foreign at now (Some c) rq i sv3 = Some (False, sv3)" by (simp add: handle_foreign_def split: option.splits)
    have "sv_synced sv' = sv_synced sv3"
      using a by (auto simp: sv3 f bind_eq_Some_conv case_prod_unfold put_session_def update_foreign_network_owner_map_def Let_def
          dest: refresh_bitmap_keeps split: if_splits)
    with sv1 sv2 f3 show ?thesis by auto
  qed
qed

lemma session_keeps:
  assumes "get_or_create_session at fresh_id p sv = (i, sv')"
  shows "sv_synced sv' = sv_synced sv" "i < length (sv_session_objs sv') \<or> get_session sv p = Some i"
  using assms by (auto simp: get_or_create_session_def split: option.splits)


section \<open>Requests that make the service panic\<close>

definition with_session :: "peer_id \<Rightarrow> sync_route_session \<Rightarrow> 'c route_service \<Rightarrow> 'c route_service" where
  "with_session p ss sv = sv\<lparr>sv_sessions := kv_put p (length (sv_session_objs sv)) (sv_sessions sv), sv_session_objs := sv_session_objs sv @ [ss]\<rparr>"

lemma new_session_admits:
  assumes "\<not> sv_stopped sv" "get_session sv (rq_from_peer_id rq) = None" "rq_is_initiator rq"
    and "credential = (if pw_identity_type view = Some Credential then pw_public_key view \<bind> get_credential_info_by_pubkey (sv_synced sv) else None)"
    and "pw_identity_type view = Some Credential \<Longrightarrow> credential \<noteq> None"
  shows "\<exists>ss. do_sync_route_info env at now fresh_id view rq sv =
    handle_admitted env at now credential rq (length (sv_session_objs sv)) (with_session (rq_from_peer_id rq) ss sv)"
proof -
  let ?first = "route_session_new at fresh_id (sv_my_peer_id sv) (rq_from_peer_id rq)"
  have "fst (admit_inbound (rq_from_session_id rq) True ?first)" by (simp add: admit_inbound_def route_session_new_def)
  then obtain ss where ss: "admit_inbound (rq_from_session_id rq) True ?first = (True, ss)" by (metis prod.collapse)
  show ?thesis
    by (rule exI [of _ "ss\<lparr>ss_rpc_rx_count := ss_rpc_rx_count ss + 1, ss_last_contact := at\<rparr>"])
      (use assms ss in \<open>auto simp: do_sync_route_info_def get_or_create_session_def Let_def is_current_session_def put_session_def with_session_def\<close>)
qed

lemma handle_foreign_None:
  assumes "rq_foreign rq = Some rows" "(None, e) \<in> set rows"
  shows "handle_foreign at now None rq i sv = None"
proof -
  have "save_foreign_rows at (rq_from_peer_id rq) rows m = None" for m using assms(2) by (force simp: foreign_rows_panic)
  then show ?thesis
    by (auto simp: handle_foreign_def assms(1) update_dst_saved_foreign_network_version_def case_prod_unfold)
qed

text \<open>C26: A peer without a credential can make the service panic with one request: by a row of foreign networks that has no key, by a
  connection bitmap with fewer bits than pairs of peers, or by newer information about the service's own peer identifier from another
  instance.\<close>

theorem malformed_request_panics:
  assumes "\<not> sv_stopped sv" "get_session sv (rq_from_peer_id rq) = None" "rq_is_initiator rq" "pw_identity_type view \<noteq> Some Credential"
    and "rq_infos rq = None \<and> rq_conn rq = None \<and> (\<exists>rows e. rq_foreign rq = Some rows \<and> (None, e) \<in> set rows)
      \<or> rq_infos rq = None \<and> (\<exists>b. rq_conn rq = Some (ConnBitmap b) \<and> 8 * length (cb_bitmap b) < length (cb_peer_ids b) * length (cb_peer_ids b))
      \<or> (\<exists>info raw. rq_infos rq = Some [info] \<and> rq_raw_infos rq = Some [raw] \<and> rp_peer_id info = sv_my_peer_id sv
          \<and> rp_peer_route_id info \<noteq> sv_my_peer_route_id sv \<and> get_peer_info_version_with_default (sv_synced sv) (sv_my_peer_id sv) < rp_version info)"
  shows "do_sync_route_info env at now fresh_id view rq sv = None"
proof -
  let ?i = "length (sv_session_objs sv)" and ?sv = "\<lambda>ss. with_session (rq_from_peer_id rq) ss sv"
  obtain ss where ss: "do_sync_route_info env at now fresh_id view rq sv = handle_admitted env at now None rq ?i (?sv ss)"
    using new_session_admits [OF assms(1-3), of None view env at now fresh_id] assms(4) by auto
  from assms(5) show ?thesis unfolding ss
  proof (elim disjE exE conjE)
    fix rows e
    assume "rq_infos rq = None" "rq_conn rq = None" "rq_foreign rq = Some rows" "(None, e) \<in> set rows"
    then show "handle_admitted env at now None rq ?i (?sv ss) = None"
      by (simp add: handle_admitted_def handle_infos_def accepted_infos_def handle_conn_def handle_foreign_None)
  next
    fix b
    assume "rq_infos rq = None" "rq_conn rq = Some (ConnBitmap b)" "8 * length (cb_bitmap b) < length (cb_peer_ids b) * length (cb_peer_ids b)"
    then show "handle_admitted env at now None rq ?i (?sv ss) = None"
      by (simp add: handle_admitted_def handle_infos_def accepted_infos_def handle_conn_def update_bitmap_None [THEN iffD2])
  next
    fix info raw
    assume "rq_infos rq = Some [info]" "rq_raw_infos rq = Some [raw]" "rp_peer_id info = sv_my_peer_id sv"
      "rp_peer_route_id info \<noteq> sv_my_peer_route_id sv" "get_peer_info_version_with_default (sv_synced sv) (sv_my_peer_id sv) < rp_version info"
    then show "handle_admitted env at now None rq ?i (?sv ss) = None"
      by (simp add: handle_admitted_def handle_infos_def accepted_infos_def update_peer_infos_def check_duplicate_peer_id_def nth_opt_def with_session_def)
  qed
qed

section \<open>Samples\<close>

definition sample_env :: "nat service_env" where
  "sample_env = \<lparr>en_net = sample_ops, en_dij = scores_of, en_pop = pop_min, en_cost = (\<lambda>_ _. 5), en_trust = sample_trust,
     en_network_secret = Some ''secret'', en_secure_mode_enabled = True, en_prefer_peer_relay = False, en_group_declarations = []\<rparr>"

definition sample_service :: "nat route_service" where
  "sample_service = (service_new 1 77 ''2.4'')\<lparr>sv_synced := sample_store []\<rparr>"

definition sample_sync_request :: sync_request where
  "sample_sync_request = \<lparr>rq_from_peer_id = 5, rq_from_session_id = 8, rq_is_initiator = True, rq_infos = None, rq_raw_infos = None,
     rq_conn = Some (ConnPeerList [\<lparr>pc_peer_id = Some \<lparr>pv_peer_id = 3, pv_version = 9\<rparr>, pc_connected_peer_ids = [5]\<rparr>]),
     rq_foreign = Some [(None, None)]\<rparr>"


theorem malformed_request_panics_witness:
  "do_sync_route_info sample_env 0 0 4 \<lparr>pw_identity_type = None, pw_public_key = None\<rparr> (sample_sync_request\<lparr>rq_conn := None\<rparr>) sample_service = None"
  by (rule malformed_request_panics) (auto simp: sample_service_def service_new_def sample_sync_request_def get_session_def)

end
