(* ===== verification/Spec2Isabelle.thy ===== *)
theory Spec2Isabelle
  imports ReplayWindow Packet IpPacket Compressor RpcPacket Encrypt SecureDatagram PeerSession TokenBucket GraphAlgo
    StdText AclTypes Acl AclFilter RouteTypes RouteTable RoutePaths RouteLookup RouteWire
    RouteSync RouteTrust RouteSession RouteService
begin

text \<open>
  \<^bold>\<open>A verification of the portable core of EasyTier\<close>

  EasyTier builds a virtual network between peers. A packet from the network interface of a node is parsed,
  judged by the access control lists, perhaps compressed, encrypted by the session with the next peer and sent
  through a tunnel; the receiving node undoes these steps in the opposite order. Peers tell each other about themselves,
  their connections and the networks they serve; each computes its routes on the graph of peers it has heard of, and
  trusts credentials that administrators have signed. Management traffic travels as RPC packets cut into pieces, and rate limits are token buckets.
  The theories model the components of this path in \<^verbatim>\<open>src/easytier-core/src\<close>. All file names below are relative
  to that directory, those that end in \<^verbatim>\<open>.proto\<close> to \<^verbatim>\<open>src/easytier-proto/proto\<close>.

  \<^bold>\<open>Conventions.\<close> A Rust structure is a record, an enumeration a datatype, a machine integer a word (or a
  number with the wrap-around written out). State is passed explicitly. An outer \<^const>\<open>None\<close> is a panic or
  an index out of range; an error value is an \<^const>\<open>Inl\<close> or a constructor. Shared objects behind an \<^verbatim>\<open>Arc\<close> are
  indices into a list of all objects made, so that sharing is visible. Clocks, random numbers and foreign
  code (zstd, the AEAD primitives, HMAC, the protobuf primitives of \<^verbatim>\<open>prost\<close>, the \<^verbatim>\<open>cidr\<close> crate, \<^verbatim>\<open>petgraph\<close>, the order in which a heap
  returns equal elements) are arguments; what the code relies on is a named hypothesis, and a concrete instance shows that it can hold.

  \<^bold>\<open>Theories\<close>

    \<^item> \<open>Prelude\<close>: machine integers, byte strings, maps (locale \<open>kv_map\<close>, interpreted as \<open>kvm\<close>), slices, UTF-8.
      \<open>StdText\<close>: printing and parsing of numbers and addresses.
    \<^item> \<open>Packet\<close> (\<^verbatim>\<open>packet/mod.rs\<close>): headers, flags, the offsets of the tunnel types and every operation of
      \<^verbatim>\<open>ZCPacket\<close>. Conversion between tunnel types keeps header and payload; encapsulation for a foreign network
      is undone exactly; liveness markers exclude each other.
    \<^item> \<open>IpPacket\<close> (\<^verbatim>\<open>packet/ip.rs\<close>, \<^verbatim>\<open>packet/flow.rs\<close>): IPv4 and IPv6 with extension headers. The parser returns
      on every input, reads back what was written, and flow keys exist exactly for whole TCP and UDP packets.
    \<^item> \<open>Compressor\<close> (\<^verbatim>\<open>packet/compressor.rs\<close>, \<^verbatim>\<open>packet/compressor/zstd.rs\<close>): round trip of compression.
    \<^item> \<open>RpcPacket\<close> (\<^verbatim>\<open>rpc/packet.rs\<close>): splitting a message into pieces and merging them in any order; the
      limit up to which a compressed body can be read.
    \<^item> \<open>Encrypt\<close> (\<^verbatim>\<open>tunnel/encrypt/*.rs\<close>, \<^verbatim>\<open>config/encryption.rs\<close>): the packet ciphers (locale \<open>packet_cipher\<close>,
      interpreted as \<open>cipher\<close>). Decryption undoes encryption, all back ends agree bit for bit, and what is accepted
      is characterised.
    \<^item> \<open>ReplayWindow\<close> and \<open>SecureDatagram\<close> (\<^verbatim>\<open>tunnel/secure_datagram.rs\<close>): the sliding window refines the set of
      numbers seen (locale \<open>replay_guard\<close>, interpreted as \<open>window\<close>); sessions with epochs, key cache and the grace
      period of a synchronisation. No datagram is accepted twice while its slot lives, nonces never repeat in an
      epoch, the cached cipher belongs to the current key, every outcome of decryption is listed, and a replay
      after an idle time is shown to be accepted.
    \<^item> \<open>PeerSession\<close> (\<^verbatim>\<open>peers/conn/peer_session.rs\<close> and the tunnel filter of \<^verbatim>\<open>peers/conn/peer_conn.rs\<close>): the store of
      sessions as a step relation \<open>store_step\<close>. Handshakes agree on the key, identities are stable, and the
      filters of both ends undo each other; two weaknesses of synchronisation are proved.
    \<^item> \<open>TokenBucket\<close> (\<^verbatim>\<open>foundation/token_bucket.rs\<close>): the integer bucket equals an exact one, obeys its rate, and
      waiting for tokens ends.
    \<^item> \<open>GraphAlgo\<close> (\<^verbatim>\<open>peers/route/graph_algo.rs\<close>): the search for shortest paths with first hops over any priority
      queue (locale \<open>min_queue\<close>, interpreted as \<open>binary_heap\<close>) returns least costs and first hops of cheapest walks.
    \<^item> \<open>AclTypes\<close> and \<open>Acl\<close> (\<^verbatim>\<open>peers/acl/processor.rs\<close>, \<^verbatim>\<open>acl.proto\<close>): the rule engine with its cache of decisions.
      The cache is transparent, the engine never panics, its cache is bounded, priorities decide.
    \<^item> \<open>AclFilter\<close> (\<^verbatim>\<open>peers/acl/filter.rs\<close>): the filter around the engine as a step relation \<open>filter_reach\<close>. Verdicts
      are exact, and return traffic passes exactly when it was asked for.
    \<^item> \<open>RouteTypes\<close>, \<open>RouteTable\<close>, \<open>RoutePaths\<close> and \<open>RouteLookup\<close> (\<^verbatim>\<open>OspfRouteTable\<close> in \<^verbatim>\<open>peers/route/peer_ospf_route.rs\<close>,
      \<^verbatim>\<open>peer_rpc.proto\<close>): the table of routes built from a snapshot. Both policies install best routes (locales
      \<open>path_lengths\<close> and \<open>route_search\<close>, interpreted as \<open>lengths\<close> and \<open>search\<close>), packets forwarded hop by hop arrive,
      and addresses and networks are mapped to the nearest peer that announces them.
    \<^item> \<open>RouteWire\<close> (\<^verbatim>\<open>peers/route/route_peer_wire.rs\<close>): editing of encoded messages (locale \<open>wire_codec\<close>, interpreted as \<open>pb\<close>).
      A patch touches the fields it names and no other; the raw information of a request is read back.
    \<^item> \<open>RouteSync\<close> (\<^verbatim>\<open>SyncedRouteInfo\<close> in \<^verbatim>\<open>peers/route/peer_ospf_route.rs\<close>): the store of what a peer has heard. The locale \<open>replica\<close>
      states what a versioned replica promises; it is interpreted for the three tables (\<open>infos\<close>, \<open>conns\<close>, \<open>foreigns\<close>), so
      that stores which have heard the same know the same.
    \<^item> \<open>RouteTrust\<close> (the same type, and the proofs of \<^verbatim>\<open>easytier-proto/src/peer_rpc.rs\<close>): which credentials are trusted, who owns one
      that may be used once, which peers are removed, and which groups a peer is in.
    \<^item> \<open>RouteSession\<close> (\<^verbatim>\<open>SyncRouteSession\<close> and \<^verbatim>\<open>sync_route_with_peer\<close>): the bookkeeping of what the other side has (locale
      \<open>bookkeeping\<close>, interpreted as \<open>info_book\<close> and \<open>conn_book\<close>). An exchange loses no peer information, answers to old requests are
      discarded, and two ways of losing an entry are proved.
    \<^item> \<open>RouteService\<close> (\<^verbatim>\<open>PeerRouteServiceImpl\<close> and \<^verbatim>\<open>do_sync_route_info\<close>): the bitmap of connections, the refresh of tables and trust,
      and the handler of requests, which composes the theories above. The bitmap carries the rows of the table, a peer with a credential
      speaks for itself only, and three requests that make the service panic are given.

  \<^bold>\<open>Bounds and fuel.\<close> \<open>consume\<close> takes fuel, and two turns per chunk are proved to be enough; the search of
  \<open>GraphAlgo\<close> is a partial function that is proved to return; every other loop is structural or has a termination
  proof. \<open>usize\<close> is 64 bits wide. Theorems that need it say that an epoch or counter has not reached its maximum.

  \<^bold>\<open>Not modelled.\<close> Sockets, tasks, locks and wake-ups; the Noise handshake (the \<^verbatim>\<open>snow\<close> crate) and the exchange of
  its messages; in the route service the tasks that repeat an exchange, the election of the side that starts a session, the polling
  of the peer interface and the service for public IPv6 addresses, which are chains of remote calls and timers; hole punching, gateways
  and proxies; configuration files; the platform crates, user interfaces and web services. Operations on shared maps are taken to be
  atomic one call at a time. Log lines and memory management (\<^verbatim>\<open>shrink_to_fit\<close>) have no counterpart.
\<close>

end
